theory Spec2Isabelle
  imports Main "HOL-Library.Multiset" "HOL-Library.Sublist"
begin

section \<open>Data model (types/guest.ts and the interfaces of utils/seatingAlgorithm.ts)\<close>

text \<open>
  The seating heuristic \<open>optimizeSeating\<close> is embedded as a pure function over explicit
  working state. Conventions of the embedding:
  \<^item> numbers are \<open>int\<close> (seat amounts and capacities are integers in every caller; \<open>NaN\<close> and
    fractions are not modelled);
  \<^item> strings are \<open>string\<close>; \<open>trim\<close> and \<open>toLowerCase\<close> are modelled on the ASCII range;
  \<^item> a JavaScript object used as a dictionary is an association list in own-property
    order (insertion order, array-index keys first);
  \<^item> the working-table identifier \<open>`table-${n}`\<close> is represented by the number \<open>n\<close>;
  \<^item> the write-only local \<open>assignment\<close> and the \<open>onProgress\<close> notifications do not influence
    the returned value and are left out.
\<close>

datatype GuestCategory = family | friend | colleague | other

datatype GuestSide = groom | bride | both

record Guest =
  guest_id :: string
  guest_name :: string
  guest_category :: GuestCategory
  guest_side :: GuestSide
  guest_groupId :: "string option"
  guest_tableId :: "string option"
  guest_age :: "int option"
  guest_phoneNumber :: "string option"
  guest_notes :: "string option"
  guest_amount :: "int option"
  guest_conflictsWith :: "string list"

record GuestGroup =
  groupId :: string
  guests :: "Guest list"
  group_size :: int
  dominantSide :: GuestSide
  dominantCategory :: GuestCategory
  averageAge :: int

record ProcessedGroup = GuestGroup +
  isRequestedForKnight :: bool

record KnightConfig =
  knight_enabled :: bool
  knight_count :: int
  knight_capacity :: int

record OptimizationConfig =
  tableCapacity :: "int option"
  knightConfig :: "KnightConfig option"
  knightGroupNames :: "string list option"

text \<open>The value type of the local dictionary \<open>tableAssignments\<close>; the side and category strings
  are \<open>None\<close> for the empty string \<open>''\<close> a knight table starts with.\<close>

record TableData =
  table_guests :: "Guest list"
  table_side :: "GuestSide option"
  table_category :: "GuestCategory option"
  table_capacity :: int
  table_isKnight :: bool

type_synonym TableId = nat

type_synonym TableAssignments = "(TableId \<times> TableData) list"

record OptimizedTable = TableData +
  table_id :: TableId

record OptimizationResult =
  assignments :: "string \<rightharpoonup> TableId"
  tables :: "OptimizedTable list"

section \<open>JavaScript helpers\<close>

text \<open>\<open>obj[key] = v\<close>: an existing key keeps its position, a new key is appended.\<close>

fun setProp :: "'k \<Rightarrow> 'v \<Rightarrow> ('k \<times> 'v) list \<Rightarrow> ('k \<times> 'v) list" where
  "setProp k v [] = [(k, v)]"
| "setProp k v (p # ps) = (if fst p = k then (k, v) # ps else p # setProp k v ps)"

text \<open>\<open>delete obj[key]\<close>.\<close>

definition deleteProp :: "'k \<Rightarrow> ('k \<times> 'v) list \<Rightarrow> ('k \<times> 'v) list" where
  "deleteProp k ps = filter (\<lambda>p. fst p \<noteq> k) ps"

text \<open>\<open>String.prototype.trim\<close> and \<open>toLowerCase\<close> on ASCII.\<close>

definition isWhiteSpace :: "char \<Rightarrow> bool" where
  "isWhiteSpace c = (of_char c \<in> {9::nat, 10, 11, 12, 13, 32})"

definition trim :: "string \<Rightarrow> string" where
  "trim s = rev (dropWhile isWhiteSpace (rev (dropWhile isWhiteSpace s)))"

definition lowerChar :: "char \<Rightarrow> char" where
  "lowerChar c = (if 65 \<le> (of_char c :: nat) \<and> (of_char c :: nat) \<le> 90
                  then char_of ((of_char c :: nat) + 32) else c)"

definition toLowerCase :: "string \<Rightarrow> string" where
  "toLowerCase s = map lowerChar s"

definition normalize :: "string \<Rightarrow> string" where
  "normalize s = toLowerCase (trim s)"

text \<open>Own-property order of \<open>Object.entries\<close>: keys that are canonical array indices come
  first in ascending numeric order, all other keys follow in insertion order.\<close>

definition isDigit :: "char \<Rightarrow> bool" where
  "isDigit c = (48 \<le> (of_char c :: nat) \<and> (of_char c :: nat) \<le> 57)"

definition decimalValue :: "string \<Rightarrow> int" where
  "decimalValue s = fold (\<lambda>c n. 10 * n + (of_char c - 48)) s 0"

definition isArrayIndex :: "string \<Rightarrow> bool" where
  "isArrayIndex s = (s \<noteq> [] \<and> list_all isDigit s \<and> (length s = 1 \<or> hd s \<noteq> CHR ''0'')
                     \<and> decimalValue s < 4294967295)"

definition objectEntries :: "(string \<times> 'v) list \<Rightarrow> (string \<times> 'v) list" where
  "objectEntries ps =
     sort_key (\<lambda>p. decimalValue (fst p)) (filter (\<lambda>p. isArrayIndex (fst p)) ps)
     @ filter (\<lambda>p. \<not> isArrayIndex (fst p)) ps"

text \<open>\<open>Array.prototype.sort\<close> is stable; \<open>sort_key\<close> is a stable insertion sort.\<close>

definition sortDescBy :: "('a \<Rightarrow> int) \<Rightarrow> 'a list \<Rightarrow> 'a list" where
  "sortDescBy f xs = sort_key (\<lambda>x. - f x) xs"

definition sortAscBy :: "('a \<Rightarrow> int) \<Rightarrow> 'a list \<Rightarrow> 'a list" where
  "sortAscBy f xs = sort_key f xs"

section \<open>Seat weights\<close>

text \<open>\<open>g.amount || 1\<close>: an absent or zero amount counts as one seat.\<close>

definition amountOf :: "Guest \<Rightarrow> int" where
  "amountOf g = (case guest_amount g of None \<Rightarrow> 1 | Some a \<Rightarrow> if a = 0 then 1 else a)"

text \<open>\<open>getGuestsSize = list.reduce((sum, g) => sum + (g.amount || 1), 0)\<close>\<close>

definition getGuestsSize :: "Guest list \<Rightarrow> int" where
  "getGuestsSize list = fold (\<lambda>g sum. sum + amountOf g) list 0"

section \<open>Grouping: \<open>groupGuestsByRelationship\<close>\<close>

text \<open>First pass of \<open>groupGuestsByRelationship\<close>: a guest with a truthy (non-empty)
  \<open>groupId\<close> is pushed onto the array stored under the trimmed key, any other guest onto
  \<open>ungrouped\<close>. The dictionary \<open>groups\<close> is a plain object, and \<open>pushGrouped\<close> is the step for a
  key that is an own key of it or is unknown to it altogether; for a key that
  \<open>Object.prototype\<close> defines the source throws, see \<open>groupingThrows\<close> below.\<close>

definition pushGrouped :: "string \<Rightarrow> Guest \<Rightarrow> (string \<times> Guest list) list
    \<Rightarrow> (string \<times> Guest list) list" where
  "pushGrouped key guest groups =
     (case map_of groups key of
        None \<Rightarrow> setProp key [guest] groups
      | Some gs \<Rightarrow> setProp key (gs @ [guest]) groups)"

definition groupStep :: "Guest \<Rightarrow> (string \<times> Guest list) list \<times> Guest list
    \<Rightarrow> (string \<times> Guest list) list \<times> Guest list" where
  "groupStep guest acc =
     (case acc of (groups, ungrouped) \<Rightarrow>
        (case guest_groupId guest of
           Some s \<Rightarrow> if s \<noteq> [] then (pushGrouped (trim s) guest groups, ungrouped)
                     else (groups, ungrouped @ [guest])
         | None \<Rightarrow> (groups, ungrouped @ [guest])))"

text \<open>Second pass: \<open>groups[`individual-${guest.id}`] = [guest]\<close> for every ungrouped guest.\<close>

definition individualStep :: "Guest \<Rightarrow> (string \<times> Guest list) list
    \<Rightarrow> (string \<times> Guest list) list" where
  "individualStep guest groups = setProp (''individual-'' @ guest_id guest) [guest] groups"

definition groupDict :: "Guest list \<Rightarrow> (string \<times> Guest list) list" where
  "groupDict gs = (case fold groupStep gs ([], []) of
                     (groups, ungrouped) \<Rightarrow> fold individualStep ungrouped groups)"

definition mkGroup :: "string \<times> Guest list \<Rightarrow> GuestGroup" where
  "mkGroup p = \<lparr> groupId = fst p, guests = snd p, group_size = int (length (snd p)),
                 dominantSide = both, dominantCategory = other, averageAge = 0 \<rparr>"

definition groupGuestsByRelationship :: "Guest list \<Rightarrow> GuestGroup list" where
  "groupGuestsByRelationship gs = map mkGroup (objectEntries (groupDict gs))"

text \<open>The lookup \<open>groups[key]\<close> also finds the properties that a plain object inherits from
  \<open>Object.prototype\<close>. They are functions, and \<open>__proto__\<close> yields the prototype object: all
  are truthy. For such a key \<open>!groups[key]\<close> is false, no array is stored under the key, and
  \<open>groups[key].push(guest)\<close> calls \<open>undefined\<close>: the source throws a \<open>TypeError\<close>, and the
  promise of \<open>optimizeSeating\<close> rejects. This happens at the first guest with a truthy
  \<open>groupId\<close> whose trimmed key is inherited; an inherited key never becomes an own key. The
  keys \<open>individual-...\<close> of the second pass are not inherited. The functions above give the
  groups of the guest lists for which the source does not throw.\<close>

datatype error = TypeError

definition prototypeKeys :: "string list" where
  "prototypeKeys = [''constructor'', ''__defineGetter__'', ''__defineSetter__'',
                    ''hasOwnProperty'', ''__lookupGetter__'', ''__lookupSetter__'',
                    ''isPrototypeOf'', ''propertyIsEnumerable'', ''toString'', ''valueOf'',
                    ''__proto__'', ''toLocaleString'']"

definition inherited :: "string \<Rightarrow> bool" where
  "inherited key = (key \<in> set prototypeKeys)"

definition groupKeyInherited :: "Guest \<Rightarrow> bool" where
  "groupKeyInherited guest =
     (case guest_groupId guest of None \<Rightarrow> False | Some s \<Rightarrow> s \<noteq> [] \<and> inherited (trim s))"

definition groupingThrows :: "Guest list \<Rightarrow> bool" where
  "groupingThrows gs = list_ex groupKeyInherited gs"

section \<open>Classifier\<close>

text \<open>The tallies \<open>sideCounts\<close> and \<open>categoryCounts\<close>, as the entry lists \<open>Object.entries\<close>
  yields them (declaration order), each member adding its seat weight.\<close>

definition sideCounts :: "Guest list \<Rightarrow> (GuestSide \<times> int) list" where
  "sideCounts list =
     fold (\<lambda>g counts. map (\<lambda>(k, n). if k = guest_side g then (k, n + amountOf g) else (k, n))
                           counts)
          list [(groom, 0), (bride, 0), (both, 0)]"

definition categoryCounts :: "Guest list \<Rightarrow> (GuestCategory \<times> int) list" where
  "categoryCounts list =
     fold (\<lambda>g counts. map (\<lambda>(k, n). if k = guest_category g then (k, n + amountOf g)
                                      else (k, n)) counts)
          list [(family, 0), (friend, 0), (colleague, 0), (other, 0)]"

text \<open>\<open>entries.reduce((a, b) => a[1] > b[1] ? a : b)\<close> without an initial value: the
  accumulator starts as the first entry. (On an empty array JavaScript throws; both tallies
  are never empty, and the model returns the default given.)\<close>

definition pickLarger :: "'a \<times> int \<Rightarrow> 'a \<times> int \<Rightarrow> 'a \<times> int" where
  "pickLarger b a = (if snd a > snd b then a else b)"

definition reduceMax :: "'a \<times> int \<Rightarrow> ('a \<times> int) list \<Rightarrow> 'a \<times> int" where
  "reduceMax d entries = (case entries of [] \<Rightarrow> d | e # es \<Rightarrow> fold pickLarger es e)"

definition dominantSideOf :: "Guest list \<Rightarrow> GuestSide" where
  "dominantSideOf list = fst (reduceMax (both, 0) (sideCounts list))"

definition dominantCategoryOf :: "Guest list \<Rightarrow> GuestCategory" where
  "dominantCategoryOf list = fst (reduceMax (other, 0) (categoryCounts list))"

definition knightTargetGroups :: "OptimizationConfig \<Rightarrow> string list" where
  "knightTargetGroups config =
     (case knightGroupNames config of None \<Rightarrow> [] | Some names \<Rightarrow> map normalize names)"

definition classify :: "string list \<Rightarrow> GuestGroup \<Rightarrow> ProcessedGroup" where
  "classify targets grp =
     \<lparr> groupId = groupId grp, guests = guests grp,
       group_size = getGuestsSize (guests grp),
       dominantSide = dominantSideOf (guests grp),
       dominantCategory = dominantCategoryOf (guests grp),
       averageAge = averageAge grp,
       isRequestedForKnight = (normalize (groupId grp) \<in> set targets) \<rparr>"

section \<open>Working tables\<close>

text \<open>A table of \<open>tableAssignments\<close> is reached through its key and mutated in place; keys of
  the dictionary are unique, so updating the entries stored under the key is the mutation.\<close>

definition modifyTable :: "TableId \<Rightarrow> (TableData \<Rightarrow> TableData) \<Rightarrow> TableAssignments
    \<Rightarrow> TableAssignments" where
  "modifyTable tid f tabs = map (\<lambda>p. if fst p = tid then (fst p, f (snd p)) else p) tabs"

text \<open>\<open>space = table.capacity - getGuestsSize(table.guests)\<close>\<close>

definition spaceOf :: "TableData \<Rightarrow> int" where
  "spaceOf t = table_capacity t - getGuestsSize (table_guests t)"

text \<open>\<open>table.guests.push(guest)\<close> for every guest of the chunk.\<close>

definition pushGuests :: "Guest list \<Rightarrow> TableData \<Rightarrow> TableData" where
  "pushGuests chunk t = t\<lparr>table_guests := table_guests t @ chunk\<rparr>"

text \<open>The push followed by \<open>if (table.guests.length === chunk.length)\<close>: a table whose only
  guests are the chunk takes the side and category of the group.\<close>

definition seatLabelled :: "ProcessedGroup \<Rightarrow> Guest list \<Rightarrow> TableData \<Rightarrow> TableData" where
  "seatLabelled grp chunk t =
     (let t' = pushGuests chunk t in
      if length (table_guests t') = length chunk
      then t'\<lparr>table_side := Some (dominantSide grp),
              table_category := Some (dominantCategory grp)\<rparr>
      else t')"

text \<open>The greedy fill used for knight tables and for existing standard tables: every guest
  of \<open>guestsToSeat\<close> is visited in order and taken when it still fits; the loop has no
  \<open>break\<close>. The fallback after the loop takes the first guest when nothing was taken and
  it fits.\<close>

definition chunkStep :: "int \<Rightarrow> Guest \<Rightarrow> Guest list \<times> int \<Rightarrow> Guest list \<times> int" where
  "chunkStep maxSpace g acc =
     (case acc of (chunk, chunkSpace) \<Rightarrow>
        if chunkSpace + amountOf g \<le> maxSpace then (chunk @ [g], chunkSpace + amountOf g)
        else acc)"

definition greedyChunk :: "int \<Rightarrow> Guest list \<Rightarrow> Guest list" where
  "greedyChunk maxSpace guestsToSeat =
     (let chunk = fst (fold (chunkStep maxSpace) guestsToSeat ([], 0)) in
      if chunk = [] \<and> guestsToSeat \<noteq> [] \<and> amountOf (hd guestsToSeat) \<le> maxSpace
      then [hd guestsToSeat] else chunk)"

text \<open>\<open>chunk.forEach(g => { idx = guestsToSeat.findIndex(x => x.id === g.id);
  if (idx > -1) guestsToSeat.splice(idx, 1) })\<close>\<close>

fun removeById :: "string \<Rightarrow> Guest list \<Rightarrow> Guest list" where
  "removeById i [] = []"
| "removeById i (x # xs) = (if guest_id x = i then xs else x # removeById i xs)"

definition removeChunk :: "Guest list \<Rightarrow> Guest list \<Rightarrow> Guest list" where
  "removeChunk chunk guestsToSeat = fold (\<lambda>g rest. removeById (guest_id g) rest) chunk guestsToSeat"

text \<open>One iteration of a \<open>while (guestsToSeat.length > 0)\<close> loop either goes on with a new
  state or leaves the loop through \<open>break\<close>.\<close>

datatype 's Step = Continue 's | Break 's

section \<open>Phase A: knight tables\<close>

definition newKnightTable :: "int \<Rightarrow> TableData" where
  "newKnightTable cap = \<lparr> table_guests = [], table_side = None, table_category = None,
                           table_capacity = cap, table_isKnight = True \<rparr>"

definition createKnightTables :: "KnightConfig \<Rightarrow> TableAssignments \<times> nat" where
  "createKnightTables kc =
     fold (\<lambda>i (tabs, tableCounter).
             (setProp tableCounter (newKnightTable (knight_capacity kc)) tabs, Suc tableCounter))
          [0..<nat (knight_count kc)] ([], 0)"

text \<open>The scan for the knight table with the largest remaining space; \<open>maxSpace\<close> starts
  at \<open>-1\<close>. (A missing key would make the source throw; the keys \<open>0..count-1\<close> always
  exist.)\<close>

definition knightScanStep :: "TableAssignments \<Rightarrow> nat \<Rightarrow> TableId option \<times> int
    \<Rightarrow> TableId option \<times> int" where
  "knightScanStep tabs i acc =
     (case acc of (bestTableId, maxSpace) \<Rightarrow>
        (case map_of tabs i of
           None \<Rightarrow> acc
         | Some t \<Rightarrow> if spaceOf t > 0 \<and> spaceOf t > maxSpace then (Some i, spaceOf t) else acc))"

definition findKnightTable :: "int \<Rightarrow> TableAssignments \<Rightarrow> TableId option \<times> int" where
  "findKnightTable cnt tabs = fold (knightScanStep tabs) [0..<nat cnt] (None, -1)"

definition leftoverGroup :: "ProcessedGroup \<Rightarrow> Guest list \<Rightarrow> ProcessedGroup" where
  "leftoverGroup grp guestsToSeat =
     grp\<lparr>guests := guestsToSeat, group_size := getGuestsSize guestsToSeat\<rparr>"

type_synonym KnightState = "Guest list \<times> TableAssignments \<times> ProcessedGroup list"

text \<open>One iteration of the knight loop of a candidate group. When a table with space is
  found but the chunk is empty the source leaves the loop at once; only the branch without
  a table pushes the leftover onto \<open>processedGroups\<close>.\<close>

definition knightStep :: "int \<Rightarrow> ProcessedGroup \<Rightarrow> KnightState \<Rightarrow> KnightState Step" where
  "knightStep cnt grp s =
     (case s of (guestsToSeat, tabs, processedGroups) \<Rightarrow>
        (case findKnightTable cnt tabs of (bestTableId, maxSpace) \<Rightarrow>
           (case bestTableId of
              Some tid \<Rightarrow>
                if maxSpace > 0 then
                  (let chunk = greedyChunk maxSpace guestsToSeat in
                   if chunk \<noteq> []
                   then Continue (removeChunk chunk guestsToSeat,
                                  modifyTable tid (seatLabelled grp chunk) tabs, processedGroups)
                   else Break s)
                else Break (guestsToSeat, tabs,
                            if guestsToSeat \<noteq> []
                            then processedGroups @ [leftoverGroup grp guestsToSeat]
                            else processedGroups)
            | None \<Rightarrow> Break (guestsToSeat, tabs,
                              if guestsToSeat \<noteq> []
                              then processedGroups @ [leftoverGroup grp guestsToSeat]
                              else processedGroups))))"

text \<open>Every chunk is drawn from \<open>guestsToSeat\<close>, so removing a non-empty chunk shortens the
  list; this is what makes the seating loops terminate.\<close>

lemma removeById_length_le: "length (removeById i xs) \<le> length xs"
  by (induction xs) auto

lemma removeById_length_less: "i \<in> guest_id ` set xs \<Longrightarrow> length (removeById i xs) < length xs"
  by (induction xs) auto

lemma removeChunk_length_le: "length (removeChunk c xs) \<le> length xs"
proof (induction c arbitrary: xs)
  case Nil
  then show ?case by (simp add: removeChunk_def)
next
  case (Cons g c)
  have "length (removeChunk c (removeById (guest_id g) xs)) \<le> length (removeById (guest_id g) xs)"
    using Cons.IH .
  also have "\<dots> \<le> length xs" by (rule removeById_length_le)
  finally show ?case by (simp add: removeChunk_def)
qed

lemma removeChunk_length_less:
  assumes "c \<noteq> []" and "set c \<subseteq> set xs"
  shows "length (removeChunk c xs) < length xs"
proof -
  obtain g c' where c: "c = g # c'" using assms(1) by (cases c) auto
  have "guest_id g \<in> guest_id ` set xs" using assms(2) c by auto
  then have "length (removeById (guest_id g) xs) < length xs" by (rule removeById_length_less)
  moreover have "length (removeChunk c' (removeById (guest_id g) xs))
                 \<le> length (removeById (guest_id g) xs)" by (rule removeChunk_length_le)
  ultimately show ?thesis by (simp add: removeChunk_def c)
qed

lemma fold_chunkStep_set:
  "set (fst (fold (chunkStep m) gs acc)) \<subseteq> set (fst acc) \<union> set gs"
proof (induction gs arbitrary: acc)
  case Nil
  then show ?case by simp
next
  case (Cons g gs)
  have "set (fst (chunkStep m g acc)) \<subseteq> set (fst acc) \<union> {g}"
    by (cases acc) (auto simp: chunkStep_def)
  with Cons.IH [of "chunkStep m g acc"] show ?case by auto
qed

lemma greedyChunk_set: "set (greedyChunk m gs) \<subseteq> set gs"
proof -
  have "set (fst (fold (chunkStep m) gs ([], 0))) \<subseteq> set gs"
    using fold_chunkStep_set [of m gs "([], 0)"] by simp
  then show ?thesis by (cases gs) (auto simp: greedyChunk_def Let_def)
qed

lemma knightStep_shorter:
  assumes "knightStep cnt grp (gs, tabs, pool) = Continue (gs', tabs', pool')"
  shows "length gs' < length gs"
proof -
  from assms obtain m where "gs' = removeChunk (greedyChunk m gs) gs" "greedyChunk m gs \<noteq> []"
    by (auto simp: knightStep_def Let_def split: prod.splits option.splits if_splits)
  then show ?thesis using removeChunk_length_less [OF _ greedyChunk_set] by simp
qed

text \<open>The loop \<open>while (guestsToSeat.length > 0)\<close> for one knight candidate.\<close>

function knightWhile :: "int \<Rightarrow> ProcessedGroup \<Rightarrow> KnightState
    \<Rightarrow> TableAssignments \<times> ProcessedGroup list" where
  "knightWhile cnt grp (guestsToSeat, tabs, processedGroups) =
     (if guestsToSeat = [] then (tabs, processedGroups)
      else (case knightStep cnt grp (guestsToSeat, tabs, processedGroups) of
              Continue s \<Rightarrow> knightWhile cnt grp s
            | Break s \<Rightarrow> snd s))"
  by pat_completeness auto
termination
proof (relation "measure (\<lambda>(cnt, grp, gs, tabs, pool). length gs)")
  show "wf (measure (\<lambda>(cnt, grp, gs, tabs, pool). length gs))" by simp
next
  fix cnt grp guestsToSeat tabs processedGroups s
  assume "knightStep cnt grp (guestsToSeat, tabs, processedGroups) = Continue s"
  then show "((cnt, grp, s), cnt, grp, guestsToSeat, tabs, processedGroups)
             \<in> measure (\<lambda>(cnt, grp, gs, tabs, pool). length gs)"
    using knightStep_shorter [of cnt grp guestsToSeat tabs processedGroups]
    by (cases s) auto
qed

declare knightWhile.simps [simp del]

text \<open>Candidate selection and the loop over the candidates. Auto mode is entered when no
  group carries the \<open>isRequestedForKnight\<close> flag.\<close>

definition knightCandidatesOf :: "ProcessedGroup list \<Rightarrow> ProcessedGroup list" where
  "knightCandidatesOf processedGroups =
     (let knightCandidates = filter isRequestedForKnight processedGroups in
      if length knightCandidates = 0
      then filter (\<lambda>g. dominantCategory g = friend) processedGroups
      else knightCandidates)"

definition standardPoolOf :: "ProcessedGroup list \<Rightarrow> ProcessedGroup list" where
  "standardPoolOf processedGroups =
     (let knightCandidates = filter isRequestedForKnight processedGroups in
      if length knightCandidates = 0
      then filter (\<lambda>g. dominantCategory g \<noteq> friend) processedGroups
      else filter (\<lambda>g. \<not> isRequestedForKnight g) processedGroups)"

text \<open>The body of \<open>for (const group of knightCandidates)\<close>.\<close>

definition knightSeatGroup :: "int \<Rightarrow> ProcessedGroup \<Rightarrow> TableAssignments \<times> ProcessedGroup list
    \<Rightarrow> TableAssignments \<times> ProcessedGroup list" where
  "knightSeatGroup cnt grp st = knightWhile cnt grp (guests grp, fst st, snd st)"

definition knightPhase :: "KnightConfig \<Rightarrow> ProcessedGroup list
    \<Rightarrow> (TableAssignments \<times> nat) \<times> ProcessedGroup list" where
  "knightPhase kc processedGroups =
     (if knight_enabled kc \<and> knight_count kc > 0 then
        (case createKnightTables kc of (tabs0, tableCounter) \<Rightarrow>
           (let knightCandidates = sortDescBy group_size (knightCandidatesOf processedGroups);
                st = fold (knightSeatGroup (knight_count kc)) knightCandidates
                          (tabs0, standardPoolOf processedGroups)
            in ((fst st, tableCounter), snd st)))
      else (([], 0), processedGroups))"

section \<open>Standard tables\<close>

definition newStandardTable :: "ProcessedGroup \<Rightarrow> int \<Rightarrow> TableData" where
  "newStandardTable grp cap =
     \<lparr> table_guests = [], table_side = Some (dominantSide grp),
       table_category = Some (dominantCategory grp), table_capacity = cap,
       table_isKnight = False \<rparr>"

text \<open>\<open>Object.keys(tableAssignments).filter(id => !tableAssignments[id].isKnight)\<close>\<close>

definition currentStandardTableIds :: "TableAssignments \<Rightarrow> TableId list" where
  "currentStandardTableIds tabs = map fst (filter (\<lambda>p. \<not> table_isKnight (snd p)) tabs)"

definition isSideMatch :: "ProcessedGroup \<Rightarrow> TableData \<Rightarrow> bool" where
  "isSideMatch grp t =
     (table_side t = Some (dominantSide grp) \<or> table_side t = Some both \<or> table_guests t = [])"

text \<open>Whole-group best fit: the compatible table with the smallest space that still holds
  the whole remaining group; \<open>minRemainingSpace\<close> starts at \<open>Infinity\<close> (\<open>None\<close>), and only a
  strictly smaller space replaces the current choice.\<close>

definition bestFitStep :: "ProcessedGroup \<Rightarrow> int \<Rightarrow> TableAssignments \<Rightarrow> TableId
    \<Rightarrow> TableId option \<times> int option \<Rightarrow> TableId option \<times> int option" where
  "bestFitStep grp groupSize tabs tableId acc =
     (case acc of (bestFitTableId, minRemainingSpace) \<Rightarrow>
        (case map_of tabs tableId of
           None \<Rightarrow> acc
         | Some t \<Rightarrow>
             if spaceOf t \<ge> groupSize \<and> isSideMatch grp t
                \<and> (case minRemainingSpace of None \<Rightarrow> True | Some m \<Rightarrow> spaceOf t < m)
             then (Some tableId, Some (spaceOf t)) else acc))"

definition findBestFit :: "ProcessedGroup \<Rightarrow> int \<Rightarrow> TableAssignments \<Rightarrow> TableId option" where
  "findBestFit grp groupSize tabs =
     fst (fold (bestFitStep grp groupSize tabs) (currentStandardTableIds tabs) (None, None))"

text \<open>Split target among the existing tables: the standard tables sorted by occupancy,
  fullest first, and the first of them with space and a matching side.\<close>

definition findPartialTable :: "ProcessedGroup \<Rightarrow> TableAssignments \<Rightarrow> (TableId \<times> int) option" where
  "findPartialTable grp tabs =
     (let sortedCandidateTables =
            sortDescBy (\<lambda>p. getGuestsSize (table_guests (snd p)))
                       (filter (\<lambda>p. \<not> table_isKnight (snd p)) tabs)
      in case find (\<lambda>p. spaceOf (snd p) > 0 \<and> isSideMatch grp (snd p)) sortedCandidateTables of
           None \<Rightarrow> None
         | Some p \<Rightarrow> Some (fst p, spaceOf (snd p)))"

text \<open>The fill of a brand-new table. A guest is taken when it fits the standard capacity,
  or when nothing has been taken yet and it is larger than the standard capacity; in the
  second case the capacity of the new table becomes that guest's amount. The accumulator is
  \<open>(chunk, chunkSpace, table.capacity)\<close>. The safety check after the loop force-picks the
  first guest when the chunk is still empty.\<close>

definition newChunkStep :: "int \<Rightarrow> Guest \<Rightarrow> Guest list \<times> int \<times> int \<Rightarrow> Guest list \<times> int \<times> int" where
  "newChunkStep cap g acc =
     (case acc of (chunk, chunkSpace, capacity) \<Rightarrow>
        if chunkSpace + amountOf g \<le> cap \<or> (chunk = [] \<and> amountOf g > cap)
        then (chunk @ [g], chunkSpace + amountOf g,
              if chunk = [] \<and> amountOf g > cap then amountOf g else capacity)
        else acc)"

definition fillNewTable :: "int \<Rightarrow> Guest list \<Rightarrow> Guest list \<times> int" where
  "fillNewTable cap guestsToSeat =
     (case fold (newChunkStep cap) guestsToSeat ([], 0, cap) of (chunk, chunkSpace, capacity) \<Rightarrow>
        if chunk = [] \<and> guestsToSeat \<noteq> []
        then ([hd guestsToSeat], max capacity (amountOf (hd guestsToSeat)))
        else (chunk, capacity))"

text \<open>The state of the loop of one group: \<open>(guestsToSeat, groupSize, tableAssignments,
  tableCounter)\<close>.\<close>

type_synonym StandardState = "Guest list \<times> int \<times> TableAssignments \<times> nat"

text \<open>Opening a table stores the empty table under \<open>`table-${tableCounter++}`\<close> and pushes the
  guests onto it at once; the model stores the filled table.\<close>

definition openTable :: "ProcessedGroup \<Rightarrow> int \<Rightarrow> Guest list \<Rightarrow> nat \<Rightarrow> TableAssignments
    \<Rightarrow> TableAssignments" where
  "openTable grp cap chunk tableCounter tabs =
     setProp tableCounter ((newStandardTable grp cap)\<lparr>table_guests := chunk\<rparr>) tabs"

definition splitNewTable :: "int \<Rightarrow> ProcessedGroup \<Rightarrow> StandardState \<Rightarrow> StandardState Step" where
  "splitNewTable cap grp s =
     (case s of (guestsToSeat, groupSize, tabs, tableCounter) \<Rightarrow>
        (case fillNewTable cap guestsToSeat of (chunk, capacity) \<Rightarrow>
           if chunk \<noteq> []
           then Continue (removeChunk chunk guestsToSeat,
                          getGuestsSize (removeChunk chunk guestsToSeat),
                          openTable grp capacity chunk tableCounter tabs, Suc tableCounter)
           else Break (guestsToSeat, groupSize,
                       openTable grp capacity [] tableCounter tabs, Suc tableCounter)))"

definition standardStep :: "int \<Rightarrow> ProcessedGroup \<Rightarrow> StandardState \<Rightarrow> StandardState Step" where
  "standardStep cap grp s =
     (case s of (guestsToSeat, groupSize, tabs, tableCounter) \<Rightarrow>
        (case findBestFit grp groupSize tabs of
           Some bestFitTableId \<Rightarrow>
             Continue ([], groupSize,
                       modifyTable bestFitTableId (seatLabelled grp guestsToSeat) tabs,
                       tableCounter)
         | None \<Rightarrow>
             if groupSize \<le> cap
             then Continue ([], groupSize, openTable grp cap guestsToSeat tableCounter tabs,
                            Suc tableCounter)
             else (case findPartialTable grp tabs of
                     Some (bestPartialTableId, maxPartialSpace) \<Rightarrow>
                       (let chunk = greedyChunk maxPartialSpace guestsToSeat in
                        if chunk \<noteq> []
                        then Continue (removeChunk chunk guestsToSeat,
                                       getGuestsSize (removeChunk chunk guestsToSeat),
                                       modifyTable bestPartialTableId (pushGuests chunk) tabs,
                                       tableCounter)
                        else splitNewTable cap grp s)
                   | None \<Rightarrow> splitNewTable cap grp s)))"

lemma fold_newChunkStep_set:
  "set (fst (fold (newChunkStep cap) gs acc)) \<subseteq> set (fst acc) \<union> set gs"
proof (induction gs arbitrary: acc)
  case Nil
  then show ?case by simp
next
  case (Cons g gs)
  have "set (fst (newChunkStep cap g acc)) \<subseteq> set (fst acc) \<union> {g}"
    by (cases acc) (auto simp: newChunkStep_def)
  with Cons.IH [of "newChunkStep cap g acc"] show ?case by auto
qed

lemma fillNewTable_set: "set (fst (fillNewTable cap gs)) \<subseteq> set gs"
proof -
  have "set (fst (fold (newChunkStep cap) gs ([], 0, cap))) \<subseteq> set gs"
    using fold_newChunkStep_set [of cap gs "([], 0, cap)"] by simp
  then show ?thesis by (cases gs) (auto simp: fillNewTable_def split: prod.splits)
qed

lemma splitNewTable_shorter:
  assumes "splitNewTable cap grp (gs, n, tabs, tc) = Continue (gs', n', tabs', tc')"
  shows "length gs' < length gs"
proof -
  from assms have "gs' = removeChunk (fst (fillNewTable cap gs)) gs" "fst (fillNewTable cap gs) \<noteq> []"
    by (auto simp: splitNewTable_def split: prod.splits if_splits)
  then show ?thesis using removeChunk_length_less [OF _ fillNewTable_set] by simp
qed

lemma standardStep_shorter:
  assumes "standardStep cap grp (gs, n, tabs, tc) = Continue (gs', n', tabs', tc')" and "gs \<noteq> []"
  shows "length gs' < length gs"
proof -
  consider (whole) "gs' = []"
    | (part) m where "gs' = removeChunk (greedyChunk m gs) gs" "greedyChunk m gs \<noteq> []"
    | (new) "splitNewTable cap grp (gs, n, tabs, tc) = Continue (gs', n', tabs', tc')"
    using assms(1)
    by (auto simp: standardStep_def Let_def split: prod.splits option.splits if_splits)
  then show ?thesis
  proof cases
    case whole
    then show ?thesis using assms(2) by simp
  next
    case part
    then show ?thesis using removeChunk_length_less [OF _ greedyChunk_set] by simp
  next
    case new
    then show ?thesis by (rule splitNewTable_shorter)
  qed
qed

function standardWhile :: "int \<Rightarrow> ProcessedGroup \<Rightarrow> StandardState \<Rightarrow> TableAssignments \<times> nat" where
  "standardWhile cap grp (guestsToSeat, groupSize, tabs, tableCounter) =
     (if guestsToSeat = [] then (tabs, tableCounter)
      else (case standardStep cap grp (guestsToSeat, groupSize, tabs, tableCounter) of
              Continue s \<Rightarrow> standardWhile cap grp s
            | Break s \<Rightarrow> snd (snd s)))"
  by pat_completeness auto
termination
proof (relation "measure (\<lambda>(cap, grp, gs, n, tabs, tc). length gs)")
  show "wf (measure (\<lambda>(cap, grp, gs, n, tabs, tc). length gs))" by simp
next
  fix cap grp guestsToSeat groupSize tabs tableCounter s
  assume "guestsToSeat \<noteq> []"
    and "standardStep cap grp (guestsToSeat, groupSize, tabs, tableCounter) = Continue s"
  then show "((cap, grp, s), cap, grp, guestsToSeat, groupSize, tabs, tableCounter)
             \<in> measure (\<lambda>(cap, grp, gs, n, tabs, tc). length gs)"
    using standardStep_shorter [of cap grp guestsToSeat groupSize tabs tableCounter]
    by (cases s) auto
qed

declare standardWhile.simps [simp del]

text \<open>The body of \<open>for (const group of processedGroups)\<close>.\<close>

definition standardSeatGroup :: "int \<Rightarrow> ProcessedGroup \<Rightarrow> TableAssignments \<times> nat
    \<Rightarrow> TableAssignments \<times> nat" where
  "standardSeatGroup cap grp st =
     standardWhile cap grp (guests grp, getGuestsSize (guests grp), fst st, snd st)"

definition standardPhase :: "int \<Rightarrow> ProcessedGroup list \<Rightarrow> TableAssignments \<times> nat
    \<Rightarrow> TableAssignments \<times> nat" where
  "standardPhase cap processedGroups st =
     fold (standardSeatGroup cap) (sortDescBy group_size processedGroups) st"

section \<open>Phase C: merging sparse tables\<close>

text \<open>Occupancy of the table stored under an id, as the comparator of
  \<open>standardTableIds.sort\<close> reads it.\<close>

definition occupancyAt :: "TableAssignments \<Rightarrow> TableId \<Rightarrow> int" where
  "occupancyAt tabs tid =
     (case map_of tabs tid of None \<Rightarrow> 0 | Some t \<Rightarrow> getGuestsSize (table_guests t))"

definition standardTableIds :: "TableAssignments \<Rightarrow> TableId list" where
  "standardTableIds tabs = sortAscBy (occupancyAt tabs) (currentStandardTableIds tabs)"

text \<open>\<open>tableA.guests = [...tableA.guests, ...tableB.guests]; tableA.side = 'both'\<close>\<close>

definition mergeInto :: "TableData \<Rightarrow> TableData \<Rightarrow> TableData" where
  "mergeInto tableB tableA =
     tableA\<lparr>table_guests := table_guests tableA @ table_guests tableB, table_side := Some both\<rparr>"

text \<open>The inner loop over the later ids \<open>j > i\<close>: the first table not yet merged away that
  fits together with \<open>A\<close> is merged into \<open>A\<close> and deleted; then the loop stops. The state is
  \<open>(tableAssignments, mergedTableIds)\<close>.\<close>

fun findPartner :: "TableId \<Rightarrow> TableData \<Rightarrow> int \<Rightarrow> TableId list
    \<Rightarrow> TableAssignments \<times> TableId list \<Rightarrow> TableAssignments \<times> TableId list" where
  "findPartner idA tableA sizeA [] st = st"
| "findPartner idA tableA sizeA (idB # rest) st =
     (if idB \<in> set (snd st) then findPartner idA tableA sizeA rest st
      else (case map_of (fst st) idB of
              None \<Rightarrow> findPartner idA tableA sizeA rest st
            | Some tableB \<Rightarrow>
                if sizeA + getGuestsSize (table_guests tableB) \<le> table_capacity tableA
                then (deleteProp idB (modifyTable idA (mergeInto tableB) (fst st)), idB # snd st)
                else findPartner idA tableA sizeA rest st))"

text \<open>The outer loop over the sorted ids: merged and full tables are skipped.\<close>

fun mergeLoop :: "TableId list \<Rightarrow> TableAssignments \<times> TableId list
    \<Rightarrow> TableAssignments \<times> TableId list" where
  "mergeLoop [] st = st"
| "mergeLoop (idA # rest) st =
     (if idA \<in> set (snd st) then mergeLoop rest st
      else (case map_of (fst st) idA of
              None \<Rightarrow> mergeLoop rest st
            | Some tableA \<Rightarrow>
                (let sizeA = getGuestsSize (table_guests tableA) in
                 if sizeA \<ge> table_capacity tableA then mergeLoop rest st
                 else mergeLoop rest (findPartner idA tableA sizeA rest st))))"

definition mergeSparseTables :: "TableAssignments \<Rightarrow> TableAssignments" where
  "mergeSparseTables tabs = fst (mergeLoop (standardTableIds tabs) (tabs, []))"

section \<open>The optimizer\<close>

definition tableCapacityOf :: "OptimizationConfig \<Rightarrow> int" where
  "tableCapacityOf config = (case tableCapacity config of None \<Rightarrow> 12 | Some c \<Rightarrow> c)"

definition knightConfigOf :: "OptimizationConfig \<Rightarrow> KnightConfig" where
  "knightConfigOf config =
     (case knightConfig config of
        None \<Rightarrow> \<lparr> knight_enabled = False, knight_count = 0, knight_capacity = 20 \<rparr>
      | Some kc \<Rightarrow> kc)"

definition processedGroupsOf :: "Guest list \<Rightarrow> OptimizationConfig \<Rightarrow> ProcessedGroup list" where
  "processedGroupsOf gs config =
     map (classify (knightTargetGroups config)) (groupGuestsByRelationship gs)"

definition afterKnight :: "Guest list \<Rightarrow> OptimizationConfig
    \<Rightarrow> (TableAssignments \<times> nat) \<times> ProcessedGroup list" where
  "afterKnight gs config = knightPhase (knightConfigOf config) (processedGroupsOf gs config)"

definition afterStandard :: "Guest list \<Rightarrow> OptimizationConfig \<Rightarrow> TableAssignments" where
  "afterStandard gs config =
     fst (standardPhase (tableCapacityOf config) (snd (afterKnight gs config))
                        (fst (afterKnight gs config)))"

definition afterMerge :: "Guest list \<Rightarrow> OptimizationConfig \<Rightarrow> TableAssignments" where
  "afterMerge gs config = mergeSparseTables (afterStandard gs config)"

text \<open>The final mapping is rebuilt from the final tables:
  \<open>table.guests.forEach(g => { finalAssignment[g.id] = id })\<close> for every entry.
  \<open>finalAssignment\<close> is a plain object. An assignment under the key \<open>__proto__\<close> reaches the
  setter that \<open>Object.prototype\<close> defines for that key, and the setter ignores a string: no
  entry is stored. Under every other key the assignment creates or overwrites an own
  property. The map of the model is the own properties of the object.\<close>

definition assignTable :: "TableId \<times> TableData \<Rightarrow> (string \<rightharpoonup> TableId) \<Rightarrow> (string \<rightharpoonup> TableId)" where
  "assignTable p m =
     fold (\<lambda>g m'. if guest_id g = ''__proto__'' then m' else m'(guest_id g \<mapsto> fst p))
          (table_guests (snd p)) m"

definition finalAssignment :: "TableAssignments \<Rightarrow> (string \<rightharpoonup> TableId)" where
  "finalAssignment tabs = fold assignTable tabs Map.empty"

definition toOptimizedTable :: "TableId \<times> TableData \<Rightarrow> OptimizedTable" where
  "toOptimizedTable p =
     \<lparr> table_guests = table_guests (snd p), table_side = table_side (snd p),
       table_category = table_category (snd p), table_capacity = table_capacity (snd p),
       table_isKnight = table_isKnight (snd p), table_id = fst p \<rparr>"

text \<open>\<open>optimizeSeating(guests, _tables, config)\<close>; the parameter \<open>_tables\<close> is never read. The
  asynchronous function never awaits, so the value of its promise is modelled.\<close>

definition optimizeSeating :: "Guest list \<Rightarrow> OptimizationConfig \<Rightarrow> OptimizationResult" where
  "optimizeSeating gs config =
     \<lparr> assignments = finalAssignment (afterMerge gs config),
       tables = map toOptimizedTable (afterMerge gs config) \<rparr>"

section \<open>Notions used to state the properties\<close>

text \<open>The weighted tally of a side or category over the members of a group, and the position
  of a candidate in the fixed declaration order.\<close>

definition sideTally :: "Guest list \<Rightarrow> GuestSide \<Rightarrow> int" where
  "sideTally list s = sum_list (map amountOf (filter (\<lambda>g. guest_side g = s) list))"

definition categoryTally :: "Guest list \<Rightarrow> GuestCategory \<Rightarrow> int" where
  "categoryTally list c = sum_list (map amountOf (filter (\<lambda>g. guest_category g = c) list))"

fun sideRank :: "GuestSide \<Rightarrow> nat" where
  "sideRank groom = 0" | "sideRank bride = 1" | "sideRank both = 2"

fun categoryRank :: "GuestCategory \<Rightarrow> nat" where
  "categoryRank family = 0" | "categoryRank friend = 1" | "categoryRank colleague = 2" | "categoryRank other = 3"

text \<open>Concrete guests and configurations for the examples.\<close>

definition mkGuest :: "string \<Rightarrow> GuestCategory \<Rightarrow> GuestSide \<Rightarrow> string option \<Rightarrow> int option
    \<Rightarrow> Guest" where
  "mkGuest i c s g a =
     \<lparr> guest_id = i, guest_name = i, guest_category = c, guest_side = s, guest_groupId = g,
       guest_tableId = None, guest_age = None, guest_phoneNumber = None, guest_notes = None,
       guest_amount = a, guest_conflictsWith = [] \<rparr>"

definition mkConfig :: "int \<Rightarrow> KnightConfig option \<Rightarrow> string list option \<Rightarrow> OptimizationConfig" where
  "mkConfig cap kc names = \<lparr> tableCapacity = Some cap, knightConfig = kc, knightGroupNames = names \<rparr>"

definition mkKnights :: "int \<Rightarrow> int \<Rightarrow> KnightConfig" where
  "mkKnights n cap = \<lparr> knight_enabled = True, knight_count = n, knight_capacity = cap \<rparr>"

definition tiedGroup :: GuestGroup where
  "tiedGroup = mkGroup (''G'', [mkGuest ''a'' family groom (Some ''G'') (Some 1),
                                mkGuest ''b'' friend bride (Some ''G'') (Some 1)])"

section \<open>Classifier: the dominant side and category\<close>

lemma sideCounts_fold:
  "fold (\<lambda>g counts. map (\<lambda>(k, n). if k = guest_side g then (k, n + amountOf g) else (k, n)) counts)
        list [(groom, a), (bride, b), (both, c)]
   = [(groom, a + sideTally list groom), (bride, b + sideTally list bride),
      (both, c + sideTally list both)]"
  by (induction list arbitrary: a b c) (auto simp: sideTally_def)

lemma sideCounts_tally:
  "sideCounts list = [(groom, sideTally list groom), (bride, sideTally list bride),
                      (both, sideTally list both)]"
  using sideCounts_fold [of list 0 0 0] by (simp add: sideCounts_def)

lemma categoryCounts_fold:
  "fold (\<lambda>g counts. map (\<lambda>(k, n). if k = guest_category g then (k, n + amountOf g) else (k, n)) counts)
        list [(family, a), (friend, b), (colleague, c), (other, d)]
   = [(family, a + categoryTally list family), (friend, b + categoryTally list friend),
      (colleague, c + categoryTally list colleague), (other, d + categoryTally list other)]"
  by (induction list arbitrary: a b c d) (auto simp: categoryTally_def)

lemma categoryCounts_tally:
  "categoryCounts list = [(family, categoryTally list family), (friend, categoryTally list friend),
      (colleague, categoryTally list colleague), (other, categoryTally list other)]"
  using categoryCounts_fold [of list 0 0 0 0] by (simp add: categoryCounts_def)

lemma dominantSideOf_max: "sideTally list s \<le> sideTally list (dominantSideOf list)"
  by (cases s) (auto simp: dominantSideOf_def reduceMax_def sideCounts_tally pickLarger_def)

lemma dominantSideOf_latest:
  "sideTally list s = sideTally list (dominantSideOf list) \<Longrightarrow> sideRank s \<le> sideRank (dominantSideOf list)"
  by (cases s) (auto simp: dominantSideOf_def reduceMax_def sideCounts_tally pickLarger_def split: if_splits)

lemma dominantCategoryOf_max: "categoryTally list c \<le> categoryTally list (dominantCategoryOf list)"
  by (cases c) (auto simp: dominantCategoryOf_def reduceMax_def categoryCounts_tally pickLarger_def)

lemma dominantCategoryOf_latest:
  "categoryTally list c = categoryTally list (dominantCategoryOf list) \<Longrightarrow> categoryRank c \<le> categoryRank (dominantCategoryOf list)"
  by (cases c) (auto simp: dominantCategoryOf_def reduceMax_def categoryCounts_tally pickLarger_def split: if_splits)

text \<open>C4, counterexample. A group of one groom-side family guest and one bride-side friend
  guest, one seat each: groom and bride tie, family and friend tie, and the classifier
  returns the later-declared candidates \<open>bride\<close> and \<open>friend\<close>, not the earlier-declared
  ones.\<close>

theorem classifier_tie_counterexample:
  "sideCounts (guests tiedGroup) = [(groom, 1), (bride, 1), (both, 0)]
   \<and> categoryCounts (guests tiedGroup) = [(family, 1), (friend, 1), (colleague, 0), (other, 0)]
   \<and> dominantSide (classify [] tiedGroup) = bride
   \<and> dominantCategory (classify [] tiedGroup) = friend"
  by (simp add: tiedGroup_def mkGroup_def mkGuest_def classify_def sideCounts_def
      categoryCounts_def dominantSideOf_def dominantCategoryOf_def reduceMax_def
      pickLarger_def amountOf_def)

text \<open>C4, as amended. For every group the classifier's \<open>dominantSide\<close> and
  \<open>dominantCategory\<close> are maxima of the weighted tallies, and a candidate with the same
  tally as the result is never declared after it: on an exact tie the later-declared
  candidate wins, because a later candidate replaces the current leader unless the
  leader's tally is strictly greater.\<close>

theorem classifier_tie_prefers_later:
  "(\<forall>s. sideTally (guests grp) s \<le> sideTally (guests grp) (dominantSide (classify targets grp)))
   \<and> (\<forall>s. sideTally (guests grp) s = sideTally (guests grp) (dominantSide (classify targets grp))
          \<longrightarrow> sideRank s \<le> sideRank (dominantSide (classify targets grp)))
   \<and> (\<forall>c. categoryTally (guests grp) c
          \<le> categoryTally (guests grp) (dominantCategory (classify targets grp)))
   \<and> (\<forall>c. categoryTally (guests grp) c
            = categoryTally (guests grp) (dominantCategory (classify targets grp))
          \<longrightarrow> categoryRank c \<le> categoryRank (dominantCategory (classify targets grp)))"
  by (simp add: classify_def dominantSideOf_max dominantSideOf_latest dominantCategoryOf_max
      dominantCategoryOf_latest)

theorem classifier_tie_prefers_later_witness:
  "sideTally (guests tiedGroup) groom
     = sideTally (guests tiedGroup) (dominantSide (classify [] tiedGroup))
   \<and> sideRank groom \<le> sideRank (dominantSide (classify [] tiedGroup))
   \<and> categoryTally (guests tiedGroup) family
     = categoryTally (guests tiedGroup) (dominantCategory (classify [] tiedGroup))
   \<and> categoryRank family \<le> categoryRank (dominantCategory (classify [] tiedGroup))"
proof -
  have side: "sideTally (guests tiedGroup) groom
              = sideTally (guests tiedGroup) (dominantSide (classify [] tiedGroup))"
    by (simp add: tiedGroup_def mkGroup_def mkGuest_def classify_def sideCounts_def
        dominantSideOf_def reduceMax_def pickLarger_def amountOf_def sideTally_def)
  have cat: "categoryTally (guests tiedGroup) family
             = categoryTally (guests tiedGroup) (dominantCategory (classify [] tiedGroup))"
    by (simp add: tiedGroup_def mkGroup_def mkGuest_def classify_def categoryCounts_def
        dominantCategoryOf_def reduceMax_def pickLarger_def amountOf_def categoryTally_def)
  from side cat classifier_tie_prefers_later [of tiedGroup "[]"] show ?thesis by blast
qed

section \<open>Knight candidates: strict and auto mode\<close>

definition friendsGuests :: "Guest list" where
  "friendsGuests = [mkGuest ''a'' friend groom (Some ''G'') (Some 1),
                    mkGuest ''b'' friend groom (Some ''G'') (Some 1)]"

definition strictMissConfig :: OptimizationConfig where
  "strictMissConfig = mkConfig 12 (Some (mkKnights 1 4)) (Some [''zzz''])"

text \<open>C3, the code at a failing input. The caller supplies the knight group name \<open>zzz\<close>,
  which matches no group; the only group \<open>G\<close> is friend-dominant and not flagged. Although a
  name was supplied the run is in auto mode: \<open>G\<close> is the knight candidate, the standard pool
  is empty, and both guests end at the knight table. The source decides the mode by
  \<open>knightCandidates.length === 0\<close> after filtering by the flag, where its own comments name
  the two modes \<open>STRICT MODE: Only user-selected groups\<close> and \<open>Auto Mode (User left
  empty)\<close>.\<close>

theorem auto_mode_entered_with_names_supplied:
  "knightGroupNames strictMissConfig = Some [''zzz'']
   \<and> map groupId (processedGroupsOf friendsGuests strictMissConfig) = [''G'']
   \<and> map isRequestedForKnight (processedGroupsOf friendsGuests strictMissConfig) = [False]
   \<and> knightCandidatesOf (processedGroupsOf friendsGuests strictMissConfig)
       = processedGroupsOf friendsGuests strictMissConfig
   \<and> standardPoolOf (processedGroupsOf friendsGuests strictMissConfig) = []
   \<and> map (\<lambda>t. (table_isKnight t, map guest_id (table_guests t)))
          (tables (optimizeSeating friendsGuests strictMissConfig)) = [(True, [''a'', ''b''])]"
  by code_simp

lemma classify_flag:
  "isRequestedForKnight (classify targets grp) = (normalize (groupId grp) \<in> set targets)"
  by (simp add: classify_def)

lemma classify_groupId: "groupId (classify targets grp) = groupId grp"
  by (simp add: classify_def)

lemma processed_flag:
  "g \<in> set (processedGroupsOf gs config)
   \<Longrightarrow> isRequestedForKnight g = (normalize (groupId g) \<in> set (knightTargetGroups config))"
  by (auto simp: processedGroupsOf_def classify_flag classify_groupId)

lemma candidates_strict:
  assumes "\<exists>g\<in>set pgs. isRequestedForKnight g"
  shows "knightCandidatesOf pgs = filter isRequestedForKnight pgs"
    and "standardPoolOf pgs = filter (\<lambda>g. \<not> isRequestedForKnight g) pgs"
proof -
  from assms have "length (filter isRequestedForKnight pgs) \<noteq> 0"
    by (simp add: filter_empty_conv)
  then show "knightCandidatesOf pgs = filter isRequestedForKnight pgs"
    and "standardPoolOf pgs = filter (\<lambda>g. \<not> isRequestedForKnight g) pgs"
    by (simp_all add: knightCandidatesOf_def standardPoolOf_def Let_def)
qed

lemma candidates_auto:
  assumes "\<not> (\<exists>g\<in>set pgs. isRequestedForKnight g)"
  shows "knightCandidatesOf pgs = filter (\<lambda>g. dominantCategory g = friend) pgs"
    and "standardPoolOf pgs = filter (\<lambda>g. dominantCategory g \<noteq> friend) pgs"
proof -
  from assms have "length (filter isRequestedForKnight pgs) = 0"
    by (simp add: filter_empty_conv)
  then show "knightCandidatesOf pgs = filter (\<lambda>g. dominantCategory g = friend) pgs"
    and "standardPoolOf pgs = filter (\<lambda>g. dominantCategory g \<noteq> friend) pgs"
    by (simp_all add: knightCandidatesOf_def standardPoolOf_def Let_def)
qed

text \<open>What the test of the source amounts to. The branch taken depends on whether at least
  one group carries the \<open>isRequestedForKnight\<close> flag, that is, whether some supplied name
  matches a group after trimming and case folding. If some group is flagged, the candidates
  are exactly the flagged groups and every other group, friend-dominant ones included, goes
  untouched to the standard pool. If no group is flagged, the candidates are all groups with
  \<open>dominantCategory = friend\<close> and the others form the standard pool; this is so when no
  names were supplied, where it is the documented auto mode, and also when none of the
  supplied names matches, where the documented strict mode would take no candidate.\<close>

lemma knight_mode_by_matching_groups:
  "(\<forall>g\<in>set (processedGroupsOf gs config).
       isRequestedForKnight g = (normalize (groupId g) \<in> set (knightTargetGroups config)))
   \<and> ((\<exists>g\<in>set (processedGroupsOf gs config). isRequestedForKnight g)
        \<longrightarrow> knightCandidatesOf (processedGroupsOf gs config)
              = filter isRequestedForKnight (processedGroupsOf gs config)
          \<and> standardPoolOf (processedGroupsOf gs config)
              = filter (\<lambda>g. \<not> isRequestedForKnight g) (processedGroupsOf gs config))
   \<and> (\<not> (\<exists>g\<in>set (processedGroupsOf gs config). isRequestedForKnight g)
        \<longrightarrow> knightCandidatesOf (processedGroupsOf gs config)
              = filter (\<lambda>g. dominantCategory g = friend) (processedGroupsOf gs config)
          \<and> standardPoolOf (processedGroupsOf gs config)
              = filter (\<lambda>g. dominantCategory g \<noteq> friend) (processedGroupsOf gs config))
   \<and> (knightGroupNames config = None \<or> knightGroupNames config = Some []
        \<longrightarrow> \<not> (\<exists>g\<in>set (processedGroupsOf gs config). isRequestedForKnight g))"
proof (intro conjI impI)
  show "\<forall>g\<in>set (processedGroupsOf gs config).
          isRequestedForKnight g = (normalize (groupId g) \<in> set (knightTargetGroups config))"
    by (simp add: processed_flag)
next
  assume "\<exists>g\<in>set (processedGroupsOf gs config). isRequestedForKnight g"
  then show "knightCandidatesOf (processedGroupsOf gs config)
             = filter isRequestedForKnight (processedGroupsOf gs config)"
    and "standardPoolOf (processedGroupsOf gs config)
         = filter (\<lambda>g. \<not> isRequestedForKnight g) (processedGroupsOf gs config)"
    by (simp_all add: candidates_strict)
next
  assume "\<not> (\<exists>g\<in>set (processedGroupsOf gs config). isRequestedForKnight g)"
  then show "knightCandidatesOf (processedGroupsOf gs config)
             = filter (\<lambda>g. dominantCategory g = friend) (processedGroupsOf gs config)"
    and "standardPoolOf (processedGroupsOf gs config)
         = filter (\<lambda>g. dominantCategory g \<noteq> friend) (processedGroupsOf gs config)"
    by (simp_all add: candidates_auto)
next
  assume "knightGroupNames config = None \<or> knightGroupNames config = Some []"
  then have "knightTargetGroups config = []"
    by (auto simp: knightTargetGroups_def)
  then show "\<not> (\<exists>g\<in>set (processedGroupsOf gs config). isRequestedForKnight g)"
    by (simp add: processed_flag)
qed


definition friendAndNamedGuests :: "Guest list" where
  "friendAndNamedGuests = [mkGuest ''a'' friend groom (Some ''G'') (Some 1),
                           mkGuest ''b'' family bride (Some ''Army '') (Some 1)]"

definition strictHitConfig :: OptimizationConfig where
  "strictHitConfig = mkConfig 12 (Some (mkKnights 1 4)) (Some ['' army''])"

lemma knight_mode_by_matching_groups_example:
  "(\<exists>g\<in>set (processedGroupsOf friendAndNamedGuests strictHitConfig). isRequestedForKnight g)
   \<and> map groupId (knightCandidatesOf (processedGroupsOf friendAndNamedGuests strictHitConfig))
       = [''Army'']
   \<and> map groupId (standardPoolOf (processedGroupsOf friendAndNamedGuests strictHitConfig))
       = [''G'']
   \<and> \<not> (\<exists>g\<in>set (processedGroupsOf friendsGuests strictMissConfig). isRequestedForKnight g)
   \<and> map groupId (knightCandidatesOf (processedGroupsOf friendsGuests strictMissConfig)) = [''G'']
   \<and> knightGroupNames (mkConfig 12 None None) = None
   \<and> \<not> (\<exists>g\<in>set (processedGroupsOf friendsGuests (mkConfig 12 None None)).
             isRequestedForKnight g)"
proof -
  have hit: "\<exists>g\<in>set (processedGroupsOf friendAndNamedGuests strictHitConfig). isRequestedForKnight g"
    by code_simp
  have miss: "\<not> (\<exists>g\<in>set (processedGroupsOf friendsGuests strictMissConfig). isRequestedForKnight g)"
    by code_simp
  have names: "knightGroupNames (mkConfig 12 None None) = None"
    by (simp add: mkConfig_def)
  have f1: "map groupId (filter isRequestedForKnight
              (processedGroupsOf friendAndNamedGuests strictHitConfig)) = [''Army'']"
    by code_simp
  have f2: "map groupId (filter (\<lambda>g. \<not> isRequestedForKnight g)
              (processedGroupsOf friendAndNamedGuests strictHitConfig)) = [''G'']"
    by code_simp
  have f3: "map groupId (filter (\<lambda>g. dominantCategory g = friend)
              (processedGroupsOf friendsGuests strictMissConfig)) = [''G'']"
    by code_simp
  have c1: "knightCandidatesOf (processedGroupsOf friendAndNamedGuests strictHitConfig)
            = filter isRequestedForKnight (processedGroupsOf friendAndNamedGuests strictHitConfig)"
    and c2: "standardPoolOf (processedGroupsOf friendAndNamedGuests strictHitConfig)
            = filter (\<lambda>g. \<not> isRequestedForKnight g)
                (processedGroupsOf friendAndNamedGuests strictHitConfig)"
    using knight_mode_by_matching_groups [of friendAndNamedGuests strictHitConfig] hit
    by blast+
  have c3: "knightCandidatesOf (processedGroupsOf friendsGuests strictMissConfig)
            = filter (\<lambda>g. dominantCategory g = friend)
                (processedGroupsOf friendsGuests strictMissConfig)"
    using knight_mode_by_matching_groups [of friendsGuests strictMissConfig] miss
    by blast
  have c4: "\<not> (\<exists>g\<in>set (processedGroupsOf friendsGuests (mkConfig 12 None None)).
                isRequestedForKnight g)"
    using knight_mode_by_matching_groups [of friendsGuests "mkConfig 12 None None"] names
    by blast
  show ?thesis
    using hit miss names c4 by (simp only: c1 c2 c3 f1 f2 f3 simp_thms)
qed

section \<open>The chunk taken when a group is split\<close>

text \<open>First-fit selection in member order: a member is taken when its amount fits the space
  that the members taken before it have left.\<close>

fun firstFit :: "int \<Rightarrow> Guest list \<Rightarrow> Guest list" where
  "firstFit space [] = []"
| "firstFit space (g # gs) =
     (if amountOf g \<le> space then g # firstFit (space - amountOf g) gs else firstFit space gs)"

lemma fold_amount: "fold (\<lambda>g sum. sum + amountOf g) list a = a + sum_list (map amountOf list)"
  by (induction list arbitrary: a) auto

lemma getGuestsSize_sum: "getGuestsSize list = sum_list (map amountOf list)"
  by (simp add: getGuestsSize_def fold_amount)

lemma getGuestsSize_simps [simp]:
  "getGuestsSize [] = 0"
  "getGuestsSize (g # gs) = amountOf g + getGuestsSize gs"
  "getGuestsSize (xs @ ys) = getGuestsSize xs + getGuestsSize ys"
  by (simp_all add: getGuestsSize_sum)

lemma fold_chunkStep:
  "fold (chunkStep m) gs (chunk, cs)
   = (chunk @ firstFit (m - cs) gs, cs + getGuestsSize (firstFit (m - cs) gs))"
proof (induction gs arbitrary: chunk cs)
  case Nil
  then show ?case by simp
next
  case (Cons g gs)
  show ?case
  proof (cases "cs + amountOf g \<le> m")
    case True
    then have le: "amountOf g \<le> m - cs" by simp
    have eq: "m - (cs + amountOf g) = m - cs - amountOf g" by simp
    show ?thesis using True le Cons.IH [of "chunk @ [g]" "cs + amountOf g"]
      by (simp add: chunkStep_def eq)
  next
    case False
    then have "\<not> amountOf g \<le> m - cs" by simp
    then show ?thesis using False Cons.IH [of chunk cs] by (simp add: chunkStep_def)
  qed
qed

lemma greedyChunk_firstFit: "greedyChunk m gs = firstFit m gs"
proof -
  have f: "fst (fold (chunkStep m) gs ([], 0)) = firstFit m gs"
    using fold_chunkStep [of m gs "[]" 0] by simp
  have "firstFit m gs = [] \<and> gs \<noteq> [] \<and> amountOf (hd gs) \<le> m \<Longrightarrow> False"
    by (cases gs) auto
  then show ?thesis unfolding greedyChunk_def Let_def f by auto
qed

lemma firstFit_subseq: "subseq (firstFit m gs) gs"
  by (induction gs arbitrary: m) auto

lemma firstFit_mset: "mset (firstFit m gs) \<subseteq># mset gs"
proof (induction gs arbitrary: m)
  case Nil
  then show ?case by simp
next
  case (Cons g gs)
  show ?case
  proof (cases "amountOf g \<le> m")
    case True
    then show ?thesis using Cons.IH [of "m - amountOf g"] by simp
  next
    case False
    have "mset (firstFit m gs) \<subseteq># mset gs" by (rule Cons.IH)
    also have "mset gs \<subseteq># mset (g # gs)" by simp
    finally show ?thesis using False by simp
  qed
qed

lemma firstFit_size: "firstFit m gs \<noteq> [] \<Longrightarrow> getGuestsSize (firstFit m gs) \<le> m"
proof (induction gs arbitrary: m)
  case Nil
  then show ?case by simp
next
  case (Cons g gs)
  show ?case
  proof (cases "amountOf g \<le> m")
    case True
    show ?thesis
    proof (cases "firstFit (m - amountOf g) gs = []")
      case True
      then show ?thesis using \<open>amountOf g \<le> m\<close> by simp
    next
      case False
      then have "getGuestsSize (firstFit (m - amountOf g) gs) \<le> m - amountOf g"
        by (rule Cons.IH)
      then show ?thesis using True by simp
    qed
  next
    case False
    then show ?thesis using Cons by simp
  qed
qed

lemma firstFit_size_nonneg: "0 \<le> m \<Longrightarrow> getGuestsSize (firstFit m gs) \<le> m"
  using firstFit_size [of m gs] by (cases "firstFit m gs = []") auto

lemma getGuestsSize_nonneg: "\<forall>g\<in>set gs. 0 \<le> amountOf g \<Longrightarrow> 0 \<le> getGuestsSize gs"
  by (induction gs) auto

lemma firstFit_member_fits:
  assumes "\<forall>g\<in>set gs. 0 \<le> amountOf g" and "x \<in> set (firstFit m gs)"
  shows "amountOf x \<le> m"
  using assms
proof (induction gs arbitrary: m)
  case Nil
  then show ?case by simp
next
  case (Cons g gs)
  show ?case
  proof (cases "amountOf g \<le> m")
    case True
    with Cons.prems have "x = g \<or> x \<in> set (firstFit (m - amountOf g) gs)" by auto
    then show ?thesis
    proof
      assume "x = g"
      then show ?thesis using True by simp
    next
      assume "x \<in> set (firstFit (m - amountOf g) gs)"
      then have "amountOf x \<le> m - amountOf g" using Cons.IH Cons.prems(1) by simp
      moreover have "0 \<le> amountOf g" using Cons.prems(1) by simp
      ultimately show ?thesis by simp
    qed
  next
    case False
    then show ?thesis using Cons by simp
  qed
qed

lemma firstFit_left_out:
  assumes "\<forall>g\<in>set gs. 0 \<le> amountOf g" and "x \<in># mset gs - mset (firstFit m gs)"
  shows "m < getGuestsSize (firstFit m gs) + amountOf x"
  using assms
proof (induction gs arbitrary: m)
  case Nil
  then show ?case by simp
next
  case (Cons g gs)
  show ?case
  proof (cases "amountOf g \<le> m")
    case True
    with Cons.prems(2) have "x \<in># mset gs - mset (firstFit (m - amountOf g) gs)" by simp
    then have "m - amountOf g < getGuestsSize (firstFit (m - amountOf g) gs) + amountOf x"
      using Cons.IH Cons.prems(1) by simp
    then show ?thesis using True by simp
  next
    case False
    have "mset (g # gs) - mset (firstFit m gs) = add_mset g (mset gs - mset (firstFit m gs))"
      using firstFit_mset [of m gs] by (simp add: multiset_eq_iff subseteq_mset_def Suc_diff_le)
    with Cons.prems(2) False have "x = g \<or> x \<in># mset gs - mset (firstFit m gs)" by auto
    then show ?thesis
    proof
      assume "x = g"
      moreover have "0 \<le> getGuestsSize (firstFit m gs)"
      proof (rule getGuestsSize_nonneg)
        show "\<forall>g\<in>set (firstFit m gs). 0 \<le> amountOf g"
          using Cons.prems(1) firstFit_mset [of m gs] by (auto dest: mset_subset_eqD)
      qed
      ultimately show ?thesis using False by simp
    next
      assume "x \<in># mset gs - mset (firstFit m gs)"
      then show ?thesis using Cons.IH Cons.prems(1) False by simp
    qed
  qed
qed

lemma fold_newChunkStep_nonempty:
  "chunk \<noteq> [] \<Longrightarrow> fold (newChunkStep cap) gs (chunk, cs, c)
   = (chunk @ firstFit (cap - cs) gs, cs + getGuestsSize (firstFit (cap - cs) gs), c)"
proof (induction gs arbitrary: chunk cs)
  case Nil
  then show ?case by simp
next
  case (Cons g gs)
  show ?case
  proof (cases "cs + amountOf g \<le> cap")
    case True
    then have le: "amountOf g \<le> cap - cs" by simp
    have eq: "cap - (cs + amountOf g) = cap - cs - amountOf g" by simp
    show ?thesis using True le Cons.prems Cons.IH [of "chunk @ [g]" "cs + amountOf g"]
      by (simp add: newChunkStep_def eq)
  next
    case False
    then have "\<not> amountOf g \<le> cap - cs" by simp
    then show ?thesis using False Cons.prems Cons.IH [of chunk cs] by (simp add: newChunkStep_def)
  qed
qed

lemma fillNewTable_Cons:
  "fillNewTable cap (g # rest)
   = (g # firstFit (cap - amountOf g) rest, if cap < amountOf g then amountOf g else cap)"
proof -
  have "newChunkStep cap g ([], 0, cap) = ([g], amountOf g, if cap < amountOf g then amountOf g else cap)"
    by (auto simp: newChunkStep_def)
  then have "fold (newChunkStep cap) (g # rest) ([], 0, cap)
        = ([g] @ firstFit (cap - amountOf g) rest,
           amountOf g + getGuestsSize (firstFit (cap - amountOf g) rest),
           if cap < amountOf g then amountOf g else cap)"
    using fold_newChunkStep_nonempty [of "[g]" cap rest "amountOf g"] by simp
  then show ?thesis by (simp add: fillNewTable_def del: fold_simps)
qed

lemma fillNewTable_Nil: "fillNewTable cap [] = ([], cap)"
  by (simp add: fillNewTable_def)

lemma firstFit_none:
  "\<forall>g\<in>set gs. m < amountOf g \<Longrightarrow> firstFit m gs = []"
  by (induction gs) auto

lemma fillNewTable_oversized:
  assumes "cap < amountOf g" and "\<forall>x\<in>set rest. 1 \<le> amountOf x"
  shows "fillNewTable cap (g # rest) = ([g], amountOf g)"
proof -
  have "firstFit (cap - amountOf g) rest = []"
    using assms by (intro firstFit_none) auto
  then show ?thesis using assms(1) by (simp add: fillNewTable_Cons)
qed

definition splitGuests :: "Guest list" where
  "splitGuests = [mkGuest ''a'' family groom (Some ''G'') (Some 3),
                  mkGuest ''b'' family groom (Some ''G'') (Some 1)]"

definition splitRunGuests :: "Guest list" where
  "splitRunGuests = [mkGuest ''x1'' family groom (Some ''X'') (Some 10),
                     mkGuest ''x2'' family groom (Some ''X'') (Some 8),
                     mkGuest ''a'' family groom (Some ''G'') (Some 3),
                     mkGuest ''b'' family groom (Some ''G'') (Some 1),
                     mkGuest ''c'' family groom (Some ''G'') (Some 7)]"

text \<open>C6, counterexample. With space 2 and the unseated members \<open>a\<close> (3 seats) and \<open>b\<close>
  (1 seat), the first member does not fit, yet the chunk is \<open>[b]\<close>: a later member is seated
  while the earlier one stays outside. In a whole run with standard capacity 10, group \<open>X\<close>
  leaves a table with 2 free seats, and the split of group \<open>G = [a, b, c]\<close> seats \<open>b\<close> there
  and \<open>a\<close>, \<open>c\<close> at another table.\<close>

theorem split_chunk_prefix_counterexample:
  "amountOf (splitGuests ! 0) = 3
   \<and> greedyChunk 2 splitGuests = [splitGuests ! 1]
   \<and> map (\<lambda>t. map guest_id (table_guests t))
          (tables (optimizeSeating splitRunGuests (mkConfig 10 None None)))
       = [[''x1''], [''x2'', ''b''], [''a'', ''c'']]"
  by code_simp

text \<open>C6, as amended. Whenever a group is split into a table, the chunk seated in that step
  is the first-fit selection of the group's still-unseated members in their order, not
  necessarily a prefix: a member is taken exactly when its amount fits the space left by
  the members taken before it in this step. For a knight table or an existing standard
  table (\<open>greedyChunk\<close>) the chunk is an order-preserving sublist whose cumulative amount
  fits the space, no member left outside would still fit next to the chunk, and a first
  member whose amount exceeds the space is not seated in that step although later members
  may be. For a new standard table (\<open>fillNewTable\<close>) the first member is always seated,
  alone when its amount exceeds the standard capacity, and otherwise followed by the
  first-fit selection from the rest. Seat amounts are at least 1.\<close>

theorem split_chunk_is_first_fit:
  assumes "\<forall>g\<in>set gs. 1 \<le> amountOf g"
  shows "greedyChunk space gs = firstFit space gs
    \<and> fst (fillNewTable cap gs)
        = (case gs of [] \<Rightarrow> [] | g # rest \<Rightarrow> if cap < amountOf g then [g] else firstFit cap gs)
    \<and> subseq (greedyChunk space gs) gs
    \<and> subseq (fst (fillNewTable cap gs)) gs
    \<and> (0 \<le> space \<longrightarrow> getGuestsSize (greedyChunk space gs) \<le> space)
    \<and> (gs \<noteq> [] \<longrightarrow> getGuestsSize (fst (fillNewTable cap gs)) \<le> snd (fillNewTable cap gs))
    \<and> (\<forall>x. x \<in># mset gs - mset (greedyChunk space gs)
            \<longrightarrow> space < getGuestsSize (greedyChunk space gs) + amountOf x)
    \<and> (gs \<noteq> [] \<and> space < amountOf (hd gs) \<longrightarrow> hd gs \<notin> set (greedyChunk space gs))"
proof -
  have nonneg: "\<forall>g\<in>set gs. 0 \<le> amountOf g" using assms by fastforce
  have new: "fst (fillNewTable cap gs)
        = (case gs of [] \<Rightarrow> [] | g # rest \<Rightarrow> if cap < amountOf g then [g] else firstFit cap gs)"
  proof (cases gs)
    case Nil
    then show ?thesis by (simp add: fillNewTable_Nil)
  next
    case (Cons g rest)
    show ?thesis
    proof (cases "cap < amountOf g")
      case True
      then show ?thesis using Cons assms by (simp add: fillNewTable_oversized)
    next
      case False
      then show ?thesis using Cons by (simp add: fillNewTable_Cons)
    qed
  qed
  have sub_new: "subseq (fst (fillNewTable cap gs)) gs"
    by (cases gs) (simp_all add: fillNewTable_Nil fillNewTable_Cons firstFit_subseq)
  have size_new: "gs \<noteq> [] \<longrightarrow> getGuestsSize (fst (fillNewTable cap gs)) \<le> snd (fillNewTable cap gs)"
  proof (cases gs)
    case Nil
    then show ?thesis by simp
  next
    case (Cons g rest)
    show ?thesis
    proof (cases "cap < amountOf g")
      case True
      then show ?thesis using Cons assms by (simp add: fillNewTable_oversized)
    next
      case False
      then have "0 \<le> cap - amountOf g" by simp
      then have "getGuestsSize (firstFit (cap - amountOf g) rest) \<le> cap - amountOf g"
        by (rule firstFit_size_nonneg)
      then show ?thesis using Cons False by (simp add: fillNewTable_Cons)
    qed
  qed
  have first: "gs \<noteq> [] \<and> space < amountOf (hd gs) \<longrightarrow> hd gs \<notin> set (firstFit space gs)"
    using firstFit_member_fits [OF nonneg, of "hd gs" space] by auto
  show ?thesis
    using new sub_new size_new first firstFit_left_out [OF nonneg, of _ space]
    by (simp add: greedyChunk_firstFit firstFit_subseq firstFit_size_nonneg)
qed

theorem split_chunk_is_first_fit_witness:
  "map amountOf splitGuests = [3, 1]
   \<and> greedyChunk 2 splitGuests = firstFit 2 splitGuests
   \<and> firstFit 2 splitGuests = [splitGuests ! 1]
   \<and> 0 \<le> (2::int) \<and> getGuestsSize (greedyChunk 2 splitGuests) \<le> 2
   \<and> splitGuests \<noteq> [] \<and> 2 < amountOf (hd splitGuests)
   \<and> hd splitGuests \<notin> set (greedyChunk 2 splitGuests)
   \<and> getGuestsSize (fst (fillNewTable 2 splitGuests)) \<le> snd (fillNewTable 2 splitGuests)"
proof -
  have amounts: "\<forall>g\<in>set splitGuests. 1 \<le> amountOf g"
    by (simp add: splitGuests_def mkGuest_def amountOf_def)
  have ff: "firstFit 2 splitGuests = [splitGuests ! 1]"
    by (simp add: splitGuests_def mkGuest_def amountOf_def)
  have hd: "splitGuests \<noteq> [] \<and> 2 < amountOf (hd splitGuests)"
    by (simp add: splitGuests_def mkGuest_def amountOf_def)
  have two: "0 \<le> (2::int)" by simp
  have am: "map amountOf splitGuests = [3, 1]"
    by (simp add: splitGuests_def mkGuest_def amountOf_def)
  from split_chunk_is_first_fit [OF amounts, of 2 2] am ff hd two
  show ?thesis by blast
qed

section \<open>Guests lost in the knight phase\<close>

definition dropGuests :: "Guest list" where
  "dropGuests = [mkGuest ''a'' friend groom (Some ''G'') (Some 2),
                 mkGuest ''b'' friend groom (Some ''G'') (Some 2)]"

definition dropConfig :: OptimizationConfig where
  "dropConfig = mkConfig 12 (Some (mkKnights 1 3)) None"

definition loneGuests :: "Guest list" where
  "loneGuests = [mkGuest ''a'' friend bride (Some ''G'') (Some 2)]"

definition loneConfig :: OptimizationConfig where
  "loneConfig = mkConfig 12 (Some (mkKnights 1 1)) None"

text \<open>C1, the code at a failing input. One guest with two seats in a friend group, one
  knight table of capacity 1, standard capacity 12. The knight table has space but the guest
  does not fit; the knight loop leaves through \<open>break\<close> without returning the guest to the
  standard pool. The result holds the empty knight table only: the guest is in no table and
  in no assignment, and the seated amounts (0) differ from the input amounts (2).\<close>

theorem conservation_fails_at_knight_break:
  "map guest_id loneGuests = [''a'']
   \<and> getGuestsSize loneGuests = 2
   \<and> map (\<lambda>t. (table_id t, table_isKnight t, table_guests t))
          (tables (optimizeSeating loneGuests loneConfig)) = [(0, True, [])]
   \<and> getGuestsSize (concat (map table_guests (tables (optimizeSeating loneGuests loneConfig)))) = 0
   \<and> assignments (optimizeSeating loneGuests loneConfig) ''a'' = None"
  by code_simp

text \<open>C2, the code at a failing input. A friend group of two guests with two seats each, one
  knight table of capacity 3. The first guest is seated at the knight table; one seat is
  left, the second guest does not fit, and the allocator stops for this group. After the
  knight phase the standard pool is empty: the remainder was not pushed back, and the
  second guest appears in no table of the result.\<close>

theorem knight_remainder_not_pushed_back:
  "map (\<lambda>p. (fst p, map guest_id (table_guests (snd p)))) (fst (fst (afterKnight dropGuests dropConfig)))
     = [(0, [''a''])]
   \<and> snd (afterKnight dropGuests dropConfig) = []
   \<and> map (\<lambda>t. (table_id t, table_isKnight t, map guest_id (table_guests t)))
          (tables (optimizeSeating dropGuests dropConfig)) = [(0, True, [''a''])]
   \<and> assignments (optimizeSeating dropGuests dropConfig) ''b'' = None"
  by code_simp

section \<open>Configurations outside the documented ranges\<close>

text \<open>All guests seated at the tables of the dictionary, and all members of a list of groups.\<close>

definition seated :: "TableAssignments \<Rightarrow> Guest list" where
  "seated tabs = concat (map (\<lambda>p. table_guests (snd p)) tabs)"

definition poolGuests :: "ProcessedGroup list \<Rightarrow> Guest list" where
  "poolGuests pool = concat (map guests pool)"

lemma setProp_fresh: "k \<notin> fst ` set ps \<Longrightarrow> setProp k v ps = ps @ [(k, v)]"
  by (induction ps) auto

lemma createKnightTables_fold:
  "fold (\<lambda>i (tabs, tableCounter). (setProp tableCounter (newKnightTable c) tabs, Suc tableCounter))
        [0..<n] ([], 0)
   = (map (\<lambda>i. (i, newKnightTable c)) [0..<n], n)"
proof (induction n)
  case 0
  then show ?case by simp
next
  case (Suc n)
  have "n \<notin> fst ` set (map (\<lambda>i. (i, newKnightTable c)) [0..<n])" by auto
  then have "setProp n (newKnightTable c) (map (\<lambda>i. (i, newKnightTable c)) [0..<n])
             = map (\<lambda>i. (i, newKnightTable c)) [0..<n] @ [(n, newKnightTable c)]"
    by (rule setProp_fresh)
  then show ?case using Suc by simp
qed

lemma createKnightTables_eq:
  "createKnightTables kc
   = (map (\<lambda>i. (i, newKnightTable (knight_capacity kc))) [0..<nat (knight_count kc)],
      nat (knight_count kc))"
  by (simp add: createKnightTables_def createKnightTables_fold)





lemma mset_concat_filter:
  "mset (concat (map f (filter P xs))) + mset (concat (map f (filter (\<lambda>x. \<not> P x) xs)))
   = mset (concat (map f xs))"
  by (induction xs) auto

lemma mset_concat_cong:
  assumes "mset xs = mset ys"
  shows "mset (concat (map f xs)) = mset (concat (map f ys))"
proof -
  have "mset (concat (map f zs)) = sum_mset (image_mset (\<lambda>x. mset (f x)) (mset zs))" for zs
    by (induction zs) auto
  then show ?thesis using assms by simp
qed

lemma poolGuests_partition:
  "mset (poolGuests (standardPoolOf pgs)) + mset (poolGuests (knightCandidatesOf pgs))
   = mset (poolGuests pgs)"
proof (cases "length (filter isRequestedForKnight pgs) = 0")
  case True
  then show ?thesis
    using mset_concat_filter [of guests "\<lambda>g. dominantCategory g = friend" pgs]
    by (simp add: poolGuests_def standardPoolOf_def knightCandidatesOf_def Let_def add.commute)
next
  case False
  then show ?thesis
    using mset_concat_filter [of guests isRequestedForKnight pgs]
    by (simp add: poolGuests_def standardPoolOf_def knightCandidatesOf_def Let_def add.commute)
qed

lemma poolGuests_sortDescBy: "mset (poolGuests (sortDescBy f pgs)) = mset (poolGuests pgs)"
  unfolding poolGuests_def by (rule mset_concat_cong) (simp add: sortDescBy_def)


lemma poolGuests_append: "poolGuests (xs @ ys) = poolGuests xs @ poolGuests ys"
  by (simp add: poolGuests_def)






section \<open>What one step of a seating loop does\<close>

lemma modifyTable_keys [simp]: "map fst (modifyTable tid f tabs) = map fst tabs"
  by (induction tabs) (auto simp: modifyTable_def)

lemma modifyTable_set:
  assumes "p \<in> set (modifyTable tid f tabs)"
  shows "(p \<in> set tabs \<and> fst p \<noteq> tid) \<or> (\<exists>t. (tid, t) \<in> set tabs \<and> p = (tid, f t))"
  using assms by (auto simp: modifyTable_def)

lemma deleteProp_keys: "map fst (deleteProp k tabs) = filter (\<lambda>x. x \<noteq> k) (map fst tabs)"
  by (induction tabs) (auto simp: deleteProp_def)

lemma deleteProp_set: "set (deleteProp k tabs) = {p \<in> set tabs. fst p \<noteq> k}"
  by (auto simp: deleteProp_def)

lemma distinct_key_unique:
  assumes "distinct (map fst tabs)" and "(k, t) \<in> set tabs" and "map_of tabs k = Some t'"
  shows "t = t'"
  using assms by (simp add: map_of_is_SomeI)

text \<open>The scans return a table that exists and has the space they report.\<close>

lemma knightScan_fold:
  assumes "case acc of (None, m) \<Rightarrow> True
           | (Some i, m) \<Rightarrow> \<exists>t. map_of tabs i = Some t \<and> spaceOf t = m \<and> 0 < m"
  shows "case fold (knightScanStep tabs) ks acc of (None, m) \<Rightarrow> True
         | (Some i, m) \<Rightarrow> \<exists>t. map_of tabs i = Some t \<and> spaceOf t = m \<and> 0 < m"
  using assms
proof (induction ks arbitrary: acc)
  case Nil
  then show ?case by simp
next
  case (Cons k ks)
  have "case knightScanStep tabs k acc of (None, m) \<Rightarrow> True
        | (Some i, m) \<Rightarrow> \<exists>t. map_of tabs i = Some t \<and> spaceOf t = m \<and> 0 < m"
    using Cons.prems by (auto simp: knightScanStep_def split: prod.splits option.splits)
  then show ?case using Cons.IH by simp
qed

lemma findKnightTable_Some:
  assumes "findKnightTable cnt tabs = (Some tid, m)"
  shows "\<exists>t. map_of tabs tid = Some t \<and> spaceOf t = m \<and> 0 < m"
  using knightScan_fold [where acc = "(None, -1)" and tabs = tabs and ks = "[0..<nat cnt]"] assms
  by (simp add: findKnightTable_def)

lemma bestFit_fold:
  assumes "case fst acc of None \<Rightarrow> True
           | Some i \<Rightarrow> \<exists>t. map_of tabs i = Some t \<and> n \<le> spaceOf t"
  shows "case fst (fold (bestFitStep grp n tabs) ks acc) of None \<Rightarrow> True
         | Some i \<Rightarrow> \<exists>t. map_of tabs i = Some t \<and> n \<le> spaceOf t"
  using assms
proof (induction ks arbitrary: acc)
  case Nil
  then show ?case by simp
next
  case (Cons k ks)
  have "case fst (bestFitStep grp n tabs k acc) of None \<Rightarrow> True
        | Some i \<Rightarrow> \<exists>t. map_of tabs i = Some t \<and> n \<le> spaceOf t"
    using Cons.prems by (auto simp: bestFitStep_def split: prod.splits option.splits)
  then show ?case using Cons.IH by simp
qed

lemma findBestFit_Some:
  assumes "findBestFit grp n tabs = Some tid"
  shows "\<exists>t. map_of tabs tid = Some t \<and> n \<le> spaceOf t"
  using bestFit_fold [where acc = "(None, None)" and tabs = tabs and n = n and grp = grp
      and ks = "currentStandardTableIds tabs"] assms
  by (simp add: findBestFit_def)

lemma findPartialTable_Some:
  assumes "findPartialTable grp tabs = Some (tid, m)"
  shows "\<exists>t. (tid, t) \<in> set tabs \<and> spaceOf t = m \<and> 0 < m"
proof -
  let ?P = "\<lambda>p. spaceOf (snd p) > 0 \<and> isSideMatch grp (snd p)"
  let ?xs = "sortDescBy (\<lambda>p. getGuestsSize (table_guests (snd p)))
                        (filter (\<lambda>p. \<not> table_isKnight (snd p)) tabs)"
  from assms obtain p where f: "find ?P ?xs = Some p" and p: "tid = fst p" "m = spaceOf (snd p)"
    by (auto simp: findPartialTable_def Let_def split: option.splits)
  from f have "p \<in> set ?xs" and "?P p"
    by (auto simp: find_Some_iff)
  then have "(tid, snd p) \<in> set tabs" using p by (simp add: sortDescBy_def)
  then show ?thesis using p \<open>?P p\<close> by blast
qed

text \<open>A knight step that goes on seats a non-empty first-fit chunk at an existing table whose
  space is the budget of the chunk.\<close>

lemma knightStep_Continue:
  assumes "knightStep cnt grp (gs, tabs, pool) = Continue s'"
  obtains tid t where "map_of tabs tid = Some t" and "0 < spaceOf t"
    and "firstFit (spaceOf t) gs \<noteq> []"
    and "s' = (removeChunk (firstFit (spaceOf t) gs) gs,
               modifyTable tid (seatLabelled grp (firstFit (spaceOf t) gs)) tabs, pool)"
proof -
  obtain b m where f: "findKnightTable cnt tabs = (b, m)" by (cases "findKnightTable cnt tabs")
  with assms obtain tid where b: "b = Some tid" and m: "0 < m"
    and c: "greedyChunk m gs \<noteq> []"
    and s: "s' = (removeChunk (greedyChunk m gs) gs,
                  modifyTable tid (seatLabelled grp (greedyChunk m gs)) tabs, pool)"
    by (auto simp: knightStep_def Let_def split: option.splits if_splits)
  from f b obtain t where "map_of tabs tid = Some t" "spaceOf t = m"
    using findKnightTable_Some by blast
  with m c s that show ?thesis by (simp add: greedyChunk_firstFit)
qed

lemma knightStep_Break:
  assumes "knightStep cnt grp (gs, tabs, pool) = Break s'" and "gs \<noteq> []"
  shows "s' = (gs, tabs, pool) \<or> s' = (gs, tabs, pool @ [leftoverGroup grp gs])"
  using assms by (auto simp: knightStep_def Let_def split: prod.splits option.splits if_splits)

text \<open>A standard step on a non-empty list never leaves the loop; it does one of four
  things.\<close>

lemma splitNewTable_Cons:
  "splitNewTable cap grp (g # rest, n, tabs, tc)
   = Continue (removeChunk (g # firstFit (cap - amountOf g) rest) (g # rest),
               getGuestsSize (removeChunk (g # firstFit (cap - amountOf g) rest) (g # rest)),
               openTable grp (if cap < amountOf g then amountOf g else cap)
                         (g # firstFit (cap - amountOf g) rest) tc tabs,
               Suc tc)"
  by (simp add: splitNewTable_def fillNewTable_Cons)

lemma standardStep_cases:
  assumes "gs \<noteq> []"
  obtains
    (fit) tid t where "map_of tabs tid = Some t" and "n \<le> spaceOf t"
      and "standardStep cap grp (gs, n, tabs, tc)
           = Continue ([], n, modifyTable tid (seatLabelled grp gs) tabs, tc)"
  | (whole) "n \<le> cap"
      and "standardStep cap grp (gs, n, tabs, tc)
           = Continue ([], n, openTable grp cap gs tc tabs, Suc tc)"
  | (part) tid t where "(tid, t) \<in> set tabs" and "0 < spaceOf t"
      and "firstFit (spaceOf t) gs \<noteq> []"
      and "standardStep cap grp (gs, n, tabs, tc)
           = Continue (removeChunk (firstFit (spaceOf t) gs) gs,
                       getGuestsSize (removeChunk (firstFit (spaceOf t) gs) gs),
                       modifyTable tid (pushGuests (firstFit (spaceOf t) gs)) tabs, tc)"
  | (new) g rest where "gs = g # rest" and "cap < n"
      and "standardStep cap grp (gs, n, tabs, tc)
           = Continue (removeChunk (g # firstFit (cap - amountOf g) rest) gs,
                       getGuestsSize (removeChunk (g # firstFit (cap - amountOf g) rest) gs),
                       openTable grp (if cap < amountOf g then amountOf g else cap)
                                 (g # firstFit (cap - amountOf g) rest) tc tabs,
                       Suc tc)"
proof (cases "findBestFit grp n tabs")
  case (Some tid)
  then obtain t where "map_of tabs tid = Some t" "n \<le> spaceOf t"
    using findBestFit_Some by blast
  then show ?thesis using Some fit by (simp add: standardStep_def)
next
  case None
  show ?thesis
  proof (cases "n \<le> cap")
    case True
    then show ?thesis using None whole by (simp add: standardStep_def)
  next
    case False
    obtain g rest where gs: "gs = g # rest" using assms by (cases gs) auto
    have fresh: "splitNewTable cap grp (gs, n, tabs, tc)
           = Continue (removeChunk (g # firstFit (cap - amountOf g) rest) gs,
                       getGuestsSize (removeChunk (g # firstFit (cap - amountOf g) rest) gs),
                       openTable grp (if cap < amountOf g then amountOf g else cap)
                                 (g # firstFit (cap - amountOf g) rest) tc tabs,
                       Suc tc)"
      unfolding gs by (rule splitNewTable_Cons)
    show ?thesis
    proof (cases "findPartialTable grp tabs")
      case None
      then show ?thesis using \<open>findBestFit grp n tabs = None\<close> False fresh new [OF gs]
        by (simp add: standardStep_def)
    next
      case (Some q)
      obtain tid m where q: "q = (tid, m)" by (cases q)
      with Some obtain t where t: "(tid, t) \<in> set tabs" "spaceOf t = m" "0 < m"
        using findPartialTable_Some by blast
      show ?thesis
      proof (cases "firstFit m gs = []")
        case True
        then show ?thesis
          using \<open>findBestFit grp n tabs = None\<close> False Some q fresh new [OF gs]
          by (simp add: standardStep_def greedyChunk_firstFit)
      next
        case False
        then show ?thesis
          using \<open>findBestFit grp n tabs = None\<close> \<open>\<not> n \<le> cap\<close> Some q t part [of tid t]
          by (simp add: standardStep_def greedyChunk_firstFit Let_def)
      qed
    qed
  qed
qed

section \<open>Invariant rules for the loops\<close>

lemma knightWhile_rule:
  assumes "I s"
    and "\<And>gs tabs pool s'. I (gs, tabs, pool) \<Longrightarrow> gs \<noteq> []
           \<Longrightarrow> knightStep cnt grp (gs, tabs, pool) = Continue s' \<Longrightarrow> I s'"
    and "\<And>gs tabs pool s'. I (gs, tabs, pool) \<Longrightarrow> gs \<noteq> []
           \<Longrightarrow> knightStep cnt grp (gs, tabs, pool) = Break s' \<Longrightarrow> Q (snd s')"
    and "\<And>tabs pool. I ([], tabs, pool) \<Longrightarrow> Q (tabs, pool)"
  shows "Q (knightWhile cnt grp s)"
  using assms
proof (induction cnt grp s rule: knightWhile.induct)
  case (1 cnt grp gs tabs pool)
  show ?case
  proof (cases "gs = []")
    case True
    then show ?thesis using "1.prems"(1,4) by (simp add: knightWhile.simps)
  next
    case False
    show ?thesis
    proof (cases "knightStep cnt grp (gs, tabs, pool)")
      case (Continue s')
      have "I s'" using "1.prems"(1,2) False Continue by blast
      then have "Q (knightWhile cnt grp s')"
        using "1.IH" [OF False Continue] "1.prems"(2,3,4) by blast
      then show ?thesis using False Continue by (simp add: knightWhile.simps)
    next
      case (Break s')
      then have "Q (snd s')" using "1.prems"(1,3) False by blast
      then show ?thesis using False Break by (simp add: knightWhile.simps)
    qed
  qed
qed

lemma standardStep_goes_on:
  assumes "gs \<noteq> []"
  shows "\<exists>s'. standardStep cap grp (gs, n, tabs, tc) = Continue s'"
  by (rule standardStep_cases [OF assms, where n = n and tabs = tabs and cap = cap
        and grp = grp and tc = tc]) blast+

lemma standardWhile_rule:
  assumes "I s"
    and "\<And>gs n tabs tc s'. I (gs, n, tabs, tc) \<Longrightarrow> gs \<noteq> []
           \<Longrightarrow> standardStep cap grp (gs, n, tabs, tc) = Continue s' \<Longrightarrow> I s'"
    and "\<And>n tabs tc. I ([], n, tabs, tc) \<Longrightarrow> Q (tabs, tc)"
  shows "Q (standardWhile cap grp s)"
  using assms
proof (induction cap grp s rule: standardWhile.induct)
  case (1 cap grp gs n tabs tc)
  show ?case
  proof (cases "gs = []")
    case True
    then show ?thesis using "1.prems"(1,3) by (simp add: standardWhile.simps)
  next
    case False
    obtain s' where c: "standardStep cap grp (gs, n, tabs, tc) = Continue s'"
      using standardStep_goes_on [OF False] by blast
    have "I s'" using "1.prems"(1,2) False c by blast
    then have "Q (standardWhile cap grp s')"
      using "1.IH" [OF False c] "1.prems"(2,3) by blast
    then show ?thesis using False c by (simp add: standardWhile.simps)
  qed
qed

lemma fold_rule:
  assumes "I xs s" and "\<And>x rest s. I (x # rest) s \<Longrightarrow> I rest (f x s)"
  shows "I [] (fold f xs s)"
  using assms by (induction xs arbitrary: s) auto

text \<open>The inner loop of the merge phase either changes nothing or merges one later table
  into the anchor.\<close>

lemma findPartner_cases:
  "findPartner idA tableA sizeA ks st = st
   \<or> (\<exists>idB tableB. idB \<in> set ks \<and> map_of (fst st) idB = Some tableB
        \<and> sizeA + getGuestsSize (table_guests tableB) \<le> table_capacity tableA
        \<and> findPartner idA tableA sizeA ks st
            = (deleteProp idB (modifyTable idA (mergeInto tableB) (fst st)), idB # snd st))"
proof (induction ks)
  case Nil
  then show ?case by simp
next
  case (Cons k ks)
  show ?case
  proof (cases "k \<in> set (snd st)")
    case True
    then show ?thesis using Cons by auto
  next
    case False
    show ?thesis
    proof (cases "map_of (fst st) k")
      case None
      then show ?thesis using False Cons by auto
    next
      case (Some tableB)
      show ?thesis
      proof (cases "sizeA + getGuestsSize (table_guests tableB) \<le> table_capacity tableA")
        case True
        then show ?thesis using False Some by auto
      next
        case no: False
        then show ?thesis using False Some Cons by auto
      qed
    qed
  qed
qed

lemma mergeLoop_rule:
  assumes "P tabs" and "distinct ks"
    and "\<And>tabs idA idB tableA tableB.
           P tabs \<Longrightarrow> idA \<noteq> idB \<Longrightarrow> map_of tabs idA = Some tableA
           \<Longrightarrow> map_of tabs idB = Some tableB
           \<Longrightarrow> getGuestsSize (table_guests tableA) < table_capacity tableA
           \<Longrightarrow> getGuestsSize (table_guests tableA) + getGuestsSize (table_guests tableB)
               \<le> table_capacity tableA
           \<Longrightarrow> P (deleteProp idB (modifyTable idA (mergeInto tableB) tabs))"
  shows "P (fst (mergeLoop ks (tabs, merged)))"
  using assms(1,2)
proof (induction ks arbitrary: tabs merged)
  case Nil
  then show ?case by simp
next
  case (Cons idA ks)
  from Cons.prems(2) have d: "distinct ks" and notin: "idA \<notin> set ks" by auto
  show ?case
  proof (cases "idA \<in> set merged")
    case True
    then show ?thesis using Cons.IH [OF Cons.prems(1) d] by simp
  next
    case False
    show ?thesis
    proof (cases "map_of tabs idA")
      case None
      then show ?thesis using False Cons.IH [OF Cons.prems(1) d] by simp
    next
      case (Some tableA)
      let ?sizeA = "getGuestsSize (table_guests tableA)"
      show ?thesis
      proof (cases "table_capacity tableA \<le> ?sizeA")
        case True
        then show ?thesis using False Some Cons.IH [OF Cons.prems(1) d] by simp
      next
        case notfull: False
        obtain tabs' merged' where r: "findPartner idA tableA ?sizeA ks (tabs, merged) = (tabs', merged')"
          by (cases "findPartner idA tableA ?sizeA ks (tabs, merged)")
        have "P tabs'"
          using findPartner_cases [of idA tableA ?sizeA ks "(tabs, merged)"]
        proof
          assume "findPartner idA tableA ?sizeA ks (tabs, merged) = (tabs, merged)"
          then show ?thesis using r Cons.prems(1) by simp
        next
          assume "\<exists>idB tableB. idB \<in> set ks \<and> map_of (fst (tabs, merged)) idB = Some tableB
            \<and> ?sizeA + getGuestsSize (table_guests tableB) \<le> table_capacity tableA
            \<and> findPartner idA tableA ?sizeA ks (tabs, merged)
                = (deleteProp idB (modifyTable idA (mergeInto tableB) (fst (tabs, merged))),
                   idB # snd (tabs, merged))"
          then obtain idB tableB where b: "idB \<in> set ks" "map_of tabs idB = Some tableB"
            "?sizeA + getGuestsSize (table_guests tableB) \<le> table_capacity tableA"
            "tabs' = deleteProp idB (modifyTable idA (mergeInto tableB) tabs)"
            using r by auto
          have "idA \<noteq> idB" using b(1) notin by auto
          then show ?thesis
            using assms(3) [OF Cons.prems(1) _ Some b(2) _ b(3)] notfull b(4) by simp
        qed
        then have "P (fst (mergeLoop ks (tabs', merged')))" using d by (rule Cons.IH)
        then show ?thesis using False Some notfull r by (simp add: Let_def)
      qed
    qed
  qed
qed

section \<open>Capacity is respected\<close>

text \<open>Table keys are unique and below the counter; every table holds at most its
  capacity.\<close>

definition keysOK :: "TableAssignments \<Rightarrow> nat \<Rightarrow> bool" where
  "keysOK tabs tc = (distinct (map fst tabs) \<and> (\<forall>k\<in>set (map fst tabs). k < tc))"

text \<open>A table fits when its occupancy is at most its capacity. A knight table is created
  empty with the knight capacity, whatever its sign, so an empty knight table is allowed
  for.\<close>

definition fits :: "TableData \<Rightarrow> bool" where
  "fits t = (getGuestsSize (table_guests t) \<le> table_capacity t
             \<or> (table_isKnight t \<and> table_guests t = []))"

definition capOK :: "TableAssignments \<Rightarrow> bool" where
  "capOK tabs = (\<forall>p\<in>set tabs. fits (snd p))"

lemma seatLabelled_fields [simp]:
  "table_guests (seatLabelled grp chunk u) = table_guests u @ chunk"
  "table_capacity (seatLabelled grp chunk u) = table_capacity u"
  "table_isKnight (seatLabelled grp chunk u) = table_isKnight u"
  by (simp_all add: seatLabelled_def pushGuests_def Let_def)

lemma pushGuests_fields [simp]:
  "table_guests (pushGuests chunk u) = table_guests u @ chunk"
  "table_capacity (pushGuests chunk u) = table_capacity u"
  "table_isKnight (pushGuests chunk u) = table_isKnight u"
  by (simp_all add: pushGuests_def)

lemma mergeInto_fields [simp]:
  "table_guests (mergeInto b a) = table_guests a @ table_guests b"
  "table_capacity (mergeInto b a) = table_capacity a"
  "table_isKnight (mergeInto b a) = table_isKnight a"
  by (simp_all add: mergeInto_def)

lemma keysOK_modify [simp]: "keysOK (modifyTable tid f tabs) tc = keysOK tabs tc"
  by (simp add: keysOK_def)

lemma keysOK_delete: "keysOK tabs tc \<Longrightarrow> keysOK (deleteProp k tabs) tc"
  by (auto simp: keysOK_def deleteProp_keys)

lemma openTable_append:
  assumes "keysOK tabs tc"
  shows "openTable grp c chunk tc tabs
         = tabs @ [(tc, (newStandardTable grp c)\<lparr>table_guests := chunk\<rparr>)]"
proof -
  have "tc \<notin> fst ` set tabs" using assms by (auto simp: keysOK_def)
  then show ?thesis unfolding openTable_def by (rule setProp_fresh)
qed

lemma keysOK_open: "keysOK tabs tc \<Longrightarrow> keysOK (openTable grp c chunk tc tabs) (Suc tc)"
  by (auto simp: openTable_append keysOK_def)

lemma capOK_seat:
  assumes "distinct (map fst tabs)" and "capOK tabs" and "map_of tabs tid = Some t"
    and "getGuestsSize chunk \<le> spaceOf t"
    and "\<And>u. table_guests (f u) = table_guests u @ chunk"
    and "\<And>u. table_capacity (f u) = table_capacity u"
  shows "capOK (modifyTable tid f tabs)"
  unfolding capOK_def
proof
  fix p assume "p \<in> set (modifyTable tid f tabs)"
  then consider (old) "p \<in> set tabs" | (new) u where "(tid, u) \<in> set tabs" "p = (tid, f u)"
    using modifyTable_set by blast
  then show "fits (snd p)"
  proof cases
    case old
    then show ?thesis using assms(2) by (simp add: capOK_def)
  next
    case new
    then have "u = t" using distinct_key_unique [OF assms(1) _ assms(3)] by blast
    then show ?thesis using new assms(4,5,6) by (simp add: spaceOf_def fits_def)
  qed
qed

lemma capOK_open:
  assumes "keysOK tabs tc" and "capOK tabs" and "getGuestsSize chunk \<le> c"
  shows "capOK (openTable grp c chunk tc tabs)"
  using assms by (auto simp: openTable_append capOK_def fits_def newStandardTable_def)

lemma capOK_delete: "capOK tabs \<Longrightarrow> capOK (deleteProp k tabs)"
  by (auto simp: capOK_def deleteProp_set)

lemma capOK_merge:
  assumes "distinct (map fst tabs)" and "capOK tabs" and "map_of tabs idA = Some tableA"
    and "getGuestsSize (table_guests tableA) + getGuestsSize (table_guests tableB)
         \<le> table_capacity tableA"
  shows "capOK (deleteProp idB (modifyTable idA (mergeInto tableB) tabs))"
proof (rule capOK_delete, rule capOK_seat [OF assms(1,2,3)])
  show "getGuestsSize (table_guests tableB) \<le> spaceOf tableA"
    using assms(4) by (simp add: spaceOf_def)
qed simp_all

lemma new_chunk_size:
  "getGuestsSize (g # firstFit (cap - amountOf g) rest)
   \<le> (if cap < amountOf g then amountOf g else cap)"
proof (cases "firstFit (cap - amountOf g) rest = []")
  case True
  then show ?thesis by simp
next
  case False
  then have "getGuestsSize (firstFit (cap - amountOf g) rest) \<le> cap - amountOf g"
    by (rule firstFit_size)
  then show ?thesis by simp
qed

text \<open>Keys stay unique through every loop.\<close>

lemma knightStep_keysOK:
  assumes "knightStep cnt grp (gs, tabs, pool) = Continue s'"
  shows "keysOK (fst (snd s')) tc = keysOK tabs tc"
  using assms by (rule knightStep_Continue) simp

lemma knightSeatGroup_keysOK:
  assumes "keysOK (fst st) tc"
  shows "keysOK (fst (knightSeatGroup cnt grp st)) tc"
  unfolding knightSeatGroup_def
proof (rule knightWhile_rule [where I = "\<lambda>s. keysOK (fst (snd s)) tc"])
  show "keysOK (fst (snd (guests grp, fst st, snd st))) tc" using assms by simp
next
  fix gs tabs pool s'
  assume "keysOK (fst (snd (gs, tabs, pool))) tc"
    and "knightStep cnt grp (gs, tabs, pool) = Continue s'"
  then show "keysOK (fst (snd s')) tc" by (simp add: knightStep_keysOK)
next
  fix gs tabs pool s'
  assume "keysOK (fst (snd (gs, tabs, pool))) tc" and "gs \<noteq> []"
    and "knightStep cnt grp (gs, tabs, pool) = Break s'"
  then show "keysOK (fst (snd s')) tc"
    using knightStep_Break [of cnt grp gs tabs pool s'] by auto
next
  fix tabs pool
  assume "keysOK (fst (snd ([], tabs, pool))) tc"
  then show "keysOK (fst (tabs, pool)) tc" by simp
qed

lemma standardStep_keysOK:
  assumes ok: "keysOK tabs tc" and ne: "gs \<noteq> []"
    and step: "standardStep cap grp (gs, n, tabs, tc) = Continue s'"
  shows "keysOK (fst (snd (snd s'))) (snd (snd (snd s')))"
  by (rule standardStep_cases [OF ne, where n = n and tabs = tabs and cap = cap
        and grp = grp and tc = tc])
     (use ok step in \<open>auto simp: keysOK_open\<close>)

lemma standardSeatGroup_keysOK:
  assumes "keysOK (fst st) (snd st)"
  shows "keysOK (fst (standardSeatGroup cap grp st)) (snd (standardSeatGroup cap grp st))"
  unfolding standardSeatGroup_def
proof (rule standardWhile_rule [where I = "\<lambda>s. keysOK (fst (snd (snd s))) (snd (snd (snd s)))"])
  show "keysOK (fst (snd (snd (guests grp, getGuestsSize (guests grp), fst st, snd st))))
               (snd (snd (snd (guests grp, getGuestsSize (guests grp), fst st, snd st))))"
    using assms by simp
next
  fix gs n tabs tc s'
  assume "keysOK (fst (snd (snd (gs, n, tabs, tc)))) (snd (snd (snd (gs, n, tabs, tc))))"
    and "gs \<noteq> []" and "standardStep cap grp (gs, n, tabs, tc) = Continue s'"
  then show "keysOK (fst (snd (snd s'))) (snd (snd (snd s')))"
    using standardStep_keysOK [of tabs tc gs cap grp n s'] by simp
next
  fix n tabs tc
  assume "keysOK (fst (snd (snd ([], n, tabs, tc)))) (snd (snd (snd ([], n, tabs, tc))))"
  then show "keysOK (fst (tabs, tc)) (snd (tabs, tc))" by simp
qed

lemma createKnightTables_keysOK:
  "keysOK (fst (createKnightTables kc)) (snd (createKnightTables kc))"
  by (simp add: createKnightTables_eq keysOK_def comp_def)

lemma knightFold_keysOK:
  assumes "keysOK (fst st) tc"
  shows "keysOK (fst (fold (knightSeatGroup cnt) cands st)) tc"
  using assms by (induction cands arbitrary: st) (simp_all add: knightSeatGroup_keysOK)

lemma knightPhase_active:
  assumes "knight_enabled kc \<and> 0 < knight_count kc"
  shows "knightPhase kc pgs
         = ((fst (fold (knightSeatGroup (knight_count kc))
                       (sortDescBy group_size (knightCandidatesOf pgs))
                       (fst (createKnightTables kc), standardPoolOf pgs)),
             snd (createKnightTables kc)),
            snd (fold (knightSeatGroup (knight_count kc))
                      (sortDescBy group_size (knightCandidatesOf pgs))
                      (fst (createKnightTables kc), standardPoolOf pgs)))"
  using assms by (simp add: knightPhase_def Let_def case_prod_beta)

lemma knightPhase_idle:
  assumes "\<not> (knight_enabled kc \<and> 0 < knight_count kc)"
  shows "knightPhase kc pgs = (([], 0), pgs)"
  using assms by (auto simp: knightPhase_def)

lemma knightPhase_keysOK: "keysOK (fst (fst (knightPhase kc pgs))) (snd (fst (knightPhase kc pgs)))"
proof (cases "knight_enabled kc \<and> 0 < knight_count kc")
  case False
  then show ?thesis by (simp add: knightPhase_idle keysOK_def)
next
  case True
  have "keysOK (fst (fold (knightSeatGroup (knight_count kc))
                          (sortDescBy group_size (knightCandidatesOf pgs))
                          (fst (createKnightTables kc), standardPoolOf pgs)))
               (snd (createKnightTables kc))"
    by (rule knightFold_keysOK) (simp add: createKnightTables_keysOK)
  then show ?thesis by (simp add: knightPhase_active [OF True])
qed

lemma standardPhase_keysOK:
  assumes "keysOK (fst st) (snd st)"
  shows "keysOK (fst (standardPhase cap pool st)) (snd (standardPhase cap pool st))"
proof -
  have "keysOK (fst (fold (standardSeatGroup cap) xs st)) (snd (fold (standardSeatGroup cap) xs st))"
    for xs
    using assms by (induction xs arbitrary: st) (simp_all add: standardSeatGroup_keysOK)
  then show ?thesis by (simp add: standardPhase_def)
qed

lemma standardTableIds_distinct:
  assumes "distinct (map fst tabs)"
  shows "distinct (standardTableIds tabs)"
  using assms
  by (simp add: standardTableIds_def sortAscBy_def currentStandardTableIds_def distinct_map_filter)

lemma mergeSparseTables_keysOK:
  assumes "keysOK tabs tc"
  shows "keysOK (mergeSparseTables tabs) tc"
  unfolding mergeSparseTables_def
proof (rule mergeLoop_rule [where P = "\<lambda>tabs. keysOK tabs tc"])
  show "keysOK tabs tc" by (rule assms)
  show "distinct (standardTableIds tabs)"
    using assms by (intro standardTableIds_distinct) (simp add: keysOK_def)
next
  fix tabs :: TableAssignments and idA idB and tableA tableB :: TableData
  assume "keysOK tabs tc"
  then show "keysOK (deleteProp idB (modifyTable idA (mergeInto tableB) tabs)) tc"
    by (simp add: keysOK_delete)
qed

lemma afterKnight_keysOK:
  "keysOK (fst (fst (afterKnight gs config))) (snd (fst (afterKnight gs config)))"
  unfolding afterKnight_def by (rule knightPhase_keysOK)

text \<open>The knight loop of one candidate keeps the capacity bound.\<close>

lemma knightStep_capOK:
  assumes "keysOK tabs tc" and "capOK tabs"
    and "knightStep cnt grp (gs, tabs, pool) = Continue s'"
  shows "capOK (fst (snd s'))"
proof -
  from assms(3) obtain tid t where t: "map_of tabs tid = Some t"
    and c: "firstFit (spaceOf t) gs \<noteq> []"
    and s: "fst (snd s') = modifyTable tid (seatLabelled grp (firstFit (spaceOf t) gs)) tabs"
    by (rule knightStep_Continue) auto
  have "getGuestsSize (firstFit (spaceOf t) gs) \<le> spaceOf t" using c by (rule firstFit_size)
  then show ?thesis
    unfolding s using assms(1,2) t by (intro capOK_seat) (simp_all add: keysOK_def)
qed

lemma knightSeatGroup_capOK:
  assumes "keysOK (fst st) tc" and "capOK (fst st)"
  shows "capOK (fst (knightSeatGroup cnt grp st))"
  unfolding knightSeatGroup_def
proof (rule knightWhile_rule [where I = "\<lambda>s. keysOK (fst (snd s)) tc \<and> capOK (fst (snd s))"])
  show "keysOK (fst (snd (guests grp, fst st, snd st))) tc
        \<and> capOK (fst (snd (guests grp, fst st, snd st)))"
    using assms by simp
next
  fix gs tabs pool s'
  assume "keysOK (fst (snd (gs, tabs, pool))) tc \<and> capOK (fst (snd (gs, tabs, pool)))"
    and "knightStep cnt grp (gs, tabs, pool) = Continue s'"
  then show "keysOK (fst (snd s')) tc \<and> capOK (fst (snd s'))"
    using knightStep_capOK [of tabs tc cnt grp gs pool s']
    by (simp add: knightStep_keysOK)
next
  fix gs tabs pool s'
  assume "keysOK (fst (snd (gs, tabs, pool))) tc \<and> capOK (fst (snd (gs, tabs, pool)))"
    and "gs \<noteq> []" and "knightStep cnt grp (gs, tabs, pool) = Break s'"
  then show "capOK (fst (snd s'))"
    using knightStep_Break [of cnt grp gs tabs pool s'] by auto
next
  fix tabs pool
  assume "keysOK (fst (snd ([], tabs, pool))) tc \<and> capOK (fst (snd ([], tabs, pool)))"
  then show "capOK (fst (tabs, pool))" by simp
qed

text \<open>So does the loop of one group in the standard phase; while members are unseated,
  \<open>groupSize\<close> is their size.\<close>

lemma standardStep_capOK:
  assumes k: "keysOK tabs tc" and ok: "capOK tabs" and n: "n = getGuestsSize gs"
    and ne: "gs \<noteq> []"
    and step: "standardStep cap grp (gs, n, tabs, tc) = Continue s'"
  shows "capOK (fst (snd (snd s'))) \<and> (fst s' = [] \<or> fst (snd s') = getGuestsSize (fst s'))"
proof (rule standardStep_cases [OF ne, where n = n and tabs = tabs and cap = cap
        and grp = grp and tc = tc])
  fix tid t
  assume t: "map_of tabs tid = Some t" "n \<le> spaceOf t"
    and "standardStep cap grp (gs, n, tabs, tc)
         = Continue ([], n, modifyTable tid (seatLabelled grp gs) tabs, tc)"
  with step have s: "s' = ([], n, modifyTable tid (seatLabelled grp gs) tabs, tc)" by simp
  have "capOK (modifyTable tid (seatLabelled grp gs) tabs)"
    using k ok t n by (intro capOK_seat) (simp_all add: keysOK_def)
  then show ?thesis by (simp add: s)
next
  assume "n \<le> cap"
    and "standardStep cap grp (gs, n, tabs, tc)
         = Continue ([], n, openTable grp cap gs tc tabs, Suc tc)"
  with step have s: "s' = ([], n, openTable grp cap gs tc tabs, Suc tc)" by simp
  show ?thesis using k ok n \<open>n \<le> cap\<close> by (simp add: s capOK_open)
next
  fix tid t
  assume t: "(tid, t) \<in> set tabs" "firstFit (spaceOf t) gs \<noteq> []"
    and "standardStep cap grp (gs, n, tabs, tc)
         = Continue (removeChunk (firstFit (spaceOf t) gs) gs,
                     getGuestsSize (removeChunk (firstFit (spaceOf t) gs) gs),
                     modifyTable tid (pushGuests (firstFit (spaceOf t) gs)) tabs, tc)"
  with step have s: "s' = (removeChunk (firstFit (spaceOf t) gs) gs,
                     getGuestsSize (removeChunk (firstFit (spaceOf t) gs) gs),
                     modifyTable tid (pushGuests (firstFit (spaceOf t) gs)) tabs, tc)" by simp
  have m: "map_of tabs tid = Some t" using k t(1) by (simp add: keysOK_def map_of_is_SomeI)
  have "getGuestsSize (firstFit (spaceOf t) gs) \<le> spaceOf t" using t(2) by (rule firstFit_size)
  then have "capOK (modifyTable tid (pushGuests (firstFit (spaceOf t) gs)) tabs)"
    using k ok m by (intro capOK_seat) (simp_all add: keysOK_def)
  then show ?thesis by (simp add: s)
next
  fix g rest
  assume "gs = g # rest"
    and "standardStep cap grp (gs, n, tabs, tc)
         = Continue (removeChunk (g # firstFit (cap - amountOf g) rest) gs,
                     getGuestsSize (removeChunk (g # firstFit (cap - amountOf g) rest) gs),
                     openTable grp (if cap < amountOf g then amountOf g else cap)
                               (g # firstFit (cap - amountOf g) rest) tc tabs,
                     Suc tc)"
  with step have s: "s' = (removeChunk (g # firstFit (cap - amountOf g) rest) gs,
                     getGuestsSize (removeChunk (g # firstFit (cap - amountOf g) rest) gs),
                     openTable grp (if cap < amountOf g then amountOf g else cap)
                               (g # firstFit (cap - amountOf g) rest) tc tabs,
                     Suc tc)" by simp
  have "capOK (openTable grp (if cap < amountOf g then amountOf g else cap)
                         (g # firstFit (cap - amountOf g) rest) tc tabs)"
    using k ok new_chunk_size [of g cap rest] by (intro capOK_open) simp_all
  then show ?thesis by (simp add: s)
qed

lemma standardSeatGroup_capOK:
  assumes "keysOK (fst st) (snd st)" and "capOK (fst st)"
  shows "capOK (fst (standardSeatGroup cap grp st))"
  unfolding standardSeatGroup_def
proof (rule standardWhile_rule
    [where I = "\<lambda>s. keysOK (fst (snd (snd s))) (snd (snd (snd s))) \<and> capOK (fst (snd (snd s)))
                    \<and> (fst s = [] \<or> fst (snd s) = getGuestsSize (fst s))"])
  show "keysOK (fst (snd (snd (guests grp, getGuestsSize (guests grp), fst st, snd st))))
              (snd (snd (snd (guests grp, getGuestsSize (guests grp), fst st, snd st))))
        \<and> capOK (fst (snd (snd (guests grp, getGuestsSize (guests grp), fst st, snd st))))
        \<and> (fst (guests grp, getGuestsSize (guests grp), fst st, snd st) = []
           \<or> fst (snd (guests grp, getGuestsSize (guests grp), fst st, snd st))
             = getGuestsSize (fst (guests grp, getGuestsSize (guests grp), fst st, snd st)))"
    using assms by simp
next
  fix gs n tabs tc s'
  assume "keysOK (fst (snd (snd (gs, n, tabs, tc)))) (snd (snd (snd (gs, n, tabs, tc))))
          \<and> capOK (fst (snd (snd (gs, n, tabs, tc))))
          \<and> (fst (gs, n, tabs, tc) = []
             \<or> fst (snd (gs, n, tabs, tc)) = getGuestsSize (fst (gs, n, tabs, tc)))"
    and "gs \<noteq> []" and "standardStep cap grp (gs, n, tabs, tc) = Continue s'"
  then show "keysOK (fst (snd (snd s'))) (snd (snd (snd s'))) \<and> capOK (fst (snd (snd s')))
             \<and> (fst s' = [] \<or> fst (snd s') = getGuestsSize (fst s'))"
    using standardStep_capOK [of tabs tc n gs cap grp s']
      standardStep_keysOK [of tabs tc gs cap grp n s']
    by simp
next
  fix n tabs tc
  assume "keysOK (fst (snd (snd ([], n, tabs, tc)))) (snd (snd (snd ([], n, tabs, tc))))
          \<and> capOK (fst (snd (snd ([], n, tabs, tc))))
          \<and> (fst ([], n, tabs, tc) = []
             \<or> fst (snd ([], n, tabs, tc)) = getGuestsSize (fst ([], n, tabs, tc)))"
  then show "capOK (fst (tabs, tc))" by simp
qed

text \<open>The phases.\<close>

lemma knightFold_capOK:
  assumes "keysOK (fst st) tc" and "capOK (fst st)"
  shows "capOK (fst (fold (knightSeatGroup cnt) cands st))"
  using assms
  by (induction cands arbitrary: st) (simp_all add: knightSeatGroup_keysOK knightSeatGroup_capOK)

lemma knightPhase_capOK: "capOK (fst (fst (knightPhase kc pgs)))"
proof (cases "knight_enabled kc \<and> 0 < knight_count kc")
  case False
  then show ?thesis by (simp add: knightPhase_idle capOK_def)
next
  case True
  have "capOK (fst (createKnightTables kc))"
    by (simp add: createKnightTables_eq capOK_def fits_def newKnightTable_def)
  then have "capOK (fst (fold (knightSeatGroup (knight_count kc))
                          (sortDescBy group_size (knightCandidatesOf pgs))
                          (fst (createKnightTables kc), standardPoolOf pgs)))"
    by (intro knightFold_capOK [where tc = "snd (createKnightTables kc)"])
       (simp_all add: createKnightTables_keysOK)
  then show ?thesis by (simp add: knightPhase_active [OF True])
qed

lemma standardPhase_capOK:
  assumes "keysOK (fst st) (snd st)" and "capOK (fst st)"
  shows "capOK (fst (standardPhase cap pool st))"
proof -
  have "capOK (fst (fold (standardSeatGroup cap) xs st))" for xs
    using assms
    by (induction xs arbitrary: st)
       (simp_all add: standardSeatGroup_keysOK standardSeatGroup_capOK)
  then show ?thesis by (simp add: standardPhase_def)
qed

lemma mergeSparseTables_capOK:
  assumes "keysOK tabs tc" and "capOK tabs"
  shows "capOK (mergeSparseTables tabs)"
proof -
  have "keysOK (mergeSparseTables tabs) tc \<and> capOK (mergeSparseTables tabs)"
    unfolding mergeSparseTables_def
  proof (rule mergeLoop_rule [where P = "\<lambda>tabs. keysOK tabs tc \<and> capOK tabs"])
    show "keysOK tabs tc \<and> capOK tabs" using assms by simp
    show "distinct (standardTableIds tabs)"
      using assms by (intro standardTableIds_distinct) (simp add: keysOK_def)
  next
    fix tabs :: TableAssignments and idA idB and tableA tableB :: TableData
    assume "keysOK tabs tc \<and> capOK tabs" and "map_of tabs idA = Some tableA"
      and "getGuestsSize (table_guests tableA) + getGuestsSize (table_guests tableB)
           \<le> table_capacity tableA"
    then show "keysOK (deleteProp idB (modifyTable idA (mergeInto tableB) tabs)) tc
               \<and> capOK (deleteProp idB (modifyTable idA (mergeInto tableB) tabs))"
      by (simp add: keysOK_delete capOK_merge keysOK_def [of tabs])
  qed
  then show ?thesis by simp
qed

definition mixedGuests :: "Guest list" where
  "mixedGuests = [mkGuest ''f1'' friend groom (Some ''F'') (Some 2),
                  mkGuest ''f2'' friend groom (Some ''F'') (Some 1),
                  mkGuest ''big'' family bride None (Some 15),
                  mkGuest ''x1'' family groom (Some ''X'') (Some 10),
                  mkGuest ''x2'' family groom (Some ''X'') (Some 8),
                  mkGuest ''s1'' colleague bride None None,
                  mkGuest ''s2'' other groom None (Some 1)]"

definition mixedConfig :: OptimizationConfig where
  "mixedConfig = mkConfig 12 (Some (mkKnights 1 4)) None"

section \<open>Groups hold input guests only\<close>

lemma setProp_values:
  "mset (concat (map snd (setProp k v ps))) \<subseteq># mset (concat (map snd ps)) + mset v"
proof (induction ps)
  case Nil
  then show ?case by simp
next
  case (Cons p ps)
  show ?case
  proof (cases "fst p = k")
    case True
    then show ?thesis by simp
  next
    case False
    have "mset (snd p) + mset (concat (map snd (setProp k v ps)))
          \<subseteq># mset (snd p) + (mset (concat (map snd ps)) + mset v)"
      using Cons.IH by (rule subset_mset.add_left_mono)
    then show ?thesis using False by (simp add: add.assoc)
  qed
qed

lemma setProp_replace:
  assumes "map_of ps k = Some old"
  shows "mset (concat (map snd (setProp k v ps))) + mset old
         = mset (concat (map snd ps)) + mset v"
  using assms
proof (induction ps)
  case Nil
  then show ?case by simp
next
  case (Cons p ps)
  show ?case
  proof (cases "fst p = k")
    case True
    with Cons.prems have "snd p = old" by (cases p) simp
    then show ?thesis using True by simp
  next
    case False
    with Cons.prems have "map_of ps k = Some old" by (cases p) simp
    then have "mset (concat (map snd (setProp k v ps))) + mset old
               = mset (concat (map snd ps)) + mset v" by (rule Cons.IH)
    then show ?thesis using False by (simp add: add.assoc)
  qed
qed

lemma pushGrouped_values:
  "mset (concat (map snd (pushGrouped key g groups)))
   = mset (concat (map snd groups)) + {#g#}"
proof (cases "map_of groups key")
  case None
  then have "key \<notin> fst ` set groups" by (simp add: map_of_eq_None_iff)
  then show ?thesis using None by (simp add: pushGrouped_def setProp_fresh)
next
  case (Some old)
  from setProp_replace [OF Some, of "old @ [g]"]
  show ?thesis using Some by (simp add: pushGrouped_def)
qed

lemma groupStep_values:
  "mset (concat (map snd (fst (groupStep g acc)))) + mset (snd (groupStep g acc))
   = mset (concat (map snd (fst acc))) + mset (snd acc) + {#g#}"
  by (cases acc) (simp add: groupStep_def pushGrouped_values split: option.splits)

lemma fold_groupStep_values:
  "mset (concat (map snd (fst (fold groupStep gs acc)))) + mset (snd (fold groupStep gs acc))
   = mset (concat (map snd (fst acc))) + mset (snd acc) + mset gs"
proof (induction gs arbitrary: acc)
  case Nil
  then show ?case by simp
next
  case (Cons g gs)
  show ?case using Cons.IH [of "groupStep g acc"] groupStep_values [of g acc] by simp
qed

lemma fold_individualStep_values:
  "mset (concat (map snd (fold individualStep us groups)))
   \<subseteq># mset (concat (map snd groups)) + mset us"
proof (induction us arbitrary: groups)
  case Nil
  then show ?case by simp
next
  case (Cons u us)
  have "mset (concat (map snd (fold individualStep us (individualStep u groups))))
        \<subseteq># mset (concat (map snd (individualStep u groups))) + mset us"
    by (rule Cons.IH)
  also have "\<dots> \<subseteq># (mset (concat (map snd groups)) + mset [u]) + mset us"
    unfolding individualStep_def by (intro subset_mset.add_right_mono setProp_values)
  finally show ?case by (simp add: add.assoc)
qed

lemma groupDict_values: "mset (concat (map snd (groupDict gs))) \<subseteq># mset gs"
proof -
  obtain groups ungrouped where f: "fold groupStep gs ([], []) = (groups, ungrouped)"
    by (cases "fold groupStep gs ([], [])")
  have "mset (concat (map snd groups)) + mset ungrouped = mset gs"
    using fold_groupStep_values [of gs "([], [])"] f by simp
  then show ?thesis
    using fold_individualStep_values [of ungrouped groups] f by (simp add: groupDict_def)
qed

lemma objectEntries_mset: "mset (objectEntries ps) = mset ps"
  by (simp add: objectEntries_def)

lemma classify_guests [simp]: "guests (classify targets grp) = guests grp"
  by (simp add: classify_def)

lemma processedGroups_values: "mset (poolGuests (processedGroupsOf gs config)) \<subseteq># mset gs"
proof -
  have "poolGuests (processedGroupsOf gs config) = concat (map snd (objectEntries (groupDict gs)))"
    by (simp add: poolGuests_def processedGroupsOf_def groupGuestsByRelationship_def
        comp_def mkGroup_def)
  moreover have "mset (concat (map snd (objectEntries (groupDict gs))))
                 = mset (concat (map snd (groupDict gs)))"
    by (rule mset_concat_cong) (rule objectEntries_mset)
  ultimately show ?thesis using groupDict_values [of gs] by simp
qed

section \<open>Widened tables\<close>

text \<open>A knight table has the knight capacity. A standard table has the standard capacity,
  unless it holds exactly one guest whose amount exceeds the standard capacity and equals
  the capacity of the table.\<close>

definition widened :: "int \<Rightarrow> TableData \<Rightarrow> bool" where
  "widened cap t = (\<exists>g. table_guests t = [g] \<and> amountOf g = table_capacity t
                        \<and> cap < amountOf g)"

definition wideOK :: "int \<Rightarrow> int \<Rightarrow> TableAssignments \<Rightarrow> bool" where
  "wideOK cap kcap tabs =
     (\<forall>p\<in>set tabs. if table_isKnight (snd p) then table_capacity (snd p) = kcap
                    else table_capacity (snd p) = cap \<or> widened cap (snd p))"

definition positive :: "Guest list \<Rightarrow> bool" where
  "positive gs = (\<forall>g\<in>set gs. 1 \<le> amountOf g)"

lemma widened_full: "widened cap t \<Longrightarrow> spaceOf t = 0"
  by (auto simp: widened_def spaceOf_def)

lemma wideOK_seat:
  assumes "distinct (map fst tabs)" and "wideOK cap kcap tabs" and "map_of tabs tid = Some t"
    and "0 < spaceOf t"
    and "\<And>u. table_capacity (f u) = table_capacity u"
    and "\<And>u. table_isKnight (f u) = table_isKnight u"
  shows "wideOK cap kcap (modifyTable tid f tabs)"
  unfolding wideOK_def
proof
  fix p assume "p \<in> set (modifyTable tid f tabs)"
  then consider (old) "p \<in> set tabs" | (new) u where "(tid, u) \<in> set tabs" "p = (tid, f u)"
    using modifyTable_set by blast
  then show "if table_isKnight (snd p) then table_capacity (snd p) = kcap
             else table_capacity (snd p) = cap \<or> widened cap (snd p)"
  proof cases
    case old
    then show ?thesis using assms(2) by (simp add: wideOK_def)
  next
    case new
    then have u: "u = t" using distinct_key_unique [OF assms(1) _ assms(3)] by blast
    have "\<not> widened cap t" using assms(4) widened_full [of cap t] by auto
    moreover have "if table_isKnight t then table_capacity t = kcap
                   else table_capacity t = cap \<or> widened cap t"
      using assms(2) new(1) u by (auto simp: wideOK_def)
    ultimately show ?thesis using new u assms(5,6) by (simp split: if_splits)
  qed
qed

lemma wideOK_open:
  assumes "keysOK tabs tc" and "wideOK cap kcap tabs"
    and "c = cap \<or> (\<exists>g. chunk = [g] \<and> amountOf g = c \<and> cap < amountOf g)"
  shows "wideOK cap kcap (openTable grp c chunk tc tabs)"
  using assms by (auto simp: openTable_append wideOK_def newStandardTable_def widened_def)

lemma wideOK_delete: "wideOK cap kcap tabs \<Longrightarrow> wideOK cap kcap (deleteProp k tabs)"
  by (auto simp: wideOK_def deleteProp_set)

lemma positive_size: "positive gs \<Longrightarrow> gs \<noteq> [] \<Longrightarrow> 1 \<le> getGuestsSize gs"
proof (induction gs)
  case Nil
  then show ?case by simp
next
  case (Cons g gs)
  have "\<forall>x\<in>set gs. 0 \<le> amountOf x" using Cons.prems(1) by (fastforce simp: positive_def)
  then have "0 \<le> getGuestsSize gs" by (rule getGuestsSize_nonneg)
  moreover have "1 \<le> amountOf g" using Cons.prems(1) by (simp add: positive_def)
  ultimately show ?case by simp
qed

lemma removeById_set: "set (removeById i xs) \<subseteq> set xs"
  by (induction xs) auto

lemma removeChunk_set: "set (removeChunk c xs) \<subseteq> set xs"
proof (induction c arbitrary: xs)
  case Nil
  then show ?case by (simp add: removeChunk_def)
next
  case (Cons g c)
  have "set (removeChunk c (removeById (guest_id g) xs)) \<subseteq> set (removeById (guest_id g) xs)"
    by (rule Cons.IH)
  then show ?case using removeById_set [of "guest_id g" xs] by (auto simp: removeChunk_def)
qed

lemma positive_removeChunk: "positive gs \<Longrightarrow> positive (removeChunk c gs)"
  using removeChunk_set [of c gs] by (auto simp: positive_def)

lemma knightStep_wideOK:
  assumes "keysOK tabs tc" and "wideOK cap kcap tabs"
    and "knightStep cnt grp (gs, tabs, pool) = Continue s'"
  shows "wideOK cap kcap (fst (snd s'))"
proof -
  from assms(3) obtain tid t where t: "map_of tabs tid = Some t" "0 < spaceOf t"
    and s: "fst (snd s') = modifyTable tid (seatLabelled grp (firstFit (spaceOf t) gs)) tabs"
    by (rule knightStep_Continue) auto
  show ?thesis
    unfolding s using assms(1,2) t by (intro wideOK_seat) (simp_all add: keysOK_def)
qed

lemma standardStep_wideOK:
  assumes k: "keysOK tabs tc" and ok: "wideOK cap kcap tabs" and pos: "positive gs"
    and n: "n = getGuestsSize gs" and ne: "gs \<noteq> []"
    and step: "standardStep cap grp (gs, n, tabs, tc) = Continue s'"
  shows "wideOK cap kcap (fst (snd (snd s'))) \<and> positive (fst s')
         \<and> (fst s' = [] \<or> fst (snd s') = getGuestsSize (fst s'))"
proof (rule standardStep_cases [OF ne, where n = n and tabs = tabs and cap = cap
        and grp = grp and tc = tc])
  fix tid t
  assume t: "map_of tabs tid = Some t" "n \<le> spaceOf t"
    and "standardStep cap grp (gs, n, tabs, tc)
         = Continue ([], n, modifyTable tid (seatLabelled grp gs) tabs, tc)"
  with step have s: "s' = ([], n, modifyTable tid (seatLabelled grp gs) tabs, tc)" by simp
  have "0 < spaceOf t" using positive_size [OF pos ne] n t(2) by simp
  then have "wideOK cap kcap (modifyTable tid (seatLabelled grp gs) tabs)"
    using k ok t by (intro wideOK_seat) (simp_all add: keysOK_def)
  then show ?thesis by (simp add: s positive_def)
next
  assume "standardStep cap grp (gs, n, tabs, tc)
          = Continue ([], n, openTable grp cap gs tc tabs, Suc tc)"
  with step have s: "s' = ([], n, openTable grp cap gs tc tabs, Suc tc)" by simp
  show ?thesis using k ok by (simp add: s wideOK_open positive_def)
next
  fix tid t
  assume t: "(tid, t) \<in> set tabs" "0 < spaceOf t"
    and "standardStep cap grp (gs, n, tabs, tc)
         = Continue (removeChunk (firstFit (spaceOf t) gs) gs,
                     getGuestsSize (removeChunk (firstFit (spaceOf t) gs) gs),
                     modifyTable tid (pushGuests (firstFit (spaceOf t) gs)) tabs, tc)"
  with step have s: "s' = (removeChunk (firstFit (spaceOf t) gs) gs,
                     getGuestsSize (removeChunk (firstFit (spaceOf t) gs) gs),
                     modifyTable tid (pushGuests (firstFit (spaceOf t) gs)) tabs, tc)" by simp
  have m: "map_of tabs tid = Some t" using k t(1) by (simp add: keysOK_def map_of_is_SomeI)
  have "wideOK cap kcap (modifyTable tid (pushGuests (firstFit (spaceOf t) gs)) tabs)"
    using k ok m t(2) by (intro wideOK_seat) (simp_all add: keysOK_def)
  then show ?thesis using pos by (simp add: s positive_removeChunk)
next
  fix g rest
  assume gs: "gs = g # rest"
    and "standardStep cap grp (gs, n, tabs, tc)
         = Continue (removeChunk (g # firstFit (cap - amountOf g) rest) gs,
                     getGuestsSize (removeChunk (g # firstFit (cap - amountOf g) rest) gs),
                     openTable grp (if cap < amountOf g then amountOf g else cap)
                               (g # firstFit (cap - amountOf g) rest) tc tabs,
                     Suc tc)"
  with step have s: "s' = (removeChunk (g # firstFit (cap - amountOf g) rest) gs,
                     getGuestsSize (removeChunk (g # firstFit (cap - amountOf g) rest) gs),
                     openTable grp (if cap < amountOf g then amountOf g else cap)
                               (g # firstFit (cap - amountOf g) rest) tc tabs,
                     Suc tc)" by simp
  have "cap < amountOf g \<Longrightarrow> firstFit (cap - amountOf g) rest = []"
    using pos gs by (intro firstFit_none) (auto simp: positive_def)
  then have "wideOK cap kcap (openTable grp (if cap < amountOf g then amountOf g else cap)
                         (g # firstFit (cap - amountOf g) rest) tc tabs)"
    using k ok by (intro wideOK_open) auto
  then show ?thesis using pos by (simp add: s positive_removeChunk)
qed

lemma positive_subset: "set xs \<subseteq> set ys \<Longrightarrow> positive ys \<Longrightarrow> positive xs"
  by (auto simp: positive_def)

lemma positive_append [simp]: "positive (xs @ ys) = (positive xs \<and> positive ys)"
  by (auto simp: positive_def)

lemma leftoverGroup_guests [simp]: "guests (leftoverGroup grp gs) = gs"
  by (simp add: leftoverGroup_def)

lemma poolGuests_simps [simp]:
  "poolGuests [] = []"
  "poolGuests (x # xs) = guests x @ poolGuests xs"
  by (simp_all add: poolGuests_def)

lemma knightStep_Continue_rest:
  assumes "knightStep cnt grp (gs, tabs, pool) = Continue s'"
  shows "set (fst s') \<subseteq> set gs \<and> snd (snd s') = pool"
  using assms by (rule knightStep_Continue) (simp add: removeChunk_set)

lemma knightSeatGroup_wideOK:
  assumes "keysOK (fst st) tc" and "wideOK cap kcap (fst st)"
    and "positive (poolGuests (snd st))" and "positive (guests grp)"
  shows "wideOK cap kcap (fst (knightSeatGroup cnt grp st))
         \<and> positive (poolGuests (snd (knightSeatGroup cnt grp st)))"
  unfolding knightSeatGroup_def
proof (rule knightWhile_rule
    [where I = "\<lambda>s. keysOK (fst (snd s)) tc \<and> wideOK cap kcap (fst (snd s))
                    \<and> positive (fst s) \<and> positive (poolGuests (snd (snd s)))"])
  show "keysOK (fst (snd (guests grp, fst st, snd st))) tc
        \<and> wideOK cap kcap (fst (snd (guests grp, fst st, snd st)))
        \<and> positive (fst (guests grp, fst st, snd st))
        \<and> positive (poolGuests (snd (snd (guests grp, fst st, snd st))))"
    using assms by simp
next
  fix gs tabs pool s'
  assume "keysOK (fst (snd (gs, tabs, pool))) tc \<and> wideOK cap kcap (fst (snd (gs, tabs, pool)))
          \<and> positive (fst (gs, tabs, pool)) \<and> positive (poolGuests (snd (snd (gs, tabs, pool))))"
    and step: "knightStep cnt grp (gs, tabs, pool) = Continue s'"
  then have i: "keysOK tabs tc" "wideOK cap kcap tabs" "positive gs" "positive (poolGuests pool)"
    by simp_all
  have "positive (fst s')"
    using knightStep_Continue_rest [OF step] i(3) by (auto intro: positive_subset)
  then show "keysOK (fst (snd s')) tc \<and> wideOK cap kcap (fst (snd s'))
             \<and> positive (fst s') \<and> positive (poolGuests (snd (snd s')))"
    using i knightStep_wideOK [OF i(1,2) step] knightStep_Continue_rest [OF step]
    by (simp add: knightStep_keysOK [OF step])
next
  fix gs tabs pool s'
  assume "keysOK (fst (snd (gs, tabs, pool))) tc \<and> wideOK cap kcap (fst (snd (gs, tabs, pool)))
          \<and> positive (fst (gs, tabs, pool)) \<and> positive (poolGuests (snd (snd (gs, tabs, pool))))"
    and "gs \<noteq> []" and "knightStep cnt grp (gs, tabs, pool) = Break s'"
  then show "wideOK cap kcap (fst (snd s')) \<and> positive (poolGuests (snd (snd s')))"
    using knightStep_Break [of cnt grp gs tabs pool s'] by (auto simp: poolGuests_append)
next
  fix tabs pool
  assume "keysOK (fst (snd ([], tabs, pool))) tc \<and> wideOK cap kcap (fst (snd ([], tabs, pool)))
          \<and> positive (fst ([], tabs, pool)) \<and> positive (poolGuests (snd (snd ([], tabs, pool))))"
  then show "wideOK cap kcap (fst (tabs, pool)) \<and> positive (poolGuests (snd (tabs, pool)))"
    by simp
qed

lemma knightFold_wideOK:
  assumes "keysOK (fst st) tc" and "wideOK cap kcap (fst st)"
    and "positive (poolGuests (snd st))" and "positive (poolGuests cands)"
  shows "wideOK cap kcap (fst (fold (knightSeatGroup cnt) cands st))
         \<and> positive (poolGuests (snd (fold (knightSeatGroup cnt) cands st)))"
  using assms
proof (induction cands arbitrary: st)
  case Nil
  then show ?case by simp
next
  case (Cons c cands)
  have p: "positive (guests c)" "positive (poolGuests cands)" using Cons.prems(4) by simp_all
  have "wideOK cap kcap (fst (knightSeatGroup cnt c st))
        \<and> positive (poolGuests (snd (knightSeatGroup cnt c st)))"
    using Cons.prems(1,2,3) p(1) by (rule knightSeatGroup_wideOK)
  moreover have "keysOK (fst (knightSeatGroup cnt c st)) tc"
    using Cons.prems(1) by (rule knightSeatGroup_keysOK)
  ultimately show ?case using Cons.IH [of "knightSeatGroup cnt c st"] p(2) by simp
qed

lemma poolGuests_filter_set: "set (poolGuests (filter P pgs)) \<subseteq> set (poolGuests pgs)"
  by (auto simp: poolGuests_def)

lemma poolGuests_sort_set [simp]: "set (poolGuests (sortDescBy f pgs)) = set (poolGuests pgs)"
  by (simp add: poolGuests_def sortDescBy_def)

lemma positive_candidates:
  assumes "positive (poolGuests pgs)"
  shows "positive (poolGuests (knightCandidatesOf pgs))"
    and "positive (poolGuests (standardPoolOf pgs))"
  using assms poolGuests_filter_set [of _ pgs]
  by (auto simp: knightCandidatesOf_def standardPoolOf_def Let_def intro: positive_subset)

lemma knightPhase_wideOK:
  assumes "positive (poolGuests pgs)"
  shows "wideOK cap (knight_capacity kc) (fst (fst (knightPhase kc pgs)))
         \<and> positive (poolGuests (snd (knightPhase kc pgs)))"
proof (cases "knight_enabled kc \<and> 0 < knight_count kc")
  case False
  then show ?thesis using assms by (simp add: knightPhase_idle wideOK_def)
next
  case True
  have "wideOK cap (knight_capacity kc) (fst (createKnightTables kc))"
    by (simp add: createKnightTables_eq wideOK_def newKnightTable_def)
  moreover have "positive (poolGuests (sortDescBy group_size (knightCandidatesOf pgs)))"
    using positive_candidates(1) [OF assms] by (auto intro: positive_subset)
  ultimately have "wideOK cap (knight_capacity kc)
           (fst (fold (knightSeatGroup (knight_count kc))
                      (sortDescBy group_size (knightCandidatesOf pgs))
                      (fst (createKnightTables kc), standardPoolOf pgs)))
        \<and> positive (poolGuests (snd (fold (knightSeatGroup (knight_count kc))
                      (sortDescBy group_size (knightCandidatesOf pgs))
                      (fst (createKnightTables kc), standardPoolOf pgs))))"
    using positive_candidates(2) [OF assms]
    by (intro knightFold_wideOK [where tc = "snd (createKnightTables kc)"])
       (simp_all add: createKnightTables_keysOK)
  then show ?thesis by (simp add: knightPhase_active [OF True])
qed

lemma standardSeatGroup_wideOK:
  assumes "keysOK (fst st) (snd st)" and "wideOK cap kcap (fst st)" and "positive (guests grp)"
  shows "wideOK cap kcap (fst (standardSeatGroup cap grp st))"
  unfolding standardSeatGroup_def
proof (rule standardWhile_rule
    [where I = "\<lambda>s. keysOK (fst (snd (snd s))) (snd (snd (snd s)))
                    \<and> wideOK cap kcap (fst (snd (snd s))) \<and> positive (fst s)
                    \<and> (fst s = [] \<or> fst (snd s) = getGuestsSize (fst s))"])
  show "keysOK (fst (snd (snd (guests grp, getGuestsSize (guests grp), fst st, snd st))))
              (snd (snd (snd (guests grp, getGuestsSize (guests grp), fst st, snd st))))
        \<and> wideOK cap kcap (fst (snd (snd (guests grp, getGuestsSize (guests grp), fst st, snd st))))
        \<and> positive (fst (guests grp, getGuestsSize (guests grp), fst st, snd st))
        \<and> (fst (guests grp, getGuestsSize (guests grp), fst st, snd st) = []
           \<or> fst (snd (guests grp, getGuestsSize (guests grp), fst st, snd st))
             = getGuestsSize (fst (guests grp, getGuestsSize (guests grp), fst st, snd st)))"
    using assms by simp
next
  fix gs n tabs tc s'
  assume "keysOK (fst (snd (snd (gs, n, tabs, tc)))) (snd (snd (snd (gs, n, tabs, tc))))
          \<and> wideOK cap kcap (fst (snd (snd (gs, n, tabs, tc)))) \<and> positive (fst (gs, n, tabs, tc))
          \<and> (fst (gs, n, tabs, tc) = []
             \<or> fst (snd (gs, n, tabs, tc)) = getGuestsSize (fst (gs, n, tabs, tc)))"
    and "gs \<noteq> []" and "standardStep cap grp (gs, n, tabs, tc) = Continue s'"
  then show "keysOK (fst (snd (snd s'))) (snd (snd (snd s')))
             \<and> wideOK cap kcap (fst (snd (snd s'))) \<and> positive (fst s')
             \<and> (fst s' = [] \<or> fst (snd s') = getGuestsSize (fst s'))"
    using standardStep_wideOK [of tabs tc cap kcap gs n grp s']
      standardStep_keysOK [of tabs tc gs cap grp n s']
    by simp
next
  fix n tabs tc
  assume "keysOK (fst (snd (snd ([], n, tabs, tc)))) (snd (snd (snd ([], n, tabs, tc))))
          \<and> wideOK cap kcap (fst (snd (snd ([], n, tabs, tc)))) \<and> positive (fst ([], n, tabs, tc))
          \<and> (fst ([], n, tabs, tc) = []
             \<or> fst (snd ([], n, tabs, tc)) = getGuestsSize (fst ([], n, tabs, tc)))"
  then show "wideOK cap kcap (fst (tabs, tc))" by simp
qed

lemma standardFold_wideOK:
  assumes "keysOK (fst st) (snd st)" and "wideOK cap kcap (fst st)" and "positive (poolGuests xs)"
  shows "wideOK cap kcap (fst (fold (standardSeatGroup cap) xs st))"
  using assms
proof (induction xs arbitrary: st)
  case Nil
  then show ?case by simp
next
  case (Cons x xs)
  have p: "positive (guests x)" "positive (poolGuests xs)" using Cons.prems(3) by simp_all
  have "wideOK cap kcap (fst (standardSeatGroup cap x st))"
    using Cons.prems(1,2) p(1) by (rule standardSeatGroup_wideOK)
  moreover have "keysOK (fst (standardSeatGroup cap x st)) (snd (standardSeatGroup cap x st))"
    using Cons.prems(1) by (rule standardSeatGroup_keysOK)
  ultimately show ?case using Cons.IH [of "standardSeatGroup cap x st"] p(2) by simp
qed

lemma standardPhase_wideOK:
  assumes "keysOK (fst st) (snd st)" and "wideOK cap kcap (fst st)" and "positive (poolGuests pool)"
  shows "wideOK cap kcap (fst (standardPhase cap pool st))"
  unfolding standardPhase_def
  using assms by (intro standardFold_wideOK) (auto intro: positive_subset)

lemma mergeSparseTables_wideOK:
  assumes "keysOK tabs tc" and "wideOK cap kcap tabs"
  shows "wideOK cap kcap (mergeSparseTables tabs)"
proof -
  have "keysOK (mergeSparseTables tabs) tc \<and> wideOK cap kcap (mergeSparseTables tabs)"
    unfolding mergeSparseTables_def
  proof (rule mergeLoop_rule [where P = "\<lambda>tabs. keysOK tabs tc \<and> wideOK cap kcap tabs"])
    show "keysOK tabs tc \<and> wideOK cap kcap tabs" using assms by simp
    show "distinct (standardTableIds tabs)"
      using assms by (intro standardTableIds_distinct) (simp add: keysOK_def)
  next
    fix tabs :: TableAssignments and idA idB and tableA tableB :: TableData
    assume a: "keysOK tabs tc \<and> wideOK cap kcap tabs" "map_of tabs idA = Some tableA"
      "getGuestsSize (table_guests tableA) < table_capacity tableA"
    have "wideOK cap kcap (modifyTable idA (mergeInto tableB) tabs)"
      using a by (intro wideOK_seat [where t = tableA]) (simp_all add: keysOK_def spaceOf_def)
    then show "keysOK (deleteProp idB (modifyTable idA (mergeInto tableB) tabs)) tc
               \<and> wideOK cap kcap (deleteProp idB (modifyTable idA (mergeInto tableB) tabs))"
      using a(1) by (simp add: keysOK_delete wideOK_delete)
  qed
  then show ?thesis by simp
qed

lemma afterMerge_wideOK:
  assumes "positive gs"
  shows "wideOK (tableCapacityOf config) (knight_capacity (knightConfigOf config))
                (afterMerge gs config)"
proof -
  have "set (poolGuests (processedGroupsOf gs config)) \<subseteq> set gs"
    using processedGroups_values [of gs config] by (auto dest: mset_subset_eqD)
  then have p: "positive (poolGuests (processedGroupsOf gs config))"
    using assms by (rule positive_subset)
  let ?k = "afterKnight gs config"
  have k1: "keysOK (fst (fst ?k)) (snd (fst ?k))" by (rule afterKnight_keysOK)
  have w1: "wideOK (tableCapacityOf config) (knight_capacity (knightConfigOf config)) (fst (fst ?k))
            \<and> positive (poolGuests (snd ?k))"
    unfolding afterKnight_def using p by (rule knightPhase_wideOK)
  let ?st = "standardPhase (tableCapacityOf config) (snd ?k) (fst ?k)"
  have k2: "keysOK (fst ?st) (snd ?st)" using k1 by (rule standardPhase_keysOK)
  have w2: "wideOK (tableCapacityOf config) (knight_capacity (knightConfigOf config)) (fst ?st)"
    using k1 w1 by (intro standardPhase_wideOK) simp_all
  show ?thesis
    unfolding afterMerge_def afterStandard_def using k2 w2 by (rule mergeSparseTables_wideOK)
qed

definition oversizedGuests :: "Guest list" where
  "oversizedGuests = [mkGuest ''a'' family groom None (Some 15)]"

text \<open>C8. Seat amounts are at least 1. In the returned result every knight table has the
  knight capacity and every standard table has the standard capacity, except a table that
  holds exactly one guest whose amount exceeds the standard capacity; the capacity of such a
  table is exactly that guest's amount. The only place a capacity other than the standard
  one arises is the fill of a brand-new standard table: it yields the first unseated member
  alone with that member's amount as capacity when the amount exceeds the standard
  capacity, and the standard capacity otherwise; seating into an existing table and
  merging leave the capacity of a table unchanged. For a single guest with amount 15 and
  standard capacity 12 the result is exactly one table, with capacity 15 and occupancy
  15.\<close>

theorem widening_only_for_oversized_first_guest:
  assumes "\<forall>g\<in>set gs. 1 \<le> amountOf g"
  shows "(\<forall>t\<in>set (tables (optimizeSeating gs config)).
            if table_isKnight t
            then table_capacity t = knight_capacity (knightConfigOf config)
            else table_capacity t = tableCapacityOf config
                 \<or> (\<exists>g. table_guests t = [g] \<and> amountOf g = table_capacity t
                         \<and> tableCapacityOf config < amountOf g))
    \<and> ((\<forall>x\<in>set (g # rest). 1 \<le> amountOf x)
         \<longrightarrow> fillNewTable cap (g # rest)
             = (if cap < amountOf g then ([g], amountOf g) else (firstFit cap (g # rest), cap)))
    \<and> table_capacity (seatLabelled grp chunk t) = table_capacity t
    \<and> table_capacity (pushGuests chunk t) = table_capacity t
    \<and> table_capacity (mergeInto b t) = table_capacity t
    \<and> map (\<lambda>t. (table_id t, table_isKnight t, table_capacity t, table_guests t))
           (tables (optimizeSeating oversizedGuests (mkConfig 12 None None)))
        = [(0, False, 15, oversizedGuests)]
    \<and> getGuestsSize oversizedGuests = 15"
proof -
  have "wideOK (tableCapacityOf config) (knight_capacity (knightConfigOf config))
               (afterMerge gs config)"
    using assms by (intro afterMerge_wideOK) (simp add: positive_def)
  then have w: "\<forall>p\<in>set (afterMerge gs config).
            if table_isKnight (snd p)
            then table_capacity (snd p) = knight_capacity (knightConfigOf config)
            else table_capacity (snd p) = tableCapacityOf config
                 \<or> (\<exists>g. table_guests (snd p) = [g] \<and> amountOf g = table_capacity (snd p)
                         \<and> tableCapacityOf config < amountOf g)"
    unfolding wideOK_def widened_def .
  have run: "\<forall>t\<in>set (tables (optimizeSeating gs config)).
            if table_isKnight t
            then table_capacity t = knight_capacity (knightConfigOf config)
            else table_capacity t = tableCapacityOf config
                 \<or> (\<exists>g. table_guests t = [g] \<and> amountOf g = table_capacity t
                         \<and> tableCapacityOf config < amountOf g)"
  proof
    fix t assume "t \<in> set (tables (optimizeSeating gs config))"
    then obtain p where p: "p \<in> set (afterMerge gs config)" and t: "t = toOptimizedTable p"
      by (auto simp: optimizeSeating_def)
    from w p show "if table_isKnight t
            then table_capacity t = knight_capacity (knightConfigOf config)
            else table_capacity t = tableCapacityOf config
                 \<or> (\<exists>g. table_guests t = [g] \<and> amountOf g = table_capacity t
                         \<and> tableCapacityOf config < amountOf g)"
      unfolding t toOptimizedTable_def by (simp split: if_splits)
  qed
  have new: "(\<forall>x\<in>set (g # rest). 1 \<le> amountOf x)
         \<longrightarrow> fillNewTable cap (g # rest)
             = (if cap < amountOf g then ([g], amountOf g) else (firstFit cap (g # rest), cap))"
  proof (cases "cap < amountOf g")
    case True
    show ?thesis
    proof
      assume "\<forall>x\<in>set (g # rest). 1 \<le> amountOf x"
      then have "\<forall>x\<in>set rest. 1 \<le> amountOf x" by simp
      with True have "fillNewTable cap (g # rest) = ([g], amountOf g)"
        by (rule fillNewTable_oversized)
      then show "fillNewTable cap (g # rest)
             = (if cap < amountOf g then ([g], amountOf g) else (firstFit cap (g # rest), cap))"
        using True by simp
    qed
  next
    case False
    then show ?thesis by (simp add: fillNewTable_Cons)
  qed
  have scenario: "map (\<lambda>t. (table_id t, table_isKnight t, table_capacity t, table_guests t))
           (tables (optimizeSeating oversizedGuests (mkConfig 12 None None)))
        = [(0, False, 15, oversizedGuests)]"
    by code_simp
  have size: "getGuestsSize oversizedGuests = 15"
    by (simp add: oversizedGuests_def mkGuest_def amountOf_def)
  show ?thesis using run new scenario size by simp
qed

theorem widening_only_for_oversized_first_guest_witness:
  "list_all (\<lambda>g. 1 \<le> amountOf g) mixedGuests
   \<and> list_all (\<lambda>t. if table_isKnight t
                    then table_capacity t = knight_capacity (knightConfigOf mixedConfig)
                    else table_capacity t = tableCapacityOf mixedConfig
                         \<or> (\<exists>g. table_guests t = [g] \<and> amountOf g = table_capacity t
                                 \<and> tableCapacityOf mixedConfig < amountOf g))
              (tables (optimizeSeating mixedGuests mixedConfig))
   \<and> map (\<lambda>t. (table_isKnight t, table_capacity t, map guest_id (table_guests t)))
          (tables (optimizeSeating mixedGuests mixedConfig))
       = [(True, 4, [''f1'', ''f2'']), (False, 12, [''x1'', ''s2'']), (False, 15, [''big'']),
          (False, 12, [''s1'', ''x2''])]
   \<and> list_all (\<lambda>x. 1 \<le> amountOf x) (hd mixedGuests # tl mixedGuests)
   \<and> fillNewTable 1 (hd mixedGuests # tl mixedGuests) = ([hd mixedGuests], 2)"
proof -
  have h: "\<forall>g\<in>set mixedGuests. 1 \<le> amountOf g"
    by (simp add: mixedGuests_def mkGuest_def amountOf_def)
  have h': "\<forall>x\<in>set (hd mixedGuests # tl mixedGuests). 1 \<le> amountOf x"
    by (simp add: mixedGuests_def mkGuest_def amountOf_def)
  have a: "amountOf (hd mixedGuests) = 2"
    by (simp add: mixedGuests_def mkGuest_def amountOf_def)
  have run: "map (\<lambda>t. (table_isKnight t, table_capacity t, map guest_id (table_guests t)))
          (tables (optimizeSeating mixedGuests mixedConfig))
       = [(True, 4, [''f1'', ''f2'']), (False, 12, [''x1'', ''s2'']), (False, 15, [''big'']),
          (False, 12, [''s1'', ''x2''])]"
    by code_simp
  note inst = widening_only_for_oversized_first_guest
    [OF h, of mixedConfig "hd mixedGuests" "tl mixedGuests" 1]
  from inst have t1: "list_all (\<lambda>t. if table_isKnight t
                    then table_capacity t = knight_capacity (knightConfigOf mixedConfig)
                    else table_capacity t = tableCapacityOf mixedConfig
                         \<or> (\<exists>g. table_guests t = [g] \<and> amountOf g = table_capacity t
                                 \<and> tableCapacityOf mixedConfig < amountOf g))
              (tables (optimizeSeating mixedGuests mixedConfig))"
    unfolding list_all_iff by (rule conjunct1)
  from inst h' a have t2: "fillNewTable 1 (hd mixedGuests # tl mixedGuests) = ([hd mixedGuests], 2)"
    by simp
  show ?thesis using h h' t1 t2 run by (simp add: list_all_iff)
qed

section \<open>Occupancy against the final and the declared capacity\<close>

text \<open>The capacity a table is declared with: the knight capacity for a knight table, the
  standard capacity for a standard table.\<close>

definition declaredCapacity :: "OptimizationConfig \<Rightarrow> bool \<Rightarrow> int" where
  "declaredCapacity config knight =
     (if knight then knight_capacity (knightConfigOf config) else tableCapacityOf config)"

definition twoOversizedGuests :: "Guest list" where
  "twoOversizedGuests = [mkGuest ''a'' family groom None (Some 15),
                         mkGuest ''b'' family bride None (Some 15)]"

text \<open>C7, counterexample. Two guests of 15 seats each, standard capacity 12, no knight
  tables: each guest opens a table of its own that is widened to 15, so two tables of the
  result have an occupancy above the declared capacity, not at most one. And with one knight
  table of capacity -1 and no guests, the knight table of the result is empty, its occupancy
  0 above its capacity.\<close>

theorem several_tables_exceed_declared_capacity:
  "map (\<lambda>t. (table_id t, table_isKnight t, getGuestsSize (table_guests t), table_capacity t))
       (tables (optimizeSeating twoOversizedGuests (mkConfig 12 None None)))
     = [(0, False, 15, 15), (1, False, 15, 15)]
   \<and> declaredCapacity (mkConfig 12 None None) False = 12
   \<and> length (filter (\<lambda>t. declaredCapacity (mkConfig 12 None None) (table_isKnight t)
                              < getGuestsSize (table_guests t))
                     (tables (optimizeSeating twoOversizedGuests (mkConfig 12 None None)))) = 2
   \<and> map (\<lambda>t. (table_id t, table_isKnight t, getGuestsSize (table_guests t), table_capacity t))
          (tables (optimizeSeating [] (mkConfig 12 (Some (mkKnights 1 (- 1))) None)))
       = [(0, True, 0, - 1)]"
  by code_simp

text \<open>C7, as amended. After the knight pass, after the standard pass and after the
  consolidation pass every working table holds at most its capacity, and so does every
  table of the returned result, where the capacity is the final one: a table widened for an
  oversized guest has that guest's amount as capacity. The one exception is a knight table
  of a negative knight capacity, which stays empty. Measured against the declared capacity,
  and with seat amounts of at least 1: a table of the result holds at most its declared
  capacity, or it is such an empty knight table, or it is a standard table that holds
  exactly one guest, whose amount exceeds the standard capacity and is the capacity of the
  table; the number of tables of the last kind is not bounded.\<close>

theorem occupancy_within_final_capacity:
  "capOK (fst (fst (afterKnight gs config)))
   \<and> capOK (afterStandard gs config)
   \<and> capOK (afterMerge gs config)
   \<and> (\<forall>t\<in>set (tables (optimizeSeating gs config)).
         getGuestsSize (table_guests t) \<le> table_capacity t
         \<or> (table_isKnight t \<and> table_guests t = [] \<and> table_capacity t < 0))
   \<and> ((\<forall>g\<in>set gs. 1 \<le> amountOf g) \<longrightarrow>
        (\<forall>t\<in>set (tables (optimizeSeating gs config)).
           getGuestsSize (table_guests t) \<le> declaredCapacity config (table_isKnight t)
           \<or> (table_isKnight t \<and> table_guests t = [] \<and> declaredCapacity config True < 0)
           \<or> (\<exists>g. table_guests t = [g] \<and> tableCapacityOf config < amountOf g
                    \<and> table_capacity t = amountOf g \<and> \<not> table_isKnight t)))"
proof -
  let ?cap = "tableCapacityOf config"
  let ?kcap = "knight_capacity (knightConfigOf config)"
  have k1: "keysOK (fst (fst (afterKnight gs config))) (snd (fst (afterKnight gs config)))"
    by (rule afterKnight_keysOK)
  have c1: "capOK (fst (fst (afterKnight gs config)))"
    unfolding afterKnight_def by (rule knightPhase_capOK)
  let ?st = "standardPhase ?cap (snd (afterKnight gs config)) (fst (afterKnight gs config))"
  have k2: "keysOK (fst ?st) (snd ?st)" using k1 by (rule standardPhase_keysOK)
  have c2: "capOK (fst ?st)" using k1 c1 by (rule standardPhase_capOK)
  have c3: "capOK (mergeSparseTables (fst ?st))" using k2 c2 by (rule mergeSparseTables_capOK)
  have m: "afterMerge gs config = mergeSparseTables (fst ?st)"
    by (simp add: afterMerge_def afterStandard_def)
  have tabs: "\<And>t. t \<in> set (tables (optimizeSeating gs config))
               \<Longrightarrow> \<exists>p\<in>set (afterMerge gs config). t = toOptimizedTable p"
    by (auto simp: optimizeSeating_def)
  have c4: "\<forall>t\<in>set (tables (optimizeSeating gs config)).
              getGuestsSize (table_guests t) \<le> table_capacity t
              \<or> (table_isKnight t \<and> table_guests t = [] \<and> table_capacity t < 0)"
  proof
    fix t assume "t \<in> set (tables (optimizeSeating gs config))"
    then obtain p where p: "p \<in> set (afterMerge gs config)" and t: "t = toOptimizedTable p"
      using tabs by blast
    from c3 p have "fits (snd p)" by (simp add: capOK_def m)
    then show "getGuestsSize (table_guests t) \<le> table_capacity t
               \<or> (table_isKnight t \<and> table_guests t = [] \<and> table_capacity t < 0)"
      unfolding t by (cases "getGuestsSize (table_guests (snd p)) \<le> table_capacity (snd p)")
        (auto simp: fits_def toOptimizedTable_def)
  qed
  have c5: "(\<forall>g\<in>set gs. 1 \<le> amountOf g) \<longrightarrow>
        (\<forall>t\<in>set (tables (optimizeSeating gs config)).
           getGuestsSize (table_guests t) \<le> declaredCapacity config (table_isKnight t)
           \<or> (table_isKnight t \<and> table_guests t = [] \<and> declaredCapacity config True < 0)
           \<or> (\<exists>g. table_guests t = [g] \<and> ?cap < amountOf g
                    \<and> table_capacity t = amountOf g \<and> \<not> table_isKnight t))"
  proof (intro impI ballI)
    fix t assume pos: "\<forall>g\<in>set gs. 1 \<le> amountOf g"
      and "t \<in> set (tables (optimizeSeating gs config))"
    then obtain p where p: "p \<in> set (afterMerge gs config)" and t: "t = toOptimizedTable p"
      using tabs by blast
    have "wideOK ?cap ?kcap (afterMerge gs config)"
      using pos by (intro afterMerge_wideOK) (simp add: positive_def)
    with p have w: "if table_isKnight (snd p) then table_capacity (snd p) = ?kcap
                    else table_capacity (snd p) = ?cap \<or> widened ?cap (snd p)"
      by (auto simp: wideOK_def)
    from c3 p have f: "fits (snd p)" by (simp add: capOK_def m)
    have "getGuestsSize (table_guests (snd p)) \<le> declaredCapacity config (table_isKnight (snd p))
          \<or> (table_isKnight (snd p) \<and> table_guests (snd p) = []
              \<and> declaredCapacity config True < 0)
          \<or> (\<exists>g. table_guests (snd p) = [g] \<and> ?cap < amountOf g
                   \<and> table_capacity (snd p) = amountOf g \<and> \<not> table_isKnight (snd p))"
    proof (cases "table_isKnight (snd p)")
      case True
      with w have "table_capacity (snd p) = ?kcap" by simp
      with f True show ?thesis
        by (cases "getGuestsSize (table_guests (snd p)) \<le> ?kcap")
           (auto simp: fits_def declaredCapacity_def)
    next
      case False
      with f have le: "getGuestsSize (table_guests (snd p)) \<le> table_capacity (snd p)"
        by (simp add: fits_def)
      from w False consider "table_capacity (snd p) = ?cap" | "widened ?cap (snd p)" by auto
      then show ?thesis
      proof cases
        case 1
        with le False show ?thesis by (simp add: declaredCapacity_def)
      next
        case 2
        with False show ?thesis by (auto simp: widened_def)
      qed
    qed
    then show "getGuestsSize (table_guests t) \<le> declaredCapacity config (table_isKnight t)
           \<or> (table_isKnight t \<and> table_guests t = [] \<and> declaredCapacity config True < 0)
           \<or> (\<exists>g. table_guests t = [g] \<and> ?cap < amountOf g
                    \<and> table_capacity t = amountOf g \<and> \<not> table_isKnight t)"
      unfolding t by (simp add: toOptimizedTable_def)
  qed
  show ?thesis using c1 c2 c3 c4 c5 by (simp add: afterStandard_def afterMerge_def)
qed

theorem occupancy_within_final_capacity_witness:
  "list_all (\<lambda>g. 1 \<le> amountOf g) mixedGuests
   \<and> list_all (\<lambda>t. getGuestsSize (table_guests t) \<le> table_capacity t
                    \<or> (table_isKnight t \<and> table_guests t = [] \<and> table_capacity t < 0))
              (tables (optimizeSeating mixedGuests mixedConfig))
   \<and> list_all (\<lambda>t. getGuestsSize (table_guests t)
                      \<le> declaredCapacity mixedConfig (table_isKnight t)
                    \<or> (table_isKnight t \<and> table_guests t = []
                        \<and> declaredCapacity mixedConfig True < 0)
                    \<or> (\<exists>g. table_guests t = [g] \<and> tableCapacityOf mixedConfig < amountOf g
                             \<and> table_capacity t = amountOf g \<and> \<not> table_isKnight t))
              (tables (optimizeSeating mixedGuests mixedConfig))
   \<and> map (\<lambda>t. (table_isKnight t, getGuestsSize (table_guests t), table_capacity t,
                 declaredCapacity mixedConfig (table_isKnight t)))
          (tables (optimizeSeating mixedGuests mixedConfig))
       = [(True, 3, 4, 4), (False, 11, 12, 12), (False, 15, 15, 12), (False, 9, 12, 12)]"
proof -
  have h: "\<forall>g\<in>set mixedGuests. 1 \<le> amountOf g"
    by (simp add: mixedGuests_def mkGuest_def amountOf_def)
  have run: "map (\<lambda>t. (table_isKnight t, getGuestsSize (table_guests t), table_capacity t,
                 declaredCapacity mixedConfig (table_isKnight t)))
          (tables (optimizeSeating mixedGuests mixedConfig))
       = [(True, 3, 4, 4), (False, 11, 12, 12), (False, 15, 15, 12), (False, 9, 12, 12)]"
    by code_simp
  note inst = occupancy_within_final_capacity [of mixedGuests mixedConfig]
  from inst have t1: "\<forall>t\<in>set (tables (optimizeSeating mixedGuests mixedConfig)).
         getGuestsSize (table_guests t) \<le> table_capacity t
         \<or> (table_isKnight t \<and> table_guests t = [] \<and> table_capacity t < 0)"
    by blast
  from inst h have t2: "\<forall>t\<in>set (tables (optimizeSeating mixedGuests mixedConfig)).
           getGuestsSize (table_guests t) \<le> declaredCapacity mixedConfig (table_isKnight t)
           \<or> (table_isKnight t \<and> table_guests t = [] \<and> declaredCapacity mixedConfig True < 0)
           \<or> (\<exists>g. table_guests t = [g] \<and> tableCapacityOf mixedConfig < amountOf g
                    \<and> table_capacity t = amountOf g \<and> \<not> table_isKnight t)"
    by blast
  show ?thesis using h t1 t2 run by (simp only: list_all_iff simp_thms)
qed

section \<open>No guest is seated twice\<close>

lemma removeById_remove1:
  assumes "distinct (map guest_id xs)" and "g \<in> set xs"
  shows "removeById (guest_id g) xs = remove1 g xs"
  using assms by (induction xs) (auto simp: rev_image_eqI)

lemma distinct_sub:
  assumes "mset xs \<subseteq># mset ys" and "distinct ys"
  shows "distinct xs"
proof -
  from assms(1) obtain C where "mset ys = mset xs + C"
    by (auto simp: mset_subset_eq_exists_conv)
  moreover obtain zs where "mset zs = C" using ex_mset by blast
  ultimately have "mset ys = mset (xs @ zs)" by simp
  then have "distinct (xs @ zs)" using assms(2) mset_eq_imp_distinct_iff by blast
  then show ?thesis by simp
qed

lemma distinct_ids_sub:
  assumes "mset xs \<subseteq># mset ys" and "distinct (map guest_id ys)"
  shows "distinct (map guest_id xs)"
proof -
  have "mset (map guest_id xs) \<subseteq># mset (map guest_id ys)"
    using assms(1) by (simp add: image_mset_subseteq_mono)
  then show ?thesis using assms(2) by (rule distinct_sub)
qed

lemma distinct_ids_remove1:
  assumes "distinct (map guest_id xs)"
  shows "distinct (map guest_id (remove1 g xs))"
proof -
  have "mset (remove1 g xs) \<subseteq># mset xs" by simp
  then show ?thesis using assms by (rule distinct_ids_sub)
qed

lemma removeChunk_mset:
  assumes "distinct (map guest_id gs)" and "mset c \<subseteq># mset gs"
  shows "mset (removeChunk c gs) = mset gs - mset c"
  using assms
proof (induction c arbitrary: gs)
  case Nil
  then show ?case by (simp add: removeChunk_def)
next
  case (Cons g c)
  from Cons.prems(2) have g: "g \<in> set gs" by (auto dest: mset_subset_eq_insertD)
  have r: "removeById (guest_id g) gs = remove1 g gs"
    using Cons.prems(1) g by (rule removeById_remove1)
  have sub: "mset c \<subseteq># mset (remove1 g gs)"
    using Cons.prems(2) g by (simp add: insert_subset_eq_iff)
  have "mset (removeChunk c (remove1 g gs)) = mset (remove1 g gs) - mset c"
    using distinct_ids_remove1 [OF Cons.prems(1)] sub by (rule Cons.IH)
  then show ?case using g by (simp add: removeChunk_def r)
qed

lemma removeChunk_conserves:
  assumes "distinct (map guest_id gs)" and "mset c \<subseteq># mset gs"
  shows "mset c + mset (removeChunk c gs) = mset gs"
  using removeChunk_mset [OF assms] assms(2) by simp

text \<open>How the operations on the dictionary change the seated guests.\<close>

lemma modifyTable_absent: "tid \<notin> fst ` set tabs \<Longrightarrow> modifyTable tid f tabs = tabs"
  by (induction tabs) (auto simp: modifyTable_def)

lemma seated_Cons [simp]: "seated (p # ps) = table_guests (snd p) @ seated ps"
  by (simp add: seated_def)

lemma seated_Nil [simp]: "seated [] = []"
  by (simp add: seated_def)

lemma seated_append [simp]: "seated (xs @ ys) = seated xs @ seated ys"
  by (simp add: seated_def)

lemma modifyTable_Cons:
  "modifyTable tid f (p # ps)
   = (if fst p = tid then (fst p, f (snd p)) else p) # modifyTable tid f ps"
  by (simp add: modifyTable_def)

lemma seated_modify:
  assumes "distinct (map fst tabs)" and "map_of tabs tid = Some t"
    and "\<And>u. table_guests (f u) = table_guests u @ chunk"
  shows "mset (seated (modifyTable tid f tabs)) = mset (seated tabs) + mset chunk"
  using assms(1,2)
proof (induction tabs)
  case Nil
  then show ?case by simp
next
  case (Cons p ps)
  show ?case
  proof (cases "fst p = tid")
    case True
    then have "tid \<notin> fst ` set ps" using Cons.prems(1) by auto
    then have "modifyTable tid f ps = ps" by (rule modifyTable_absent)
    then show ?thesis using True assms(3) by (simp add: modifyTable_Cons)
  next
    case False
    then have "map_of ps tid = Some t" using Cons.prems(2) by (cases p) auto
    then have "mset (seated (modifyTable tid f ps)) = mset (seated ps) + mset chunk"
      using Cons.prems(1) by (intro Cons.IH) simp_all
    then show ?thesis using False by (simp add: modifyTable_Cons)
  qed
qed

lemma seated_open:
  assumes "keysOK tabs tc"
  shows "seated (openTable grp c chunk tc tabs) = seated tabs @ chunk"
  by (simp add: openTable_append [OF assms] newStandardTable_def)

lemma seated_delete:
  assumes "distinct (map fst tabs)" and "map_of tabs k = Some t"
  shows "mset (seated (deleteProp k tabs)) + mset (table_guests t) = mset (seated tabs)"
  using assms
proof (induction tabs)
  case Nil
  then show ?case by simp
next
  case (Cons p ps)
  show ?case
  proof (cases "fst p = k")
    case True
    then have "k \<notin> fst ` set ps" using Cons.prems(1) by auto
    then have "deleteProp k ps = ps" by (auto simp: deleteProp_def filter_id_conv)
    moreover have "snd p = t" using True Cons.prems(2) by (cases p) simp
    ultimately show ?thesis using True by (simp add: deleteProp_def)
  next
    case False
    then have "map_of ps k = Some t" using Cons.prems(2) by (cases p) auto
    then have "mset (seated (deleteProp k ps)) + mset (table_guests t) = mset (seated ps)"
      using Cons.prems(1) by (intro Cons.IH) simp_all
    then show ?thesis using False by (simp add: deleteProp_def add.assoc)
  qed
qed

lemma map_of_modifyTable_other:
  "k \<noteq> tid \<Longrightarrow> map_of (modifyTable tid f tabs) k = map_of tabs k"
  by (induction tabs) (auto simp: modifyTable_def)

lemma seated_merge:
  assumes "distinct (map fst tabs)" and "idA \<noteq> idB" and "map_of tabs idA = Some tableA"
    and "map_of tabs idB = Some tableB"
  shows "mset (seated (deleteProp idB (modifyTable idA (mergeInto tableB) tabs)))
         = mset (seated tabs)"
proof -
  have m: "mset (seated (modifyTable idA (mergeInto tableB) tabs))
           = mset (seated tabs) + mset (table_guests tableB)"
    using assms(1,3) by (rule seated_modify) simp
  have "map_of (modifyTable idA (mergeInto tableB) tabs) idB = Some tableB"
    using assms(2,4) by (simp add: map_of_modifyTable_other)
  then have "mset (seated (deleteProp idB (modifyTable idA (mergeInto tableB) tabs)))
        + mset (table_guests tableB) = mset (seated (modifyTable idA (mergeInto tableB) tabs))"
    using assms(1) by (intro seated_delete) simp_all
  then show ?thesis using m by simp
qed

text \<open>A step that goes on moves a chunk from the unseated members to a table.\<close>

lemma knightStep_conserves:
  assumes "keysOK tabs tc" and "distinct (map guest_id gs)"
    and "knightStep cnt grp (gs, tabs, pool) = Continue s'"
  shows "mset (seated (fst (snd s'))) + mset (fst s') = mset (seated tabs) + mset gs
         \<and> snd (snd s') = pool"
proof -
  from assms(3) obtain tid t where t: "map_of tabs tid = Some t"
    and s: "s' = (removeChunk (firstFit (spaceOf t) gs) gs,
               modifyTable tid (seatLabelled grp (firstFit (spaceOf t) gs)) tabs, pool)"
    by (rule knightStep_Continue)
  have "mset (seated (modifyTable tid (seatLabelled grp (firstFit (spaceOf t) gs)) tabs))
        = mset (seated tabs) + mset (firstFit (spaceOf t) gs)"
    using assms(1) t by (intro seated_modify) (simp_all add: keysOK_def)
  moreover have "mset (firstFit (spaceOf t) gs) + mset (removeChunk (firstFit (spaceOf t) gs) gs)
                 = mset gs"
    using assms(2) firstFit_mset by (rule removeChunk_conserves)
  ultimately show ?thesis by (simp add: s add.assoc)
qed

lemma standardStep_conserves:
  assumes k: "keysOK tabs tc" and d: "distinct (map guest_id gs)" and ne: "gs \<noteq> []"
    and step: "standardStep cap grp (gs, n, tabs, tc) = Continue s'"
  shows "mset (seated (fst (snd (snd s')))) + mset (fst s') = mset (seated tabs) + mset gs"
proof (rule standardStep_cases [OF ne, where n = n and tabs = tabs and cap = cap
        and grp = grp and tc = tc])
  fix tid t
  assume t: "map_of tabs tid = Some t"
    and "standardStep cap grp (gs, n, tabs, tc)
         = Continue ([], n, modifyTable tid (seatLabelled grp gs) tabs, tc)"
  with step have s: "s' = ([], n, modifyTable tid (seatLabelled grp gs) tabs, tc)" by simp
  have "mset (seated (modifyTable tid (seatLabelled grp gs) tabs)) = mset (seated tabs) + mset gs"
    using k t by (intro seated_modify) (simp_all add: keysOK_def)
  then show ?thesis by (simp add: s)
next
  assume "standardStep cap grp (gs, n, tabs, tc)
          = Continue ([], n, openTable grp cap gs tc tabs, Suc tc)"
  with step have s: "s' = ([], n, openTable grp cap gs tc tabs, Suc tc)" by simp
  show ?thesis by (simp add: s seated_open [OF k])
next
  fix tid t
  assume t: "(tid, t) \<in> set tabs"
    and "standardStep cap grp (gs, n, tabs, tc)
         = Continue (removeChunk (firstFit (spaceOf t) gs) gs,
                     getGuestsSize (removeChunk (firstFit (spaceOf t) gs) gs),
                     modifyTable tid (pushGuests (firstFit (spaceOf t) gs)) tabs, tc)"
  with step have s: "s' = (removeChunk (firstFit (spaceOf t) gs) gs,
                     getGuestsSize (removeChunk (firstFit (spaceOf t) gs) gs),
                     modifyTable tid (pushGuests (firstFit (spaceOf t) gs)) tabs, tc)" by simp
  have m: "map_of tabs tid = Some t" using k t by (simp add: keysOK_def map_of_is_SomeI)
  have "mset (seated (modifyTable tid (pushGuests (firstFit (spaceOf t) gs)) tabs))
        = mset (seated tabs) + mset (firstFit (spaceOf t) gs)"
    using k m by (intro seated_modify) (simp_all add: keysOK_def)
  moreover have "mset (firstFit (spaceOf t) gs) + mset (removeChunk (firstFit (spaceOf t) gs) gs)
                 = mset gs"
    using d firstFit_mset by (rule removeChunk_conserves)
  ultimately show ?thesis by (simp add: s add.assoc)
next
  fix g rest
  assume gs: "gs = g # rest"
    and "standardStep cap grp (gs, n, tabs, tc)
         = Continue (removeChunk (g # firstFit (cap - amountOf g) rest) gs,
                     getGuestsSize (removeChunk (g # firstFit (cap - amountOf g) rest) gs),
                     openTable grp (if cap < amountOf g then amountOf g else cap)
                               (g # firstFit (cap - amountOf g) rest) tc tabs,
                     Suc tc)"
  with step have s: "s' = (removeChunk (g # firstFit (cap - amountOf g) rest) gs,
                     getGuestsSize (removeChunk (g # firstFit (cap - amountOf g) rest) gs),
                     openTable grp (if cap < amountOf g then amountOf g else cap)
                               (g # firstFit (cap - amountOf g) rest) tc tabs,
                     Suc tc)" by simp
  have "mset (g # firstFit (cap - amountOf g) rest) \<subseteq># mset gs"
    using firstFit_mset [of "cap - amountOf g" rest] by (simp add: gs)
  with d have "mset (g # firstFit (cap - amountOf g) rest)
               + mset (removeChunk (g # firstFit (cap - amountOf g) rest) gs) = mset gs"
    by (rule removeChunk_conserves)
  then show ?thesis by (simp add: s seated_open [OF k] add.assoc)
qed

lemma removeById_sub: "mset (removeById i xs) \<subseteq># mset xs"
  by (induction xs) (auto intro: subset_mset.order_trans)

lemma removeChunk_sub: "mset (removeChunk c xs) \<subseteq># mset xs"
proof (induction c arbitrary: xs)
  case Nil
  then show ?case by (simp add: removeChunk_def)
next
  case (Cons g c)
  have "mset (removeChunk c (removeById (guest_id g) xs)) \<subseteq># mset (removeById (guest_id g) xs)"
    by (rule Cons.IH)
  also have "\<dots> \<subseteq># mset xs" by (rule removeById_sub)
  finally show ?case by (simp add: removeChunk_def)
qed

lemma removeChunk_distinct_ids:
  "distinct (map guest_id gs) \<Longrightarrow> distinct (map guest_id (removeChunk c gs))"
  using removeChunk_sub by (rule distinct_ids_sub)

lemma knightStep_Continue_sub:
  assumes "knightStep cnt grp (gs, tabs, pool) = Continue s'"
  shows "mset (fst s') \<subseteq># mset gs"
  using assms by (rule knightStep_Continue) (simp add: removeChunk_sub)

lemma standardStep_sub:
  assumes ne: "gs \<noteq> []" and step: "standardStep cap grp (gs, n, tabs, tc) = Continue s'"
  shows "mset (fst s') \<subseteq># mset gs"
proof (rule standardStep_cases [OF ne, where n = n and tabs = tabs and cap = cap
        and grp = grp and tc = tc])
  fix tid t
  assume "standardStep cap grp (gs, n, tabs, tc)
          = Continue ([], n, modifyTable tid (seatLabelled grp gs) tabs, tc)"
  with step have "fst s' = []" by auto
  then show ?thesis by simp
next
  assume "standardStep cap grp (gs, n, tabs, tc)
          = Continue ([], n, openTable grp cap gs tc tabs, Suc tc)"
  with step have "fst s' = []" by auto
  then show ?thesis by simp
next
  fix tid t
  assume "standardStep cap grp (gs, n, tabs, tc)
         = Continue (removeChunk (firstFit (spaceOf t) gs) gs,
                     getGuestsSize (removeChunk (firstFit (spaceOf t) gs) gs),
                     modifyTable tid (pushGuests (firstFit (spaceOf t) gs)) tabs, tc)"
  with step have "fst s' = removeChunk (firstFit (spaceOf t) gs) gs" by auto
  then show ?thesis by (simp only: removeChunk_sub)
next
  fix g rest
  assume "standardStep cap grp (gs, n, tabs, tc)
         = Continue (removeChunk (g # firstFit (cap - amountOf g) rest) gs,
                     getGuestsSize (removeChunk (g # firstFit (cap - amountOf g) rest) gs),
                     openTable grp (if cap < amountOf g then amountOf g else cap)
                               (g # firstFit (cap - amountOf g) rest) tc tabs,
                     Suc tc)"
  with step have "fst s' = removeChunk (g # firstFit (cap - amountOf g) rest) gs" by auto
  then show ?thesis by (simp only: removeChunk_sub)
qed

text \<open>The knight loop of one candidate never seats a guest twice, but may drop guests: what
  is seated or pooled afterwards is part of what was seated, pooled or in the group
  before.\<close>

lemma knightSeatGroup_sub:
  assumes "keysOK (fst st) tc" and "distinct (map guest_id (guests grp))"
  shows "mset (seated (fst (knightSeatGroup cnt grp st)))
           + mset (poolGuests (snd (knightSeatGroup cnt grp st)))
         \<subseteq># mset (seated (fst st)) + mset (poolGuests (snd st)) + mset (guests grp)"
  unfolding knightSeatGroup_def
proof (rule knightWhile_rule
    [where I = "\<lambda>s. keysOK (fst (snd s)) tc \<and> distinct (map guest_id (fst s))
                    \<and> mset (seated (fst (snd s))) + mset (poolGuests (snd (snd s))) + mset (fst s)
                      = mset (seated (fst st)) + mset (poolGuests (snd st)) + mset (guests grp)"])
  show "keysOK (fst (snd (guests grp, fst st, snd st))) tc
        \<and> distinct (map guest_id (fst (guests grp, fst st, snd st)))
        \<and> mset (seated (fst (snd (guests grp, fst st, snd st))))
            + mset (poolGuests (snd (snd (guests grp, fst st, snd st))))
            + mset (fst (guests grp, fst st, snd st))
          = mset (seated (fst st)) + mset (poolGuests (snd st)) + mset (guests grp)"
    using assms by simp
next
  fix gs tabs pool s'
  assume "keysOK (fst (snd (gs, tabs, pool))) tc \<and> distinct (map guest_id (fst (gs, tabs, pool)))
          \<and> mset (seated (fst (snd (gs, tabs, pool))))
              + mset (poolGuests (snd (snd (gs, tabs, pool)))) + mset (fst (gs, tabs, pool))
            = mset (seated (fst st)) + mset (poolGuests (snd st)) + mset (guests grp)"
    and step: "knightStep cnt grp (gs, tabs, pool) = Continue s'"
  then have i: "keysOK tabs tc" "distinct (map guest_id gs)"
    "mset (seated tabs) + mset (poolGuests pool) + mset gs
     = mset (seated (fst st)) + mset (poolGuests (snd st)) + mset (guests grp)"
    by simp_all
  have c: "mset (seated (fst (snd s'))) + mset (fst s') = mset (seated tabs) + mset gs"
    "snd (snd s') = pool"
    using knightStep_conserves [OF i(1,2) step] by simp_all
  have "distinct (map guest_id (fst s'))"
    using knightStep_Continue_sub [OF step] i(2) by (rule distinct_ids_sub)
  moreover have "mset (seated (fst (snd s'))) + mset (poolGuests (snd (snd s'))) + mset (fst s')
        = mset (seated (fst st)) + mset (poolGuests (snd st)) + mset (guests grp)"
  proof -
    have "mset (seated (fst (snd s'))) + mset (poolGuests (snd (snd s'))) + mset (fst s')
          = (mset (seated (fst (snd s'))) + mset (fst s')) + mset (poolGuests pool)"
      by (simp add: c(2) ac_simps)
    also have "\<dots> = (mset (seated tabs) + mset gs) + mset (poolGuests pool)"
      by (simp only: c(1))
    also have "\<dots> = mset (seated tabs) + mset (poolGuests pool) + mset gs"
      by (simp add: ac_simps)
    also have "\<dots> = mset (seated (fst st)) + mset (poolGuests (snd st)) + mset (guests grp)"
      by (rule i(3))
    finally show ?thesis .
  qed
  ultimately show "keysOK (fst (snd s')) tc \<and> distinct (map guest_id (fst s'))
        \<and> mset (seated (fst (snd s'))) + mset (poolGuests (snd (snd s'))) + mset (fst s')
          = mset (seated (fst st)) + mset (poolGuests (snd st)) + mset (guests grp)"
    using i(1) by (simp add: knightStep_keysOK [OF step])
next
  fix gs tabs pool s'
  assume i: "keysOK (fst (snd (gs, tabs, pool))) tc \<and> distinct (map guest_id (fst (gs, tabs, pool)))
          \<and> mset (seated (fst (snd (gs, tabs, pool))))
              + mset (poolGuests (snd (snd (gs, tabs, pool)))) + mset (fst (gs, tabs, pool))
            = mset (seated (fst st)) + mset (poolGuests (snd st)) + mset (guests grp)"
    and ne: "gs \<noteq> []" and brk: "knightStep cnt grp (gs, tabs, pool) = Break s'"
  from knightStep_Break [OF brk ne]
  have "mset (seated (fst (snd s'))) + mset (poolGuests (snd (snd s')))
        \<subseteq># mset (seated tabs) + mset (poolGuests pool) + mset gs"
    by (auto simp: poolGuests_append)
  then show "mset (seated (fst (snd s'))) + mset (poolGuests (snd (snd s')))
        \<subseteq># mset (seated (fst st)) + mset (poolGuests (snd st)) + mset (guests grp)"
    using i by simp
next
  fix tabs pool
  assume "keysOK (fst (snd ([], tabs, pool))) tc \<and> distinct (map guest_id (fst ([], tabs, pool)))
          \<and> mset (seated (fst (snd ([], tabs, pool))))
              + mset (poolGuests (snd (snd ([], tabs, pool)))) + mset (fst ([], tabs, pool))
            = mset (seated (fst st)) + mset (poolGuests (snd st)) + mset (guests grp)"
  then show "mset (seated (fst (tabs, pool))) + mset (poolGuests (snd (tabs, pool)))
        \<subseteq># mset (seated (fst st)) + mset (poolGuests (snd st)) + mset (guests grp)"
    by simp
qed

lemma knightFold_sub:
  assumes "keysOK (fst st) tc" and "\<forall>c\<in>set cands. distinct (map guest_id (guests c))"
  shows "mset (seated (fst (fold (knightSeatGroup cnt) cands st)))
           + mset (poolGuests (snd (fold (knightSeatGroup cnt) cands st)))
         \<subseteq># mset (seated (fst st)) + mset (poolGuests (snd st)) + mset (poolGuests cands)"
  using assms
proof (induction cands arbitrary: st)
  case Nil
  then show ?case by simp
next
  case (Cons c cands)
  let ?st = "knightSeatGroup cnt c st"
  have k: "keysOK (fst ?st) tc" using Cons.prems(1) by (rule knightSeatGroup_keysOK)
  have "mset (seated (fst (fold (knightSeatGroup cnt) cands ?st)))
           + mset (poolGuests (snd (fold (knightSeatGroup cnt) cands ?st)))
        \<subseteq># mset (seated (fst ?st)) + mset (poolGuests (snd ?st)) + mset (poolGuests cands)"
    using k Cons.prems(2) by (intro Cons.IH) simp_all
  also have "\<dots> \<subseteq># (mset (seated (fst st)) + mset (poolGuests (snd st)) + mset (guests c))
                    + mset (poolGuests cands)"
    using Cons.prems
    by (intro subset_mset.add_right_mono knightSeatGroup_sub [where tc = tc]) simp_all
  finally show ?case by (simp add: add.assoc)
qed

text \<open>The loop of one group in the standard phase seats every member of the group exactly
  once.\<close>

lemma standardSeatGroup_conserves:
  assumes "keysOK (fst st) (snd st)" and "distinct (map guest_id (guests grp))"
  shows "mset (seated (fst (standardSeatGroup cap grp st)))
         = mset (seated (fst st)) + mset (guests grp)"
  unfolding standardSeatGroup_def
proof (rule standardWhile_rule
    [where I = "\<lambda>s. keysOK (fst (snd (snd s))) (snd (snd (snd s)))
                    \<and> distinct (map guest_id (fst s))
                    \<and> mset (seated (fst (snd (snd s)))) + mset (fst s)
                      = mset (seated (fst st)) + mset (guests grp)"])
  show "keysOK (fst (snd (snd (guests grp, getGuestsSize (guests grp), fst st, snd st))))
              (snd (snd (snd (guests grp, getGuestsSize (guests grp), fst st, snd st))))
        \<and> distinct (map guest_id (fst (guests grp, getGuestsSize (guests grp), fst st, snd st)))
        \<and> mset (seated (fst (snd (snd (guests grp, getGuestsSize (guests grp), fst st, snd st)))))
            + mset (fst (guests grp, getGuestsSize (guests grp), fst st, snd st))
          = mset (seated (fst st)) + mset (guests grp)"
    using assms by simp
next
  fix gs n tabs tc s'
  assume "keysOK (fst (snd (snd (gs, n, tabs, tc)))) (snd (snd (snd (gs, n, tabs, tc))))
          \<and> distinct (map guest_id (fst (gs, n, tabs, tc)))
          \<and> mset (seated (fst (snd (snd (gs, n, tabs, tc))))) + mset (fst (gs, n, tabs, tc))
            = mset (seated (fst st)) + mset (guests grp)"
    and ne: "gs \<noteq> []" and step: "standardStep cap grp (gs, n, tabs, tc) = Continue s'"
  then have i: "keysOK tabs tc" "distinct (map guest_id gs)"
    "mset (seated tabs) + mset gs = mset (seated (fst st)) + mset (guests grp)"
    by simp_all
  have c: "mset (seated (fst (snd (snd s')))) + mset (fst s') = mset (seated tabs) + mset gs"
    using i(1,2) ne step by (rule standardStep_conserves)
  have "mset (fst s') \<subseteq># mset gs" using ne step by (rule standardStep_sub)
  then have "distinct (map guest_id (fst s'))" using i(2) by (rule distinct_ids_sub)
  then show "keysOK (fst (snd (snd s'))) (snd (snd (snd s')))
        \<and> distinct (map guest_id (fst s'))
        \<and> mset (seated (fst (snd (snd s')))) + mset (fst s')
          = mset (seated (fst st)) + mset (guests grp)"
    using c i(3) standardStep_keysOK [OF i(1) ne step] by simp
next
  fix n tabs tc
  assume "keysOK (fst (snd (snd ([], n, tabs, tc)))) (snd (snd (snd ([], n, tabs, tc))))
          \<and> distinct (map guest_id (fst ([], n, tabs, tc)))
          \<and> mset (seated (fst (snd (snd ([], n, tabs, tc))))) + mset (fst ([], n, tabs, tc))
            = mset (seated (fst st)) + mset (guests grp)"
  then show "mset (seated (fst (tabs, tc))) = mset (seated (fst st)) + mset (guests grp)"
    by simp
qed

lemma standardFold_conserves:
  assumes "keysOK (fst st) (snd st)" and "\<forall>x\<in>set xs. distinct (map guest_id (guests x))"
  shows "mset (seated (fst (fold (standardSeatGroup cap) xs st)))
         = mset (seated (fst st)) + mset (poolGuests xs)"
  using assms
proof (induction xs arbitrary: st)
  case Nil
  then show ?case by simp
next
  case (Cons x xs)
  let ?st = "standardSeatGroup cap x st"
  have k: "keysOK (fst ?st) (snd ?st)" using Cons.prems(1) by (rule standardSeatGroup_keysOK)
  have "mset (seated (fst (fold (standardSeatGroup cap) xs ?st)))
        = mset (seated (fst ?st)) + mset (poolGuests xs)"
    using k Cons.prems(2) by (intro Cons.IH) simp_all
  moreover have "mset (seated (fst ?st)) = mset (seated (fst st)) + mset (guests x)"
    using Cons.prems by (intro standardSeatGroup_conserves) simp_all
  ultimately show ?case by (simp add: add.assoc)
qed

lemma mergeSparseTables_conserves:
  assumes "keysOK tabs tc"
  shows "mset (seated (mergeSparseTables tabs)) = mset (seated tabs)"
proof -
  have "keysOK (mergeSparseTables tabs) tc
        \<and> mset (seated (mergeSparseTables tabs)) = mset (seated tabs)"
    unfolding mergeSparseTables_def
  proof (rule mergeLoop_rule
      [where P = "\<lambda>ts. keysOK ts tc \<and> mset (seated ts) = mset (seated tabs)"])
    show "keysOK tabs tc \<and> mset (seated tabs) = mset (seated tabs)" using assms by simp
    show "distinct (standardTableIds tabs)"
      using assms by (intro standardTableIds_distinct) (simp add: keysOK_def)
  next
    fix ts :: TableAssignments and idA idB and tableA tableB :: TableData
    assume a: "keysOK ts tc \<and> mset (seated ts) = mset (seated tabs)" "idA \<noteq> idB"
      "map_of ts idA = Some tableA" "map_of ts idB = Some tableB"
    have "mset (seated (deleteProp idB (modifyTable idA (mergeInto tableB) ts))) = mset (seated ts)"
      using a by (intro seated_merge [where tableA = tableA]) (simp_all add: keysOK_def)
    then show "keysOK (deleteProp idB (modifyTable idA (mergeInto tableB) ts)) tc
               \<and> mset (seated (deleteProp idB (modifyTable idA (mergeInto tableB) ts)))
                 = mset (seated tabs)"
      using a(1) by (simp add: keysOK_delete)
  qed
  then show ?thesis by simp
qed

text \<open>The whole run: the guests seated at the end are input guests, none of them twice.\<close>

lemma group_in_pool: "c \<in> set xs \<Longrightarrow> mset (guests c) \<subseteq># mset (poolGuests xs)"
  by (induction xs) (auto intro: subset_mset.order_trans)

lemma knightPhase_sub:
  assumes "distinct (map guest_id inp)" and "mset (poolGuests pgs) \<subseteq># mset inp"
  shows "mset (seated (fst (fst (knightPhase kc pgs)))) + mset (poolGuests (snd (knightPhase kc pgs)))
         \<subseteq># mset (poolGuests pgs)"
proof (cases "knight_enabled kc \<and> 0 < knight_count kc")
  case False
  then show ?thesis by (simp add: knightPhase_idle)
next
  case True
  let ?cands = "sortDescBy group_size (knightCandidatesOf pgs)"
  let ?st = "(fst (createKnightTables kc), standardPoolOf pgs)"
  have part: "mset (poolGuests (standardPoolOf pgs)) + mset (poolGuests ?cands)
              = mset (poolGuests pgs)"
    by (simp add: poolGuests_sortDescBy poolGuests_partition)
  have d: "\<forall>c\<in>set ?cands. distinct (map guest_id (guests c))"
  proof
    fix c assume "c \<in> set ?cands"
    then have "mset (guests c) \<subseteq># mset (poolGuests ?cands)" by (rule group_in_pool)
    also have "\<dots> \<subseteq># mset (poolGuests pgs)" using part by (metis mset_subset_eq_add_right)
    also have "\<dots> \<subseteq># mset inp" by (rule assms(2))
    finally show "distinct (map guest_id (guests c))" using assms(1) by (rule distinct_ids_sub)
  qed
  have e: "seated (fst (createKnightTables kc)) = []"
    by (simp add: createKnightTables_eq seated_def newKnightTable_def)
  have "mset (seated (fst (fold (knightSeatGroup (knight_count kc)) ?cands ?st)))
          + mset (poolGuests (snd (fold (knightSeatGroup (knight_count kc)) ?cands ?st)))
        \<subseteq># mset (seated (fst ?st)) + mset (poolGuests (snd ?st)) + mset (poolGuests ?cands)"
    using d
    by (intro knightFold_sub [where tc = "snd (createKnightTables kc)"])
       (simp_all add: createKnightTables_keysOK)
  then show ?thesis using part e by (simp add: knightPhase_active [OF True] add.assoc)
qed

lemma afterMerge_sub:
  assumes "distinct (map guest_id gs)"
  shows "mset (seated (afterMerge gs config)) \<subseteq># mset gs"
proof -
  let ?P = "processedGroupsOf gs config"
  let ?k = "afterKnight gs config"
  let ?cap = "tableCapacityOf config"
  have p: "mset (poolGuests ?P) \<subseteq># mset gs" by (rule processedGroups_values)
  have k1: "keysOK (fst (fst ?k)) (snd (fst ?k))" by (rule afterKnight_keysOK)
  have s1: "mset (seated (fst (fst ?k))) + mset (poolGuests (snd ?k)) \<subseteq># mset (poolGuests ?P)"
    unfolding afterKnight_def using assms p by (rule knightPhase_sub)
  then have s1': "mset (seated (fst (fst ?k))) + mset (poolGuests (snd ?k)) \<subseteq># mset gs"
    using p by (rule subset_mset.order_trans)
  let ?pool = "sortDescBy group_size (snd ?k)"
  have d: "\<forall>x\<in>set ?pool. distinct (map guest_id (guests x))"
  proof
    fix x assume "x \<in> set ?pool"
    then have "mset (guests x) \<subseteq># mset (poolGuests ?pool)" by (rule group_in_pool)
    also have "\<dots> = mset (poolGuests (snd ?k))" by (rule poolGuests_sortDescBy)
    also have "\<dots> \<subseteq># mset (seated (fst (fst ?k))) + mset (poolGuests (snd ?k))"
      by (rule mset_subset_eq_add_right)
    also have "\<dots> \<subseteq># mset gs" by (rule s1')
    finally show "distinct (map guest_id (guests x))" using assms by (rule distinct_ids_sub)
  qed
  let ?st = "standardPhase ?cap (snd ?k) (fst ?k)"
  have "mset (seated (fst ?st)) = mset (seated (fst (fst ?k))) + mset (poolGuests ?pool)"
    unfolding standardPhase_def using k1 d by (rule standardFold_conserves)
  then have s2: "mset (seated (fst ?st)) \<subseteq># mset gs"
    using s1' by (simp add: poolGuests_sortDescBy)
  have k2: "keysOK (fst ?st) (snd ?st)" using k1 by (rule standardPhase_keysOK)
  have "mset (seated (mergeSparseTables (fst ?st))) = mset (seated (fst ?st))"
    using k2 by (rule mergeSparseTables_conserves)
  then show ?thesis using s2 by (simp add: afterMerge_def afterStandard_def)
qed

lemma afterMerge_keys: "distinct (map fst (afterMerge gs config))"
proof -
  let ?k = "afterKnight gs config"
  let ?st = "standardPhase (tableCapacityOf config) (snd ?k) (fst ?k)"
  have "keysOK (fst (fst ?k)) (snd (fst ?k))" by (rule afterKnight_keysOK)
  then have "keysOK (fst ?st) (snd ?st)" by (rule standardPhase_keysOK)
  then have "keysOK (mergeSparseTables (fst ?st)) (snd ?st)" by (rule mergeSparseTables_keysOK)
  then show ?thesis by (simp add: afterMerge_def afterStandard_def keysOK_def)
qed

section \<open>The final assignment\<close>

lemma assign_fold:
  "fold (\<lambda>g m'. if guest_id g = r then m' else m'(guest_id g \<mapsto> k)) gs m i
   = (if i \<noteq> r \<and> i \<in> guest_id ` set gs then Some k else m i)"
  by (induction gs arbitrary: m) auto

lemma assignTable_apply:
  "assignTable p m i
   = (if i \<noteq> ''__proto__'' \<and> i \<in> guest_id ` set (table_guests (snd p))
      then Some (fst p) else m i)"
  unfolding assignTable_def by (rule assign_fold)

lemma assign_absent:
  assumes "\<forall>p\<in>set tabs. i \<notin> guest_id ` set (table_guests (snd p))"
  shows "fold assignTable tabs m i = m i"
  using assms by (induction tabs arbitrary: m) (simp_all add: assignTable_apply)

lemma assign_reserved: "fold assignTable tabs m ''__proto__'' = m ''__proto__''"
  by (induction tabs arbitrary: m) (simp_all add: assignTable_apply)

lemma assign_present:
  assumes "distinct (map guest_id (seated tabs))" and "p \<in> set tabs"
    and "i \<in> guest_id ` set (table_guests (snd p))" and "i \<noteq> ''__proto__''"
  shows "fold assignTable tabs m i = Some (fst p)"
  using assms
proof (induction tabs arbitrary: m)
  case Nil
  then show ?case by simp
next
  case (Cons q qs)
  have dq: "distinct (map guest_id (seated qs))" using Cons.prems(1) by simp
  show ?case
  proof (cases "p \<in> set qs")
    case True
    then show ?thesis using Cons.IH [OF dq True Cons.prems(3,4)] by simp
  next
    case False
    then have pq: "p = q" using Cons.prems(2) by simp
    have "\<forall>r\<in>set qs. i \<notin> guest_id ` set (table_guests (snd r))"
    proof
      fix r assume "r \<in> set qs"
      then have "set (table_guests (snd r)) \<subseteq> set (seated qs)" by (auto simp: seated_def)
      moreover have "i \<notin> guest_id ` set (seated qs)"
        using Cons.prems(1,3) pq by auto
      ultimately show "i \<notin> guest_id ` set (table_guests (snd r))" by auto
    qed
    then have "fold assignTable qs (assignTable q m) i = assignTable q m i"
      by (rule assign_absent)
    moreover have "assignTable q m i = Some (fst q)"
      using Cons.prems(3,4) pq by (simp add: assignTable_apply)
    ultimately show ?thesis using pq by simp
  qed
qed

lemma toOptimizedTable_fields [simp]:
  "table_id (toOptimizedTable p) = fst p"
  "table_guests (toOptimizedTable p) = table_guests (snd p)"
  by (simp_all add: toOptimizedTable_def)



text \<open>For every other id the map and the tables agree. For a guest list with unique
  identifiers, the returned assignment maps an id other than \<open>__proto__\<close> to a table id
  exactly when a guest with that id is in the member list of the returned table with that
  id, and it never has an entry for \<open>__proto__\<close>. The returned table ids are distinct and no
  guest id occurs twice among the members of the returned tables; since the mapping is
  rebuilt from the tables that are left after consolidation, guests of a merged-away table
  map to the table they were merged into and no deleted id is referenced.\<close>

lemma assignment_matches_tables_of_other_ids:
  assumes "distinct (map guest_id gs)"
  shows "((assignments (optimizeSeating gs config) i = Some tid)
          = (i \<noteq> ''__proto__''
             \<and> (\<exists>t\<in>set (tables (optimizeSeating gs config)).
                   table_id t = tid \<and> i \<in> guest_id ` set (table_guests t))))
    \<and> distinct (map table_id (tables (optimizeSeating gs config)))
    \<and> distinct (map guest_id (concat (map table_guests (tables (optimizeSeating gs config)))))"
proof -
  let ?tabs = "afterMerge gs config"
  have d: "distinct (map guest_id (seated ?tabs))"
    using afterMerge_sub [OF assms] assms by (rule distinct_ids_sub)
  have iff: "(finalAssignment ?tabs i = Some tid)
             = (i \<noteq> ''__proto__''
                \<and> (\<exists>p\<in>set ?tabs. fst p = tid \<and> i \<in> guest_id ` set (table_guests (snd p))))"
  proof
    assume a: "finalAssignment ?tabs i = Some tid"
    have own: "i \<noteq> ''__proto__''"
    proof
      assume "i = ''__proto__''"
      then have "finalAssignment ?tabs i = None"
        by (simp add: finalAssignment_def assign_reserved)
      with a show False by simp
    qed
    have "\<exists>p\<in>set ?tabs. i \<in> guest_id ` set (table_guests (snd p))"
    proof (rule ccontr)
      assume "\<not> (\<exists>p\<in>set ?tabs. i \<in> guest_id ` set (table_guests (snd p)))"
      then have "fold assignTable ?tabs Map.empty i = Map.empty i"
        by (intro assign_absent) simp
      then show False using a by (simp add: finalAssignment_def)
    qed
    then obtain p where p: "p \<in> set ?tabs" "i \<in> guest_id ` set (table_guests (snd p))"
      by blast
    then have "finalAssignment ?tabs i = Some (fst p)"
      unfolding finalAssignment_def using d own by (intro assign_present)
    with a p own
    show "i \<noteq> ''__proto__''
          \<and> (\<exists>p\<in>set ?tabs. fst p = tid \<and> i \<in> guest_id ` set (table_guests (snd p)))"
      by auto
  next
    assume "i \<noteq> ''__proto__''
            \<and> (\<exists>p\<in>set ?tabs. fst p = tid \<and> i \<in> guest_id ` set (table_guests (snd p)))"
    then obtain p where own: "i \<noteq> ''__proto__''" and p: "p \<in> set ?tabs" "fst p = tid"
      "i \<in> guest_id ` set (table_guests (snd p))" by blast
    then have "finalAssignment ?tabs i = Some (fst p)"
      unfolding finalAssignment_def using d by (intro assign_present)
    then show "finalAssignment ?tabs i = Some tid" using p(2) by simp
  qed
  have ids: "map table_id (tables (optimizeSeating gs config)) = map fst ?tabs"
    by (simp add: optimizeSeating_def comp_def)
  have members: "concat (map table_guests (tables (optimizeSeating gs config))) = seated ?tabs"
    by (simp add: optimizeSeating_def seated_def comp_def)
  have "(assignments (optimizeSeating gs config) i = Some tid)
          = (i \<noteq> ''__proto__''
             \<and> (\<exists>t\<in>set (tables (optimizeSeating gs config)).
                   table_id t = tid \<and> i \<in> guest_id ` set (table_guests t)))"
    using iff by (simp add: optimizeSeating_def)
  then show ?thesis using d afterMerge_keys [of gs config] by (simp only: ids members simp_thms)
qed

lemma assignment_matches_tables_example:
  "distinct (map guest_id mixedGuests)
   \<and> map (\<lambda>p. (fst p, map guest_id (table_guests (snd p)))) (afterStandard mixedGuests mixedConfig)
       = [(0, [''f1'', ''f2'']), (1, [''x1'', ''s2'']), (2, [''x2'']), (3, [''big'']),
          (4, [''s1''])]
   \<and> map (\<lambda>t. (table_id t, map guest_id (table_guests t)))
          (tables (optimizeSeating mixedGuests mixedConfig))
       = [(0, [''f1'', ''f2'']), (1, [''x1'', ''s2'']), (3, [''big'']), (4, [''s1'', ''x2''])]
   \<and> assignments (optimizeSeating mixedGuests mixedConfig) ''x2'' = Some 4
   \<and> distinct (map table_id (tables (optimizeSeating mixedGuests mixedConfig)))"
proof -
  have h: "distinct (map guest_id mixedGuests)"
    by (simp add: mixedGuests_def mkGuest_def)
  have before: "map (\<lambda>p. (fst p, map guest_id (table_guests (snd p))))
                    (afterStandard mixedGuests mixedConfig)
       = [(0, [''f1'', ''f2'']), (1, [''x1'', ''s2'']), (2, [''x2'']), (3, [''big'']),
          (4, [''s1''])]"
    by code_simp
  have after: "map (\<lambda>t. (table_id t, map guest_id (table_guests t)))
          (tables (optimizeSeating mixedGuests mixedConfig))
       = [(0, [''f1'', ''f2'']), (1, [''x1'', ''s2'']), (3, [''big'']), (4, [''s1'', ''x2''])]"
    by code_simp
  have member: "\<exists>t\<in>set (tables (optimizeSeating mixedGuests mixedConfig)).
                  table_id t = 4 \<and> ''x2'' \<in> guest_id ` set (table_guests t)"
    by code_simp
  have "''x2'' \<noteq> ''__proto__''" by simp
  with assignment_matches_tables_of_other_ids [OF h, of mixedConfig "''x2''" 4] member
  have "assignments (optimizeSeating mixedGuests mixedConfig) ''x2'' = Some 4"
    and "distinct (map table_id (tables (optimizeSeating mixedGuests mixedConfig)))"
    by blast+
  with h before after show ?thesis by simp
qed

section \<open>A store model of the guest arrays\<close>

text \<open>
  To state that the optimizer leaves its input alone, the arrays of guests are placed in a
  store: an array has an address, the store maps addresses to array contents, and every
  array literal, spread copy, \<open>push\<close> and \<open>splice\<close> of the source is an allocation or a
  write at an address. The elements of an array are the guest objects; the source
  contains no assignment to a property of a guest, so a guest object is a value of the
  store model. Arrays of groups, of ids and of names have other element types and
  cannot alias an array of guests; they stay lists. Group and table objects are locals
  whose \<open>guests\<close> property is the address of an array.
  What the store model reads it hands to the functions of the value model above, so both
  take the same decisions; what it writes, it writes at an address. The progress callback
  of the configuration is code of the caller; the model takes its default, which does
  nothing.
\<close>

record Heap =
  arr :: "nat \<Rightarrow> Guest list"
  nextFree :: nat

text \<open>An array literal (with the pushes that fill it before it is used) or a spread copy:
  a fresh array.\<close>

definition alloc :: "Guest list \<Rightarrow> Heap \<Rightarrow> nat \<times> Heap" where
  "alloc xs h = (nextFree h, \<lparr> arr = (arr h)(nextFree h := xs), nextFree = Suc (nextFree h) \<rparr>)"

text \<open>\<open>a.push(g)\<close>\<close>

definition push :: "nat \<Rightarrow> Guest \<Rightarrow> Heap \<Rightarrow> Heap" where
  "push a g h = h\<lparr>arr := (arr h)(a := arr h a @ [g])\<rparr>"

definition pushAll :: "nat \<Rightarrow> Guest list \<Rightarrow> Heap \<Rightarrow> Heap" where
  "pushAll a xs h = fold (push a) xs h"

text \<open>\<open>for (const guest of src) dst.push(guest)\<close>: the iteration is live, so it never ends
  when both names denote the same array.\<close>

definition pushFrom :: "nat \<Rightarrow> nat \<Rightarrow> Heap \<Rightarrow> Heap option" where
  "pushFrom dst src h = (if dst = src then None else Some (pushAll dst (arr h src) h))"

text \<open>\<open>chunk.forEach(g => { idx = a.findIndex(x => x.id === g.id);
  if (idx > -1) a.splice(idx, 1) })\<close>\<close>

definition spliceChunk :: "nat \<Rightarrow> Guest list \<Rightarrow> Heap \<Rightarrow> Heap" where
  "spliceChunk a chunk h =
     fold (\<lambda>g h'. h'\<lparr>arr := (arr h')(a := removeById (guest_id g) (arr h' a))\<rparr>) chunk h"

text \<open>A loop over a list whose body may fail to return.\<close>

fun foldOption :: "('a \<Rightarrow> 's \<Rightarrow> 's option) \<Rightarrow> 'a list \<Rightarrow> 's \<Rightarrow> 's option" where
  "foldOption f [] s = Some s"
| "foldOption f (x # xs) s = Option.bind (f x s) (foldOption f xs)"

record HGroup =
  hg_groupId :: string
  hg_guests :: nat
  hg_size :: int
  hg_dominantSide :: GuestSide
  hg_dominantCategory :: GuestCategory
  hg_averageAge :: int
  hg_isRequestedForKnight :: bool

record HTable =
  ht_guests :: nat
  ht_side :: "GuestSide option"
  ht_category :: "GuestCategory option"
  ht_capacity :: int
  ht_isKnight :: bool

type_synonym HTables = "(TableId \<times> HTable) list"

text \<open>The group and the table that a group object and a table object stand for in a
  store.\<close>

definition groupOf :: "Heap \<Rightarrow> HGroup \<Rightarrow> ProcessedGroup" where
  "groupOf h g =
     \<lparr> groupId = hg_groupId g, guests = arr h (hg_guests g), group_size = hg_size g,
       dominantSide = hg_dominantSide g, dominantCategory = hg_dominantCategory g,
       averageAge = hg_averageAge g, isRequestedForKnight = hg_isRequestedForKnight g \<rparr>"

definition tableOf :: "Heap \<Rightarrow> HTable \<Rightarrow> TableData" where
  "tableOf h t =
     \<lparr> table_guests = arr h (ht_guests t), table_side = ht_side t,
       table_category = ht_category t, table_capacity = ht_capacity t,
       table_isKnight = ht_isKnight t \<rparr>"

definition tablesOf :: "Heap \<Rightarrow> HTables \<Rightarrow> TableAssignments" where
  "tablesOf h tabs = map (\<lambda>p. (fst p, tableOf h (snd p))) tabs"

subsection \<open>Grouping and classification in the store\<close>

text \<open>A step of the store model that may throw yields the error and the store at the throw,
  or the next state; a \<open>forEach\<close> whose callback throws ends at the first throw.\<close>

fun forEachThrowing :: "('a \<Rightarrow> 's \<Rightarrow> 'e + 's) \<Rightarrow> 'a list \<Rightarrow> 's \<Rightarrow> 'e + 's" where
  "forEachThrowing f [] s = Inr s"
| "forEachThrowing f (x # xs) s =
     (case f x s of Inl e \<Rightarrow> Inl e | Inr s' \<Rightarrow> forEachThrowing f xs s')"

text \<open>\<open>if (!groups[key]) groups[key] = []; groups[key].push(guest)\<close>: an own key holds an
  array; otherwise an inherited key holds a truthy value without \<open>push\<close>, and the call
  throws; otherwise a fresh array is stored.\<close>

definition pushGroupedH :: "string \<Rightarrow> Guest \<Rightarrow> (string \<times> nat) list \<times> Heap
    \<Rightarrow> (error \<times> Heap) + (string \<times> nat) list \<times> Heap" where
  "pushGroupedH key guest st =
     (case map_of (fst st) key of
        Some a \<Rightarrow> Inr (fst st, push a guest (snd st))
      | None \<Rightarrow>
          if inherited key then Inl (TypeError, snd st)
          else (case alloc [] (snd st) of (a, h1) \<Rightarrow>
                  Inr (setProp key a (fst st), push a guest h1)))"

definition groupStepH :: "nat \<Rightarrow> Guest \<Rightarrow> (string \<times> nat) list \<times> Heap
    \<Rightarrow> (error \<times> Heap) + (string \<times> nat) list \<times> Heap" where
  "groupStepH ungrouped guest st =
     (case guest_groupId guest of
        Some s \<Rightarrow> if s \<noteq> [] then pushGroupedH (trim s) guest st
                  else Inr (fst st, push ungrouped guest (snd st))
      | None \<Rightarrow> Inr (fst st, push ungrouped guest (snd st)))"

text \<open>\<open>groups[`individual-${guest.id}`] = [guest]\<close>\<close>

definition individualStepH :: "Guest \<Rightarrow> (string \<times> nat) list \<times> Heap
    \<Rightarrow> (string \<times> nat) list \<times> Heap" where
  "individualStepH guest st =
     (case alloc [guest] (snd st) of (a, h1) \<Rightarrow>
        (setProp (''individual-'' @ guest_id guest) a (fst st), h1))"

text \<open>\<open>groupGuestsByRelationship(guests)\<close> with \<open>guests\<close> the array at address \<open>a\<close>.
  \<open>forEach\<close> visits the elements that the array has when the loop starts.\<close>

definition groupDictH :: "nat \<Rightarrow> Heap \<Rightarrow> (error \<times> Heap) + (string \<times> nat) list \<times> Heap" where
  "groupDictH a h =
     (case alloc [] h of (ungrouped, h0) \<Rightarrow>
        (case forEachThrowing (groupStepH ungrouped) (arr h0 a) ([], h0) of
           Inl e \<Rightarrow> Inl e
         | Inr st \<Rightarrow> Inr (fold individualStepH (arr (snd st) ungrouped) st)))"

text \<open>The group objects of \<open>groupGuestsByRelationship\<close> and their classified copies
  \<open>{...group, size, dominantSide, dominantCategory, isRequestedForKnight}\<close> share the array
  of the dictionary entry.\<close>

definition classifyH :: "Heap \<Rightarrow> string list \<Rightarrow> string \<times> nat \<Rightarrow> HGroup" where
  "classifyH h targets p =
     \<lparr> hg_groupId = fst p, hg_guests = snd p, hg_size = getGuestsSize (arr h (snd p)),
       hg_dominantSide = dominantSideOf (arr h (snd p)),
       hg_dominantCategory = dominantCategoryOf (arr h (snd p)),
       hg_averageAge = 0,
       hg_isRequestedForKnight = (normalize (fst p) \<in> set targets) \<rparr>"

definition processedGroupsH :: "nat \<Rightarrow> OptimizationConfig \<Rightarrow> Heap
    \<Rightarrow> (error \<times> Heap) + HGroup list \<times> Heap" where
  "processedGroupsH a config h =
     (case groupDictH a h of
        Inl e \<Rightarrow> Inl e
      | Inr st \<Rightarrow>
          Inr (map (classifyH (snd st) (knightTargetGroups config)) (objectEntries (fst st)),
               snd st))"

subsection \<open>Working tables in the store\<close>

definition modifyTableH :: "TableId \<Rightarrow> (HTable \<Rightarrow> HTable) \<Rightarrow> HTables \<Rightarrow> HTables" where
  "modifyTableH tid f tabs = map (\<lambda>p. if fst p = tid then (fst p, f (snd p)) else p) tabs"

definition labelH :: "HGroup \<Rightarrow> HTable \<Rightarrow> HTable" where
  "labelH grp t = t\<lparr>ht_side := Some (hg_dominantSide grp),
                     ht_category := Some (hg_dominantCategory grp)\<rparr>"

text \<open>The guests of the array at \<open>src\<close> are pushed onto \<open>table.guests\<close>, without and with
  the test \<open>table.guests.length === src.length\<close> that labels the table.\<close>

definition pushToTableH :: "TableId \<Rightarrow> nat \<Rightarrow> HTables \<times> Heap \<Rightarrow> (HTables \<times> Heap) option" where
  "pushToTableH tid src st =
     (case map_of (fst st) tid of
        None \<Rightarrow> Some st
      | Some t \<Rightarrow> Option.bind (pushFrom (ht_guests t) src (snd st)) (\<lambda>h'. Some (fst st, h')))"

definition seatLabelledH :: "HGroup \<Rightarrow> TableId \<Rightarrow> nat \<Rightarrow> HTables \<times> Heap
    \<Rightarrow> (HTables \<times> Heap) option" where
  "seatLabelledH grp tid src st =
     (case map_of (fst st) tid of
        None \<Rightarrow> Some st
      | Some t \<Rightarrow>
          Option.bind (pushFrom (ht_guests t) src (snd st))
            (\<lambda>h'. Some (if length (arr h' (ht_guests t)) = length (arr h' src)
                        then modifyTableH tid (labelH grp) (fst st) else fst st, h')))"

subsection \<open>Phase A in the store\<close>

definition newKnightTableH :: "nat \<Rightarrow> int \<Rightarrow> HTable" where
  "newKnightTableH a cap = \<lparr> ht_guests = a, ht_side = None, ht_category = None,
                             ht_capacity = cap, ht_isKnight = True \<rparr>"

definition createKnightTablesH :: "KnightConfig \<Rightarrow> Heap \<Rightarrow> (HTables \<times> nat) \<times> Heap" where
  "createKnightTablesH kc h =
     fold (\<lambda>i st. case alloc [] (snd st) of (a, h1) \<Rightarrow>
                    ((setProp (snd (fst st)) (newKnightTableH a (knight_capacity kc))
                              (fst (fst st)),
                      Suc (snd (fst st))), h1))
          [0..<nat (knight_count kc)] (([], 0), h)"

text \<open>\<open>{...group, guests: guestsToSeat, size: getGuestsSize(guestsToSeat)}\<close>: the leftover
  group holds the array \<open>guestsToSeat\<close> itself.\<close>

definition leftoverGroupH :: "Heap \<Rightarrow> HGroup \<Rightarrow> nat \<Rightarrow> HGroup" where
  "leftoverGroupH h grp guestsToSeat =
     grp\<lparr>hg_guests := guestsToSeat, hg_size := getGuestsSize (arr h guestsToSeat)\<rparr>"

text \<open>The state of the knight loop: \<open>(guestsToSeat, tableAssignments, processedGroups)\<close> and
  the store.\<close>

type_synonym KnightStateH = "nat \<times> HTables \<times> HGroup list \<times> Heap"

text \<open>One iteration of the knight loop; the flag tells whether the loop goes on.\<close>

definition knightStepH :: "int \<Rightarrow> HGroup \<Rightarrow> KnightStateH \<Rightarrow> (bool \<times> KnightStateH) option" where
  "knightStepH cnt grp s =
     (case s of (guestsToSeat, tabs, processedGroups, h) \<Rightarrow>
        (case findKnightTable cnt (tablesOf h tabs) of (bestTableId, maxSpace) \<Rightarrow>
           (case bestTableId of
              Some tid \<Rightarrow>
                if maxSpace > 0 then
                  (case alloc (greedyChunk maxSpace (arr h guestsToSeat)) h of (chunk, h1) \<Rightarrow>
                     if arr h1 chunk \<noteq> []
                     then Option.bind
                            (seatLabelledH grp tid chunk
                               (tabs, spliceChunk guestsToSeat (arr h1 chunk) h1))
                            (\<lambda>r. Some (True, guestsToSeat, fst r, processedGroups, snd r))
                     else Some (False, guestsToSeat, tabs, processedGroups, h1))
                else Some (False, guestsToSeat, tabs,
                           if arr h guestsToSeat \<noteq> []
                           then processedGroups @ [leftoverGroupH h grp guestsToSeat]
                           else processedGroups, h)
            | None \<Rightarrow> Some (False, guestsToSeat, tabs,
                             if arr h guestsToSeat \<noteq> []
                             then processedGroups @ [leftoverGroupH h grp guestsToSeat]
                             else processedGroups, h))))"

partial_function (option) knightWhileH :: "int \<Rightarrow> HGroup \<Rightarrow> KnightStateH
    \<Rightarrow> (HTables \<times> HGroup list \<times> Heap) option" where
  "knightWhileH cnt grp s =
     (if arr (snd (snd (snd s))) (fst s) = [] then Some (snd s)
      else Option.bind (knightStepH cnt grp s)
             (\<lambda>r. if fst r then knightWhileH cnt grp (snd r) else Some (snd (snd r))))"

declare knightWhileH.simps [code]

definition knightCandidatesH :: "HGroup list \<Rightarrow> HGroup list" where
  "knightCandidatesH processedGroups =
     (let knightCandidates = filter hg_isRequestedForKnight processedGroups in
      if length knightCandidates = 0
      then filter (\<lambda>g. hg_dominantCategory g = friend) processedGroups
      else knightCandidates)"

definition standardPoolH :: "HGroup list \<Rightarrow> HGroup list" where
  "standardPoolH processedGroups =
     (let knightCandidates = filter hg_isRequestedForKnight processedGroups in
      if length knightCandidates = 0
      then filter (\<lambda>g. hg_dominantCategory g \<noteq> friend) processedGroups
      else filter (\<lambda>g. \<not> hg_isRequestedForKnight g) processedGroups)"

text \<open>The body of \<open>for (const group of knightCandidates)\<close>, starting with the copy
  \<open>[...group.guests]\<close>.\<close>

definition knightSeatGroupH :: "int \<Rightarrow> HGroup \<Rightarrow> HTables \<times> HGroup list \<times> Heap
    \<Rightarrow> (HTables \<times> HGroup list \<times> Heap) option" where
  "knightSeatGroupH cnt grp st =
     (case alloc (arr (snd (snd st)) (hg_guests grp)) (snd (snd st)) of (guestsToSeat, h1) \<Rightarrow>
        knightWhileH cnt grp (guestsToSeat, fst st, fst (snd st), h1))"

definition knightPhaseH :: "KnightConfig \<Rightarrow> HGroup list \<Rightarrow> Heap
    \<Rightarrow> ((HTables \<times> nat) \<times> HGroup list \<times> Heap) option" where
  "knightPhaseH kc processedGroups h =
     (if knight_enabled kc \<and> knight_count kc > 0 then
        (case createKnightTablesH kc h of (tc, h1) \<Rightarrow>
           Option.bind
             (foldOption (knightSeatGroupH (knight_count kc))
                (sortDescBy hg_size (knightCandidatesH processedGroups))
                (fst tc, standardPoolH processedGroups, h1))
             (\<lambda>st. Some ((fst st, snd tc), snd st)))
      else Some (([], 0), processedGroups, h))"

subsection \<open>Standard tables in the store\<close>

definition newStandardTableH :: "HGroup \<Rightarrow> nat \<Rightarrow> int \<Rightarrow> HTable" where
  "newStandardTableH grp a cap =
     \<lparr> ht_guests = a, ht_side = Some (hg_dominantSide grp),
       ht_category = Some (hg_dominantCategory grp), ht_capacity = cap, ht_isKnight = False \<rparr>"

text \<open>A new table is stored with a fresh empty array, then the guests of the array at
  \<open>src\<close> are pushed onto it.\<close>

definition openTableH :: "HGroup \<Rightarrow> int \<Rightarrow> nat \<Rightarrow> nat \<Rightarrow> HTables \<times> Heap
    \<Rightarrow> (HTables \<times> Heap) option" where
  "openTableH grp cap src tableCounter st =
     (case alloc [] (snd st) of (a, h1) \<Rightarrow>
        Option.bind (pushFrom a src h1)
          (\<lambda>h2. Some (setProp tableCounter (newStandardTableH grp a cap) (fst st), h2)))"

text \<open>The state of the loop of one group: \<open>(guestsToSeat, groupSize, tableAssignments,
  tableCounter)\<close> and the store.\<close>

type_synonym StandardStateH = "nat \<times> int \<times> HTables \<times> nat \<times> Heap"

text \<open>The split onto a brand-new table: the table is stored with a fresh empty array and
  the capacity that the fill leaves it with, the chunk is a second fresh array.\<close>

definition splitNewTableH :: "int \<Rightarrow> HGroup \<Rightarrow> StandardStateH
    \<Rightarrow> (bool \<times> StandardStateH) option" where
  "splitNewTableH cap grp s =
     (case s of (guestsToSeat, groupSize, tabs, tableCounter, h) \<Rightarrow>
        (case alloc [] h of (a, h1) \<Rightarrow>
           (case alloc (fst (fillNewTable cap (arr h1 guestsToSeat))) h1 of (chunk, h2) \<Rightarrow>
              (let tabs' = setProp tableCounter
                             (newStandardTableH grp a
                                (snd (fillNewTable cap (arr h1 guestsToSeat)))) tabs
               in if arr h2 chunk \<noteq> []
                  then Option.bind
                         (pushFrom a chunk (spliceChunk guestsToSeat (arr h2 chunk) h2))
                         (\<lambda>h3. Some (True, guestsToSeat, getGuestsSize (arr h3 guestsToSeat),
                                     tabs', Suc tableCounter, h3))
                  else Some (False, guestsToSeat, groupSize, tabs', Suc tableCounter, h2)))))"

text \<open>One iteration of the standard loop. \<open>guestsToSeat = []\<close> binds the variable to a
  fresh empty array.\<close>

definition standardStepH :: "int \<Rightarrow> HGroup \<Rightarrow> StandardStateH
    \<Rightarrow> (bool \<times> StandardStateH) option" where
  "standardStepH cap grp s =
     (case s of (guestsToSeat, groupSize, tabs, tableCounter, h) \<Rightarrow>
        (case findBestFit (groupOf h grp) groupSize (tablesOf h tabs) of
           Some bestFitTableId \<Rightarrow>
             Option.bind (seatLabelledH grp bestFitTableId guestsToSeat (tabs, h))
               (\<lambda>r. case alloc [] (snd r) of (guestsToSeat', h2) \<Rightarrow>
                       Some (True, guestsToSeat', groupSize, fst r, tableCounter, h2))
         | None \<Rightarrow>
             if groupSize \<le> cap
             then Option.bind (openTableH grp cap guestsToSeat tableCounter (tabs, h))
                    (\<lambda>r. case alloc [] (snd r) of (guestsToSeat', h2) \<Rightarrow>
                            Some (True, guestsToSeat', groupSize, fst r, Suc tableCounter, h2))
             else (case findPartialTable (groupOf h grp) (tablesOf h tabs) of
                     Some (bestPartialTableId, maxPartialSpace) \<Rightarrow>
                       (case alloc (greedyChunk maxPartialSpace (arr h guestsToSeat)) h of
                          (chunk, h1) \<Rightarrow>
                            if arr h1 chunk \<noteq> []
                            then Option.bind
                                   (pushToTableH bestPartialTableId chunk
                                      (tabs, spliceChunk guestsToSeat (arr h1 chunk) h1))
                                   (\<lambda>r. Some (True, guestsToSeat,
                                              getGuestsSize (arr (snd r) guestsToSeat),
                                              fst r, tableCounter, snd r))
                            else splitNewTableH cap grp
                                   (guestsToSeat, groupSize, tabs, tableCounter, h1))
                   | None \<Rightarrow> splitNewTableH cap grp s)))"

partial_function (option) standardWhileH :: "int \<Rightarrow> HGroup \<Rightarrow> StandardStateH
    \<Rightarrow> (HTables \<times> nat \<times> Heap) option" where
  "standardWhileH cap grp s =
     (if arr (snd (snd (snd (snd s)))) (fst s) = [] then Some (snd (snd s))
      else Option.bind (standardStepH cap grp s)
             (\<lambda>r. if fst r then standardWhileH cap grp (snd r) else Some (snd (snd (snd r)))))"

declare standardWhileH.simps [code]

definition standardSeatGroupH :: "int \<Rightarrow> HGroup \<Rightarrow> HTables \<times> nat \<times> Heap
    \<Rightarrow> (HTables \<times> nat \<times> Heap) option" where
  "standardSeatGroupH cap grp st =
     (case alloc (arr (snd (snd st)) (hg_guests grp)) (snd (snd st)) of (guestsToSeat, h1) \<Rightarrow>
        standardWhileH cap grp
          (guestsToSeat, getGuestsSize (arr h1 guestsToSeat), fst st, fst (snd st), h1))"

definition standardPhaseH :: "int \<Rightarrow> HGroup list \<Rightarrow> HTables \<times> nat \<times> Heap
    \<Rightarrow> (HTables \<times> nat \<times> Heap) option" where
  "standardPhaseH cap processedGroups st =
     foldOption (standardSeatGroupH cap) (sortDescBy hg_size processedGroups) st"

subsection \<open>Phase C in the store\<close>

text \<open>\<open>tableA.guests = [...tableA.guests, ...tableB.guests]\<close> binds the property to a fresh
  array.\<close>

definition mergeIntoH :: "nat \<Rightarrow> HTable \<Rightarrow> HTable" where
  "mergeIntoH a tableA = tableA\<lparr>ht_guests := a, ht_side := Some both\<rparr>"

fun findPartnerH :: "TableId \<Rightarrow> HTable \<Rightarrow> int \<Rightarrow> TableId list
    \<Rightarrow> HTables \<times> TableId list \<times> Heap \<Rightarrow> HTables \<times> TableId list \<times> Heap" where
  "findPartnerH idA tableA sizeA [] st = st"
| "findPartnerH idA tableA sizeA (idB # rest) st =
     (if idB \<in> set (fst (snd st)) then findPartnerH idA tableA sizeA rest st
      else (case map_of (fst st) idB of
              None \<Rightarrow> findPartnerH idA tableA sizeA rest st
            | Some tableB \<Rightarrow>
                if sizeA + getGuestsSize (arr (snd (snd st)) (ht_guests tableB))
                   \<le> ht_capacity tableA
                then (case alloc (arr (snd (snd st)) (ht_guests tableA)
                                  @ arr (snd (snd st)) (ht_guests tableB)) (snd (snd st)) of
                        (a, h1) \<Rightarrow>
                          (deleteProp idB (modifyTableH idA (mergeIntoH a) (fst st)),
                           idB # fst (snd st), h1))
                else findPartnerH idA tableA sizeA rest st))"

fun mergeLoopH :: "TableId list \<Rightarrow> HTables \<times> TableId list \<times> Heap
    \<Rightarrow> HTables \<times> TableId list \<times> Heap" where
  "mergeLoopH [] st = st"
| "mergeLoopH (idA # rest) st =
     (if idA \<in> set (fst (snd st)) then mergeLoopH rest st
      else (case map_of (fst st) idA of
              None \<Rightarrow> mergeLoopH rest st
            | Some tableA \<Rightarrow>
                (let sizeA = getGuestsSize (arr (snd (snd st)) (ht_guests tableA)) in
                 if sizeA \<ge> ht_capacity tableA then mergeLoopH rest st
                 else mergeLoopH rest (findPartnerH idA tableA sizeA rest st))))"

definition mergeSparseTablesH :: "HTables \<times> Heap \<Rightarrow> HTables \<times> Heap" where
  "mergeSparseTablesH st =
     (let r = mergeLoopH (standardTableIds (tablesOf (snd st) (fst st))) (fst st, [], snd st)
      in (fst r, snd (snd r)))"

subsection \<open>The optimizer in the store\<close>

text \<open>The result holds the fresh object \<open>finalAssignment\<close> and the copies \<open>{id, ...table}\<close> of
  the table objects, which share the arrays of the tables.\<close>

record HResult =
  h_assignments :: "string \<rightharpoonup> TableId"
  h_tables :: HTables

definition resultOf :: "Heap \<Rightarrow> HResult \<Rightarrow> OptimizationResult" where
  "resultOf h r = \<lparr> assignments = h_assignments r,
                    tables = map toOptimizedTable (tablesOf h (h_tables r)) \<rparr>"

text \<open>\<open>optimizeSeating(guests, _tables, config)\<close> with \<open>guests\<close> the array at address \<open>a\<close>.
  A call that ends yields the error thrown or the result, and the store it leaves; a call
  that does not end yields nothing.\<close>

definition optimizeSeatingH :: "nat \<Rightarrow> OptimizationConfig \<Rightarrow> Heap
    \<Rightarrow> ((error + HResult) \<times> Heap) option" where
  "optimizeSeatingH a config h =
     (case processedGroupsH a config h of
        Inl e \<Rightarrow> Some (Inl (fst e), snd e)
      | Inr g \<Rightarrow>
          Option.bind (knightPhaseH (knightConfigOf config) (fst g) (snd g))
            (\<lambda>k. Option.bind (standardPhaseH (tableCapacityOf config) (fst (snd k))
                                (fst (fst k), snd (fst k), snd (snd k)))
                   (\<lambda>s. case mergeSparseTablesH (fst s, snd (snd s)) of (tabs, h') \<Rightarrow>
                           Some (Inr \<lparr> h_assignments = finalAssignment (tablesOf h' tabs),
                                       h_tables = tabs \<rparr>, h'))))"

text \<open>What a call yields, with the tables of a result read from the store.\<close>

definition outcomeOf :: "Heap \<Rightarrow> error + HResult \<Rightarrow> error + OptimizationResult" where
  "outcomeOf h res = (case res of Inl e \<Rightarrow> Inl e | Inr r \<Rightarrow> Inr (resultOf h r))"

text \<open>A store whose only array is the input.\<close>

definition storeOf :: "Guest list \<Rightarrow> Heap" where
  "storeOf gs = \<lparr> arr = (\<lambda>a. if a = 0 then gs else []), nextFree = 1 \<rparr>"

subsection \<open>What the primitives do to the store\<close>

lemma pushAll_arr [simp]: "arr (pushAll a xs h) = (arr h)(a := arr h a @ xs)"
  unfolding pushAll_def
  by (induction xs arbitrary: h) (simp_all add: push_def)

lemma pushAll_next [simp]: "nextFree (pushAll a xs h) = nextFree h"
  unfolding pushAll_def
  by (induction xs arbitrary: h) (simp_all add: push_def)

lemma push_arr [simp]: "arr (push a g h) = (arr h)(a := arr h a @ [g])"
  by (simp add: push_def)

lemma push_next [simp]: "nextFree (push a g h) = nextFree h"
  by (simp add: push_def)

lemma spliceChunk_arr [simp]:
  "arr (spliceChunk a c h) = (arr h)(a := removeChunk c (arr h a))"
  unfolding spliceChunk_def removeChunk_def
  by (induction c arbitrary: h) simp_all

lemma spliceChunk_next [simp]: "nextFree (spliceChunk a c h) = nextFree h"
  unfolding spliceChunk_def
  by (induction c arbitrary: h) simp_all

subsection \<open>Tables and groups read from the store\<close>

definition tabAddrs :: "HTables \<Rightarrow> nat list" where
  "tabAddrs tabs = map (\<lambda>p. ht_guests (snd p)) tabs"

definition grpAddrs :: "HGroup list \<Rightarrow> nat list" where
  "grpAddrs gs = map hg_guests gs"

lemma tablesOf_keys [simp]: "map fst (tablesOf h tabs) = map fst tabs"
  by (simp add: tablesOf_def comp_def)

lemma tablesOf_cong:
  assumes "\<And>a. a \<in> set (tabAddrs tabs) \<Longrightarrow> arr h' a = arr h a"
  shows "tablesOf h' tabs = tablesOf h tabs"
  using assms by (auto simp: tablesOf_def tableOf_def tabAddrs_def)

lemma groupOf_cong:
  assumes "\<And>a. a \<in> set (grpAddrs gs) \<Longrightarrow> arr h' a = arr h a"
  shows "map (groupOf h') gs = map (groupOf h) gs"
  using assms by (auto simp: groupOf_def grpAddrs_def)

lemma map_of_tablesOf: "map_of (tablesOf h tabs) k = map_option (tableOf h) (map_of tabs k)"
  by (induction tabs) (auto simp: tablesOf_def)

lemma tablesOf_setProp:
  "tablesOf h (setProp k t tabs) = setProp k (tableOf h t) (tablesOf h tabs)"
  by (induction tabs) (auto simp: tablesOf_def)

lemma tablesOf_deleteProp: "tablesOf h (deleteProp k tabs) = deleteProp k (tablesOf h tabs)"
  by (simp add: tablesOf_def deleteProp_def filter_map comp_def)

lemma setProp_keys: "distinct (map fst (setProp k v ps)) = distinct (map fst ps)"
proof (induction ps)
  case Nil
  then show ?case by simp
next
  case (Cons p ps)
  have "fst ` set (setProp k v ps) = insert k (fst ` set ps)" for ps :: "('a \<times> 'b) list"
    by (induction ps) auto
  with Cons show ?case by auto
qed

lemma setProp_snd_set: "set (map f (setProp k v ps)) \<subseteq> insert (f (k, v)) (set (map f ps))"
  by (induction ps) auto

lemma setProp_snd_distinct:
  assumes "distinct (map f ps)" and "f (k, v) \<notin> set (map f ps)"
  shows "distinct (map f (setProp k v ps))"
  using assms
proof (induction ps)
  case Nil
  then show ?case by simp
next
  case (Cons p ps)
  then have "f p \<notin> set (map f (setProp k v ps))"
    using setProp_snd_set [of f k v ps] by auto
  with Cons show ?case by auto
qed

text \<open>The tables in a store are well formed when their keys are unique, no two of them
  share an array, and every array lies in the part of the store allocated since \<open>base\<close>.\<close>

definition storeOK :: "nat \<Rightarrow> Heap \<Rightarrow> HTables \<Rightarrow> bool" where
  "storeOK base h tabs =
     (distinct (map fst tabs) \<and> distinct (tabAddrs tabs)
      \<and> list_all (\<lambda>a. base \<le> a \<and> a < nextFree h) (tabAddrs tabs))"

text \<open>\<open>mods W h h'\<close>: from \<open>h\<close> to \<open>h'\<close> the store has only grown, and of the arrays of \<open>h\<close>
  only those at the addresses \<open>W\<close> may have changed.\<close>

definition mods :: "nat set \<Rightarrow> Heap \<Rightarrow> Heap \<Rightarrow> bool" where
  "mods W h h' = (nextFree h \<le> nextFree h'
                  \<and> list_all (\<lambda>a. a \<in> W \<or> arr h' a = arr h a) [0..<nextFree h])"

lemma modsI:
  assumes "nextFree h \<le> nextFree h'"
    and "\<And>a. a < nextFree h \<Longrightarrow> a \<notin> W \<Longrightarrow> arr h' a = arr h a"
  shows "mods W h h'"
  using assms unfolding mods_def list_all_iff by fastforce

lemma modsD:
  assumes "mods W h h'" and "a < nextFree h" and "a \<notin> W"
  shows "arr h' a = arr h a"
  using assms by (auto simp: mods_def list_all_iff)

lemma mods_next: "mods W h h' \<Longrightarrow> nextFree h \<le> nextFree h'"
  by (simp add: mods_def)

lemma mods_refl [simp]: "mods W h h"
  by (rule modsI) simp_all

lemma mods_trans:
  assumes "mods W h h1" and "mods W' h1 h2"
    and "\<And>a. a \<in> W' \<Longrightarrow> a \<in> W \<or> nextFree h \<le> a"
  shows "mods W h h2"
proof (rule modsI)
  show "nextFree h \<le> nextFree h2"
    using mods_next [OF assms(1)] mods_next [OF assms(2)] by simp
next
  fix a assume a: "a < nextFree h" "a \<notin> W"
  then have "a \<notin> W'" using assms(3) [of a] by auto
  moreover have "a < nextFree h1" using a mods_next [OF assms(1)] by simp
  ultimately have "arr h2 a = arr h1 a" using modsD [OF assms(2)] by simp
  also have "arr h1 a = arr h a" using modsD [OF assms(1)] a by simp
  finally show "arr h2 a = arr h a" .
qed

lemma mods_mono: "mods W h h' \<Longrightarrow> W \<subseteq> W' \<Longrightarrow> mods W' h h'"
  by (auto simp: mods_def list_all_iff)

lemma mods_alloc:
  assumes "mods W (snd (alloc xs h)) h'"
  shows "mods (W - {nextFree h}) h h'"
  using assms by (auto simp: mods_def list_all_iff alloc_def)

lemma storeOK_grow:
  "storeOK base h tabs \<Longrightarrow> nextFree h \<le> nextFree h' \<Longrightarrow> storeOK base h' tabs"
  by (auto simp: storeOK_def list_all_iff)

lemma storeOK_addr:
  "storeOK base h tabs \<Longrightarrow> a \<in> set (tabAddrs tabs) \<Longrightarrow> base \<le> a \<and> a < nextFree h"
  by (auto simp: storeOK_def list_all_iff)

lemma storeOK_lookup:
  assumes "storeOK base h tabs" and "map_of tabs tid = Some t"
  shows "ht_guests t \<in> set (tabAddrs tabs)"
    and "\<And>p. p \<in> set tabs \<Longrightarrow> fst p = tid \<Longrightarrow> snd p = t"
    and "\<And>p. p \<in> set tabs \<Longrightarrow> fst p \<noteq> tid \<Longrightarrow> ht_guests (snd p) \<noteq> ht_guests t"
proof -
  from assms(2) have mem: "(tid, t) \<in> set tabs" by (rule map_of_SomeD)
  then show "ht_guests t \<in> set (tabAddrs tabs)" by (force simp: tabAddrs_def)
  from assms(1) have dk: "distinct (map fst tabs)" and da: "distinct (tabAddrs tabs)"
    by (simp_all add: storeOK_def)
  show "snd p = t" if "p \<in> set tabs" "fst p = tid" for p
    using that mem dk by (metis eq_key_imp_eq_value prod.collapse)
  show "ht_guests (snd p) \<noteq> ht_guests t" if "p \<in> set tabs" "fst p \<noteq> tid" for p
  proof
    assume eq: "ht_guests (snd p) = ht_guests t"
    have "inj_on (\<lambda>p. ht_guests (snd p)) (set tabs)"
      using da by (simp add: tabAddrs_def distinct_map)
    from inj_onD [OF this, of p "(tid, t)"] that(1) mem eq have "p = (tid, t)" by simp
    with that(2) show False by simp
  qed
qed

lemma tabAddrs_open: "set (tabAddrs (setProp k t tabs)) \<subseteq> insert (ht_guests t) (set (tabAddrs tabs))"
  using setProp_snd_set [of "\<lambda>p. ht_guests (snd p)" k t tabs] by (simp add: tabAddrs_def)

lemma storeOK_open:
  assumes "storeOK base h tabs" and "base \<le> nextFree h" and "ht_guests t = nextFree h"
    and "nextFree h < nextFree h'"
  shows "storeOK base h' (setProp k t tabs)"
proof -
  let ?f = "\<lambda>p :: nat \<times> HTable. ht_guests (snd p)"
  from assms(1) have fresh: "?f (k, t) \<notin> set (map ?f tabs)"
    using assms(3) by (auto simp: storeOK_def list_all_iff tabAddrs_def)
  from assms(1) have "distinct (map ?f tabs)" by (simp add: storeOK_def tabAddrs_def)
  then have "distinct (map ?f (setProp k t tabs))" using fresh by (rule setProp_snd_distinct)
  then have d: "distinct (tabAddrs (setProp k t tabs))" by (simp add: tabAddrs_def)
  have sub: "set (tabAddrs (setProp k t tabs)) \<subseteq> insert (nextFree h) (set (tabAddrs tabs))"
    using tabAddrs_open [of k t tabs] assms(3) by simp
  have "\<forall>a\<in>set (tabAddrs (setProp k t tabs)). base \<le> a \<and> a < nextFree h'"
    using sub assms(1,2,4) by (fastforce simp: storeOK_def list_all_iff)
  with d assms(1) show ?thesis by (simp add: storeOK_def list_all_iff setProp_keys)
qed

lemma tabAddrs_label [simp]: "tabAddrs (modifyTableH tid (labelH grp) tabs) = tabAddrs tabs"
  by (auto simp: tabAddrs_def modifyTableH_def labelH_def)

lemma keys_modifyH [simp]: "map fst (modifyTableH tid f tabs) = map fst tabs"
  by (auto simp: modifyTableH_def)

lemma storeOK_label [simp]:
  "storeOK base h (modifyTableH tid (labelH grp) tabs) = storeOK base h tabs"
  by (simp add: storeOK_def)

text \<open>A write at the array of one table is the update of the entry under its key.\<close>

lemma tablesOf_modify:
  assumes ok: "storeOK base h tabs" and look: "map_of tabs tid = Some t"
    and other: "\<And>a. a \<in> set (tabAddrs tabs) \<Longrightarrow> a \<noteq> ht_guests t \<Longrightarrow> arr h' a = arr h a"
    and upd: "tableOf h' (f t) = g (tableOf h t)"
  shows "tablesOf h' (modifyTableH tid f tabs) = modifyTable tid g (tablesOf h tabs)"
proof -
  have a: "tableOf h' (f (snd p)) = g (tableOf h (snd p))"
    if p: "p \<in> set tabs" "fst p = tid" for p
    using storeOK_lookup(2) [OF ok look p] upd by simp
  have b: "tableOf h' (snd p) = tableOf h (snd p)" if p: "p \<in> set tabs" "fst p \<noteq> tid" for p
  proof -
    have "ht_guests (snd p) \<noteq> ht_guests t" using storeOK_lookup(3) [OF ok look p] .
    moreover have "ht_guests (snd p) \<in> set (tabAddrs tabs)"
      using p(1) by (auto simp: tabAddrs_def)
    ultimately have "arr h' (ht_guests (snd p)) = arr h (ht_guests (snd p))" using other by simp
    then show ?thesis by (simp add: tableOf_def)
  qed
  show ?thesis
    unfolding tablesOf_def modifyTableH_def modifyTable_def map_map
    by (rule map_cong [OF refl]) (simp add: a b)
qed

lemma modifyTableH_id: "modifyTableH tid (\<lambda>t. t) tabs = tabs"
  by (induction tabs) (auto simp: modifyTableH_def)

subsection \<open>The store model seats as the value model does\<close>

lemma modifyTable_unset: "map_of tabs tid = None \<Longrightarrow> modifyTable tid f tabs = tabs"
proof -
  assume "map_of tabs tid = None"
  then have "tid \<notin> fst ` set tabs" by (simp add: map_of_eq_None_iff)
  then have "\<And>p. p \<in> set tabs \<Longrightarrow> fst p \<noteq> tid" by auto
  then show ?thesis by (simp add: modifyTable_def map_idI)
qed

lemma pushFrom_Some:
  "dst \<noteq> src \<Longrightarrow> pushFrom dst src h = Some (pushAll dst (arr h src) h)"
  by (simp add: pushFrom_def)

lemma seatLabelledH_sim:
  assumes ok: "storeOK base h tabs" and src: "src \<notin> set (tabAddrs tabs)"
  obtains tabs' h' where "seatLabelledH grpH tid src (tabs, h) = Some (tabs', h')"
    and "tablesOf h' tabs'
         = modifyTable tid (seatLabelled (groupOf hx grpH) (arr h src)) (tablesOf h tabs)"
    and "storeOK base h' tabs'" and "tabAddrs tabs' = tabAddrs tabs"
    and "nextFree h' = nextFree h"
    and "\<And>a. a \<notin> set (tabAddrs tabs) \<Longrightarrow> arr h' a = arr h a"
proof (cases "map_of tabs tid")
  case None
  then have "seatLabelledH grpH tid src (tabs, h) = Some (tabs, h)"
    by (simp add: seatLabelledH_def)
  moreover have "map_of (tablesOf h tabs) tid = None" using None by (simp add: map_of_tablesOf)
  then have "tablesOf h tabs
             = modifyTable tid (seatLabelled (groupOf hx grpH) (arr h src)) (tablesOf h tabs)"
    by (simp add: modifyTable_unset)
  ultimately show ?thesis using ok by (intro that [of tabs h]) simp_all
next
  case (Some t)
  let ?ta = "ht_guests t"
  let ?h' = "pushAll ?ta (arr h src) h"
  let ?lab = "length (arr ?h' ?ta) = length (arr ?h' src)"
  let ?tabs' = "if ?lab then modifyTableH tid (labelH grpH) tabs else tabs"
  have ta: "?ta \<in> set (tabAddrs tabs)" using storeOK_lookup(1) [OF ok Some] .
  with src have ne: "?ta \<noteq> src" by auto
  have run: "seatLabelledH grpH tid src (tabs, h) = Some (?tabs', ?h')"
    using Some ne by (simp add: seatLabelledH_def pushFrom_Some)
  have other: "\<And>a. a \<in> set (tabAddrs tabs) \<Longrightarrow> a \<noteq> ?ta \<Longrightarrow> arr ?h' a = arr h a" by simp
  have abs: "tablesOf ?h' ?tabs'
             = modifyTable tid (seatLabelled (groupOf hx grpH) (arr h src)) (tablesOf h tabs)"
  proof (cases ?lab)
    case True
    have "tableOf ?h' (labelH grpH t) = seatLabelled (groupOf hx grpH) (arr h src) (tableOf h t)"
      using True ne
      by (simp add: tableOf_def labelH_def seatLabelled_def pushGuests_def groupOf_def)
    from tablesOf_modify [where f = "labelH grpH"
        and g = "seatLabelled (groupOf hx grpH) (arr h src)", OF ok Some other this] True
    show ?thesis by simp
  next
    case False
    have "tableOf ?h' ((\<lambda>t. t) t) = seatLabelled (groupOf hx grpH) (arr h src) (tableOf h t)"
      using False ne
      by (simp add: tableOf_def seatLabelled_def pushGuests_def)
    from tablesOf_modify [where f = "\<lambda>t. t"
        and g = "seatLabelled (groupOf hx grpH) (arr h src)", OF ok Some other this] False
    show ?thesis by (simp add: modifyTableH_id)
  qed
  show ?thesis
  proof (rule that [OF run abs])
    show "storeOK base ?h' ?tabs'" using ok by (simp add: storeOK_def)
    show "tabAddrs ?tabs' = tabAddrs tabs" by simp
    show "nextFree ?h' = nextFree h" by simp
    show "arr ?h' a = arr h a" if "a \<notin> set (tabAddrs tabs)" for a using that ta by auto
  qed
qed

lemma pushToTableH_sim:
  assumes ok: "storeOK base h tabs" and src: "src \<notin> set (tabAddrs tabs)"
  obtains h' where "pushToTableH tid src (tabs, h) = Some (tabs, h')"
    and "tablesOf h' tabs = modifyTable tid (pushGuests (arr h src)) (tablesOf h tabs)"
    and "nextFree h' = nextFree h"
    and "\<And>a. a \<notin> set (tabAddrs tabs) \<Longrightarrow> arr h' a = arr h a"
proof (cases "map_of tabs tid")
  case None
  then have "pushToTableH tid src (tabs, h) = Some (tabs, h)"
    by (simp add: pushToTableH_def)
  moreover have "map_of (tablesOf h tabs) tid = None" using None by (simp add: map_of_tablesOf)
  then have "tablesOf h tabs = modifyTable tid (pushGuests (arr h src)) (tablesOf h tabs)"
    by (simp add: modifyTable_unset)
  ultimately show ?thesis by (intro that [of h]) simp_all
next
  case (Some t)
  let ?ta = "ht_guests t"
  let ?h' = "pushAll ?ta (arr h src) h"
  have ta: "?ta \<in> set (tabAddrs tabs)" using storeOK_lookup(1) [OF ok Some] .
  with src have ne: "?ta \<noteq> src" by auto
  have run: "pushToTableH tid src (tabs, h) = Some (tabs, ?h')"
    using Some ne by (simp add: pushToTableH_def pushFrom_Some)
  have other: "\<And>a. a \<in> set (tabAddrs tabs) \<Longrightarrow> a \<noteq> ?ta \<Longrightarrow> arr ?h' a = arr h a" by simp
  have "tableOf ?h' ((\<lambda>t. t) t) = pushGuests (arr h src) (tableOf h t)"
    by (simp add: tableOf_def pushGuests_def)
  from tablesOf_modify [where f = "\<lambda>t. t" and g = "pushGuests (arr h src)",
      OF ok Some other this]
  have abs: "tablesOf ?h' tabs = modifyTable tid (pushGuests (arr h src)) (tablesOf h tabs)"
    by (simp add: modifyTableH_id)
  show ?thesis
  proof (rule that [OF run abs])
    show "nextFree ?h' = nextFree h" by simp
    show "arr ?h' a = arr h a" if "a \<notin> set (tabAddrs tabs)" for a using that ta by auto
  qed
qed

text \<open>Groups whose arrays no write of the loop can reach: allocated, and neither the array
  \<open>guestsToSeat\<close> nor the array of a table.\<close>

definition apart :: "Heap \<Rightarrow> HTables \<Rightarrow> HGroup list \<Rightarrow> bool" where
  "apart h tabs gs = list_all (\<lambda>a. a < nextFree h \<and> a \<notin> set (tabAddrs tabs)) (grpAddrs gs)"

lemma apartD:
  "apart h tabs gs \<Longrightarrow> a \<in> set (grpAddrs gs) \<Longrightarrow> a < nextFree h \<and> a \<notin> set (tabAddrs tabs)"
  by (auto simp: apart_def list_all_iff)

lemma apart_mods:
  assumes "apart h tabs gs" and "mods W h h'" and "W \<inter> set (grpAddrs gs) = {}"
  shows "map (groupOf h') gs = map (groupOf h) gs"
proof (rule groupOf_cong)
  fix a assume a: "a \<in> set (grpAddrs gs)"
  with assms(1) have "a < nextFree h" by (auto dest: apartD)
  moreover have "a \<notin> W" using a assms(3) by auto
  ultimately show "arr h' a = arr h a" using assms(2) by (auto dest: modsD)
qed

lemma tablesOf_mods:
  assumes "storeOK base h tabs" and "mods W h h'" and "W \<inter> set (tabAddrs tabs) = {}"
  shows "tablesOf h' tabs = tablesOf h tabs"
proof (rule tablesOf_cong)
  fix a assume a: "a \<in> set (tabAddrs tabs)"
  with assms(1) have "a < nextFree h" by (auto dest: storeOK_addr)
  moreover have "a \<notin> W" using a assms(3) by auto
  ultimately show "arr h' a = arr h a" using assms(2) by (auto dest: modsD)
qed

lemma groupOf_leftover:
  "leftoverGroup (groupOf hx grpH) (arr h a) = groupOf h (leftoverGroupH h grpH a)"
  by (simp add: groupOf_def leftoverGroupH_def leftoverGroup_def)

text \<open>The state of the value model that a state of the store model stands for.\<close>

definition knightAbs :: "KnightStateH \<Rightarrow> KnightState" where
  "knightAbs s = (case s of (gsA, tabs, pool, h) \<Rightarrow>
                    (arr h gsA, tablesOf h tabs, map (groupOf h) pool))"

lemma knightStepH_sim:
  assumes ok: "storeOK base h tabs" and gs: "gsA < nextFree h" "gsA \<notin> set (tabAddrs tabs)"
    and ro: "apart h tabs pool" "gsA \<notin> set (grpAddrs pool)"
  obtains b tabs' pool' h' where
    "knightStepH cnt grpH (gsA, tabs, pool, h) = Some (b, gsA, tabs', pool', h')"
    and "knightStep cnt (groupOf hx grpH) (knightAbs (gsA, tabs, pool, h))
         = (if b then Continue else Break) (knightAbs (gsA, tabs', pool', h'))"
    and "storeOK base h' tabs'" and "tabAddrs tabs' = tabAddrs tabs"
    and "mods (insert gsA (set (tabAddrs tabs))) h h'"
    and "b \<Longrightarrow> pool' = pool"
    and "set (grpAddrs pool') \<subseteq> insert gsA (set (grpAddrs pool))"
proof -
  let ?grp = "groupOf hx grpH"
  obtain bt m where f: "findKnightTable cnt (tablesOf h tabs) = (bt, m)"
    by (cases "findKnightTable cnt (tablesOf h tabs)")
  let ?left = "if arr h gsA \<noteq> [] then pool @ [leftoverGroupH h grpH gsA] else pool"
  show ?thesis
  proof (cases "\<exists>tid. bt = Some tid \<and> 0 < m")
    case False
    then have run: "knightStepH cnt grpH (gsA, tabs, pool, h) = Some (False, gsA, tabs, ?left, h)"
      using f by (cases bt) (auto simp: knightStepH_def)
    have abs: "knightStep cnt ?grp (knightAbs (gsA, tabs, pool, h))
               = (if False then Continue else Break) (knightAbs (gsA, tabs, ?left, h))"
      using f False by (cases bt) (auto simp: knightStep_def knightAbs_def groupOf_leftover)
    show ?thesis
    proof (rule that [OF run abs])
      show "set (grpAddrs ?left) \<subseteq> insert gsA (set (grpAddrs pool))"
        by (auto simp: grpAddrs_def leftoverGroupH_def)
    qed (use ok in simp_all)
  next
    case True
    then obtain tid where bt: "bt = Some tid" and m: "0 < m" by auto
    let ?chunk = "greedyChunk m (arr h gsA)"
    let ?c = "nextFree h"
    let ?h1 = "snd (alloc ?chunk h)"
    have h1: "alloc ?chunk h = (?c, ?h1)" by (simp add: alloc_def)
    have arr1: "arr ?h1 = (arr h)(?c := ?chunk)" and next1: "nextFree ?h1 = Suc ?c"
      by (simp_all add: alloc_def)
    have T: "\<And>a. a \<in> set (tabAddrs tabs) \<Longrightarrow> a < ?c" using ok by (auto dest: storeOK_addr)
    have P: "\<And>a. a \<in> set (grpAddrs pool) \<Longrightarrow> a < ?c \<and> a \<noteq> gsA \<and> a \<notin> set (tabAddrs tabs)"
      using ro by (auto dest: apartD)
    show ?thesis
    proof (cases "?chunk = []")
      case True
      have run: "knightStepH cnt grpH (gsA, tabs, pool, h) = Some (False, gsA, tabs, pool, ?h1)"
        using f bt m True by (simp add: knightStepH_def alloc_def)
      have m1: "mods {} h ?h1" by (rule modsI) (simp_all add: alloc_def)
      have t1: "tablesOf ?h1 tabs = tablesOf h tabs"
        by (rule tablesOf_mods [OF ok m1]) simp
      have p1: "map (groupOf ?h1) pool = map (groupOf h) pool"
        by (rule apart_mods [OF ro(1) m1]) simp
      have g1: "arr ?h1 gsA = arr h gsA" using gs(1) by (simp add: alloc_def)
      have "knightStep cnt ?grp (arr h gsA, tablesOf h tabs, map (groupOf h) pool)
            = Break (arr h gsA, tablesOf h tabs, map (groupOf h) pool)"
        using f bt m True by (simp add: knightStep_def)
      then have abs: "knightStep cnt ?grp (knightAbs (gsA, tabs, pool, h))
                 = (if False then Continue else Break) (knightAbs (gsA, tabs, pool, ?h1))"
        by (simp add: knightAbs_def t1 p1 g1)
      show ?thesis
      proof (rule that [OF run abs])
        show "storeOK base ?h1 tabs" using ok by (rule storeOK_grow) (simp add: alloc_def)
        show "mods (insert gsA (set (tabAddrs tabs))) h ?h1" using m1 by (rule mods_mono) simp
      qed auto
    next
      case False
      let ?h2 = "spliceChunk gsA ?chunk ?h1"
      have ok2: "storeOK base ?h2 tabs" using ok by (rule storeOK_grow) (simp add: alloc_def)
      have c: "?c \<notin> set (tabAddrs tabs)" using T by auto
      show ?thesis
      proof (rule seatLabelledH_sim [OF ok2 c, where grpH = grpH and tid = tid and hx = hx])
        fix tabs' h'
        assume seat: "seatLabelledH grpH tid ?c (tabs, ?h2) = Some (tabs', h')"
          and tabs': "tablesOf h' tabs'
               = modifyTable tid (seatLabelled ?grp (arr ?h2 ?c)) (tablesOf ?h2 tabs)"
          and ok': "storeOK base h' tabs'" and addrs: "tabAddrs tabs' = tabAddrs tabs"
          and next': "nextFree h' = nextFree ?h2"
          and frame: "\<And>a. a \<notin> set (tabAddrs tabs) \<Longrightarrow> arr h' a = arr ?h2 a"
        have neq: "gsA \<noteq> ?c" using gs(1) by simp
        have c2: "arr ?h2 ?c = ?chunk" using neq by (simp add: alloc_def)
        have run: "knightStepH cnt grpH (gsA, tabs, pool, h) = Some (True, gsA, tabs', pool, h')"
          using f bt m False seat by (simp add: knightStepH_def alloc_def)
        have m2: "mods {gsA} h ?h2" using neq by (intro modsI) (auto simp: alloc_def)
        have t2: "tablesOf ?h2 tabs = tablesOf h tabs"
          by (rule tablesOf_mods [OF ok m2]) (use gs(2) in simp)
        have g': "arr h' gsA = removeChunk ?chunk (arr h gsA)"
          using frame [OF gs(2)] neq by (simp add: alloc_def)
        have m': "mods (insert gsA (set (tabAddrs tabs))) h h'"
        proof (rule modsI)
          show "nextFree h \<le> nextFree h'" using next' by (simp add: alloc_def)
          fix a assume "a < nextFree h" "a \<notin> insert gsA (set (tabAddrs tabs))"
          then show "arr h' a = arr h a" using frame [of a] by (simp add: alloc_def)
        qed
        have p': "map (groupOf h') pool = map (groupOf h) pool"
          by (rule apart_mods [OF ro(1) m']) (use P in auto)
        have tabs'': "tablesOf h' tabs'
                      = modifyTable tid (seatLabelled ?grp ?chunk) (tablesOf h tabs)"
          by (simp only: tabs' c2 t2)
        have abs: "knightStep cnt ?grp (knightAbs (gsA, tabs, pool, h))
                   = (if True then Continue else Break) (knightAbs (gsA, tabs', pool, h'))"
          using f bt m False by (simp add: knightStep_def knightAbs_def Let_def tabs'' g' p')
        show ?thesis by (rule that [OF run abs ok' addrs m']) auto
      qed
    qed
  qed
qed

lemma apart_grow:
  assumes "apart h tabs gs" and "nextFree h \<le> nextFree h'" and "tabAddrs tabs' = tabAddrs tabs"
  shows "apart h' tabs' gs"
  using assms by (auto simp: apart_def list_all_iff)

lemma knightWhileH_ex:
  assumes "storeOK base h tabs" and "gsA < nextFree h" and "gsA \<notin> set (tabAddrs tabs)"
    and "apart h tabs pool" and "gsA \<notin> set (grpAddrs pool)"
  shows "\<exists>tabs' pool' h'.
           knightWhileH cnt grpH (gsA, tabs, pool, h) = Some (tabs', pool', h')
           \<and> knightWhile cnt (groupOf hx grpH) (knightAbs (gsA, tabs, pool, h))
               = (tablesOf h' tabs', map (groupOf h') pool')
           \<and> storeOK base h' tabs' \<and> tabAddrs tabs' = tabAddrs tabs
           \<and> mods (insert gsA (set (tabAddrs tabs))) h h'
           \<and> set (grpAddrs pool') \<subseteq> insert gsA (set (grpAddrs pool))"
  using assms
proof (induction "length (arr h gsA)" arbitrary: tabs pool h rule: less_induct)
  case less
  let ?grp = "groupOf hx grpH"
  show ?case
  proof (cases "arr h gsA = []")
    case True
    have "knightWhileH cnt grpH (gsA, tabs, pool, h) = Some (tabs, pool, h)"
      using True by (subst knightWhileH.simps) simp
    moreover have "knightWhile cnt ?grp (knightAbs (gsA, tabs, pool, h))
                   = (tablesOf h tabs, map (groupOf h) pool)"
      using True by (simp add: knightAbs_def knightWhile.simps)
    ultimately show ?thesis using less.prems(1) by auto
  next
    case False
    show ?thesis
    proof (rule knightStepH_sim [OF less.prems, where cnt = cnt and grpH = grpH and hx = hx])
      fix b tabs' pool' h'
      assume run: "knightStepH cnt grpH (gsA, tabs, pool, h) = Some (b, gsA, tabs', pool', h')"
        and abs: "knightStep cnt ?grp (knightAbs (gsA, tabs, pool, h))
                  = (if b then Continue else Break) (knightAbs (gsA, tabs', pool', h'))"
        and ok': "storeOK base h' tabs'" and addrs: "tabAddrs tabs' = tabAddrs tabs"
        and m: "mods (insert gsA (set (tabAddrs tabs))) h h'"
        and keep: "b \<Longrightarrow> pool' = pool"
        and sub: "set (grpAddrs pool') \<subseteq> insert gsA (set (grpAddrs pool))"
      have unfoldH: "knightWhileH cnt grpH (gsA, tabs, pool, h)
                     = (if b then knightWhileH cnt grpH (gsA, tabs', pool', h')
                        else Some (tabs', pool', h'))"
        using False run by (subst knightWhileH.simps) simp
      have unfold: "knightWhile cnt ?grp (knightAbs (gsA, tabs, pool, h))
                    = (if b then knightWhile cnt ?grp (knightAbs (gsA, tabs', pool', h'))
                       else (tablesOf h' tabs', map (groupOf h') pool'))"
        using False abs by (simp add: knightAbs_def knightWhile.simps)
      show ?thesis
      proof (cases b)
        case False
        then show ?thesis using unfoldH unfold ok' addrs m sub by auto
      next
        case True
        then have pool': "pool' = pool" by (rule keep)
        from abs True have "knightStep cnt ?grp (arr h gsA, tablesOf h tabs, map (groupOf h) pool)
                            = Continue (arr h' gsA, tablesOf h' tabs', map (groupOf h') pool')"
          by (simp add: knightAbs_def)
        then have shorter: "length (arr h' gsA) < length (arr h gsA)" by (rule knightStep_shorter)
        have next': "nextFree h \<le> nextFree h'" using m by (rule mods_next)
        have "\<exists>tabs'' pool'' h''.
                knightWhileH cnt grpH (gsA, tabs', pool, h') = Some (tabs'', pool'', h'')
                \<and> knightWhile cnt ?grp (knightAbs (gsA, tabs', pool, h'))
                    = (tablesOf h'' tabs'', map (groupOf h'') pool'')
                \<and> storeOK base h'' tabs'' \<and> tabAddrs tabs'' = tabAddrs tabs'
                \<and> mods (insert gsA (set (tabAddrs tabs'))) h' h''
                \<and> set (grpAddrs pool'') \<subseteq> insert gsA (set (grpAddrs pool))"
        proof (rule less.hyps [OF shorter ok'])
          show "gsA < nextFree h'" using less.prems(2) next' by simp
          show "gsA \<notin> set (tabAddrs tabs')" using less.prems(3) addrs by simp
          show "apart h' tabs' pool" using less.prems(4) next' addrs by (rule apart_grow)
          show "gsA \<notin> set (grpAddrs pool)" by (rule less.prems(5))
        qed
        then obtain tabs'' pool'' h'' where
          r1: "knightWhileH cnt grpH (gsA, tabs', pool, h') = Some (tabs'', pool'', h'')"
          and r2: "knightWhile cnt ?grp (knightAbs (gsA, tabs', pool, h'))
                   = (tablesOf h'' tabs'', map (groupOf h'') pool'')"
          and r3: "storeOK base h'' tabs''" and r4: "tabAddrs tabs'' = tabAddrs tabs'"
          and r5: "mods (insert gsA (set (tabAddrs tabs'))) h' h''"
          and r6: "set (grpAddrs pool'') \<subseteq> insert gsA (set (grpAddrs pool))"
          by blast
        have "mods (insert gsA (set (tabAddrs tabs))) h h''"
          using m r5 by (rule mods_trans) (simp add: addrs)
        then show ?thesis using True unfoldH unfold pool' r1 r2 r3 r4 r6 addrs by auto
      qed
    qed
  qed
qed

text \<open>One knight candidate: the copy \<open>[...group.guests]\<close> is a fresh array, so the loop
  writes only to it and to the arrays of the tables.\<close>

lemma knightSeatGroupH_ex:
  assumes ok: "storeOK base h tabs" and ro: "apart h tabs (grpH # pool)"
  shows "\<exists>tabs' pool' h'.
           knightSeatGroupH cnt grpH (tabs, pool, h) = Some (tabs', pool', h')
           \<and> knightSeatGroup cnt (groupOf h grpH) (tablesOf h tabs, map (groupOf h) pool)
               = (tablesOf h' tabs', map (groupOf h') pool')
           \<and> storeOK base h' tabs' \<and> tabAddrs tabs' = tabAddrs tabs
           \<and> mods (set (tabAddrs tabs)) h h' \<and> apart h' tabs' pool'"
proof -
  let ?g = "nextFree h"
  let ?h1 = "snd (alloc (arr h (hg_guests grpH)) h)"
  have next1: "nextFree ?h1 = Suc ?g" and arr1: "arr ?h1 = (arr h)(?g := arr h (hg_guests grpH))"
    by (simp_all add: alloc_def)
  have m1: "mods {} h ?h1" by (rule modsI) (simp_all add: alloc_def)
  have ok1: "storeOK base ?h1 tabs" using ok by (rule storeOK_grow) (simp add: alloc_def)
  have g: "?g \<notin> set (tabAddrs tabs)" using ok by (auto dest: storeOK_addr)
  have ro': "apart h tabs pool" using ro by (simp add: apart_def grpAddrs_def)
  have ro1: "apart ?h1 tabs pool" using ro' by (rule apart_grow) (simp_all add: alloc_def)
  have gp: "?g \<notin> set (grpAddrs pool)" using ro' by (auto dest: apartD)
  have "\<exists>tabs' pool' h'.
          knightWhileH cnt grpH (?g, tabs, pool, ?h1) = Some (tabs', pool', h')
          \<and> knightWhile cnt (groupOf h grpH) (knightAbs (?g, tabs, pool, ?h1))
              = (tablesOf h' tabs', map (groupOf h') pool')
          \<and> storeOK base h' tabs' \<and> tabAddrs tabs' = tabAddrs tabs
          \<and> mods (insert ?g (set (tabAddrs tabs))) ?h1 h'
          \<and> set (grpAddrs pool') \<subseteq> insert ?g (set (grpAddrs pool))"
    by (rule knightWhileH_ex [OF ok1 _ g ro1 gp]) (simp add: alloc_def)
  then obtain tabs' pool' h' where
    r1: "knightWhileH cnt grpH (?g, tabs, pool, ?h1) = Some (tabs', pool', h')"
    and r2: "knightWhile cnt (groupOf h grpH) (knightAbs (?g, tabs, pool, ?h1))
             = (tablesOf h' tabs', map (groupOf h') pool')"
    and r3: "storeOK base h' tabs'" and r4: "tabAddrs tabs' = tabAddrs tabs"
    and r5: "mods (insert ?g (set (tabAddrs tabs))) ?h1 h'"
    and r6: "set (grpAddrs pool') \<subseteq> insert ?g (set (grpAddrs pool))"
    by blast
  have run: "knightSeatGroupH cnt grpH (tabs, pool, h) = Some (tabs', pool', h')"
    using r1 by (simp add: knightSeatGroupH_def alloc_def)
  have t1: "tablesOf ?h1 tabs = tablesOf h tabs" by (rule tablesOf_mods [OF ok m1]) simp
  have p1: "map (groupOf ?h1) pool = map (groupOf h) pool"
    by (rule apart_mods [OF ro' m1]) simp
  have "knightAbs (?g, tabs, pool, ?h1)
        = (guests (groupOf h grpH), tablesOf h tabs, map (groupOf h) pool)"
    by (simp add: knightAbs_def t1 p1) (simp add: alloc_def groupOf_def)
  with r2 have abs: "knightSeatGroup cnt (groupOf h grpH) (tablesOf h tabs, map (groupOf h) pool)
                     = (tablesOf h' tabs', map (groupOf h') pool')"
    by (simp add: knightSeatGroup_def)
  have "mods (insert ?g (set (tabAddrs tabs)) - {?g}) h h'" using r5 by (rule mods_alloc)
  then have m: "mods (set (tabAddrs tabs)) h h'" using g by simp
  have next': "Suc ?g \<le> nextFree h'" using mods_next [OF r5] by (simp add: alloc_def)
  have "apart h' tabs' pool'"
    unfolding apart_def list_all_iff
  proof
    fix a assume "a \<in> set (grpAddrs pool')"
    with r6 have "a = ?g \<or> a \<in> set (grpAddrs pool)" by auto
    then show "a < nextFree h' \<and> a \<notin> set (tabAddrs tabs')"
      using next' g r4 apartD [OF ro', of a] by auto
  qed
  with run abs r3 r4 m show ?thesis by blast
qed

lemma apart_append: "apart h tabs (xs @ ys) = (apart h tabs xs \<and> apart h tabs ys)"
  by (simp add: apart_def grpAddrs_def)

lemma apart_subset: "apart h tabs gs \<Longrightarrow> set gs' \<subseteq> set gs \<Longrightarrow> apart h tabs gs'"
  by (auto simp: apart_def list_all_iff grpAddrs_def)

lemma apart_tables:
  assumes "apart h tabs gs"
  shows "set (tabAddrs tabs) \<inter> set (grpAddrs gs) = {}"
  using assms by (auto simp: apart_def list_all_iff)

lemma knightFoldH_ex:
  assumes "storeOK base h tabs" and "apart h tabs (cands @ pool)"
  shows "\<exists>tabs' pool' h'.
           foldOption (knightSeatGroupH cnt) cands (tabs, pool, h) = Some (tabs', pool', h')
           \<and> fold (knightSeatGroup cnt) (map (groupOf h) cands)
                   (tablesOf h tabs, map (groupOf h) pool)
               = (tablesOf h' tabs', map (groupOf h') pool')
           \<and> storeOK base h' tabs' \<and> tabAddrs tabs' = tabAddrs tabs
           \<and> mods (set (tabAddrs tabs)) h h' \<and> apart h' tabs' pool'"
  using assms
proof (induction cands arbitrary: tabs pool h)
  case Nil
  then show ?case by (simp add: apart_append)
next
  case (Cons g cands)
  from Cons.prems(2) have ag: "apart h tabs (g # pool)" and ac: "apart h tabs cands"
    by (simp_all add: apart_def grpAddrs_def)
  from knightSeatGroupH_ex [OF Cons.prems(1) ag, of cnt] obtain tabs1 pool1 h1 where
    r1: "knightSeatGroupH cnt g (tabs, pool, h) = Some (tabs1, pool1, h1)"
    and r2: "knightSeatGroup cnt (groupOf h g) (tablesOf h tabs, map (groupOf h) pool)
             = (tablesOf h1 tabs1, map (groupOf h1) pool1)"
    and r3: "storeOK base h1 tabs1" and r4: "tabAddrs tabs1 = tabAddrs tabs"
    and r5: "mods (set (tabAddrs tabs)) h h1" and r6: "apart h1 tabs1 pool1"
    by blast
  have ac1: "apart h1 tabs1 cands" using ac mods_next [OF r5] r4 by (rule apart_grow)
  have c1: "map (groupOf h1) cands = map (groupOf h) cands"
    by (rule apart_mods [OF ac r5]) (rule apart_tables [OF ac])
  from Cons.IH [OF r3, of pool1] ac1 r6 obtain tabs2 pool2 h2 where
    s1: "foldOption (knightSeatGroupH cnt) cands (tabs1, pool1, h1) = Some (tabs2, pool2, h2)"
    and s2: "fold (knightSeatGroup cnt) (map (groupOf h1) cands)
                  (tablesOf h1 tabs1, map (groupOf h1) pool1)
             = (tablesOf h2 tabs2, map (groupOf h2) pool2)"
    and s3: "storeOK base h2 tabs2" and s4: "tabAddrs tabs2 = tabAddrs tabs1"
    and s5: "mods (set (tabAddrs tabs1)) h1 h2" and s6: "apart h2 tabs2 pool2"
    by (auto simp: apart_append)
  have "mods (set (tabAddrs tabs)) h h2" using r5 s5 by (rule mods_trans) (simp add: r4)
  then show ?case using r1 r2 s1 s2 s3 s4 s6 r4 c1 by simp
qed

text \<open>The knight tables are created with fresh arrays.\<close>

lemma createKnightTablesH_fold:
  assumes "storeOK base h tabs" and "base \<le> nextFree h"
  shows "\<exists>tabs' tc' h'.
           fold (\<lambda>i st. case alloc [] (snd st) of (a, h1) \<Rightarrow>
                           ((setProp (snd (fst st)) (newKnightTableH a cap) (fst (fst st)),
                             Suc (snd (fst st))), h1))
                ns ((tabs, tc), h) = ((tabs', tc'), h')
           \<and> fold (\<lambda>i (tabs, tableCounter).
                      (setProp tableCounter (newKnightTable cap) tabs, Suc tableCounter))
                   ns (tablesOf h tabs, tc) = (tablesOf h' tabs', tc')
           \<and> storeOK base h' tabs' \<and> mods {} h h'"
  using assms
proof (induction ns arbitrary: tabs tc h)
  case Nil
  then show ?case by simp
next
  case (Cons n ns)
  let ?h1 = "snd (alloc [] h)"
  let ?t = "newKnightTableH (nextFree h) cap"
  let ?tabs1 = "setProp tc ?t tabs"
  have m1: "mods {} h ?h1" by (rule modsI) (simp_all add: alloc_def)
  have ok1: "storeOK base ?h1 ?tabs1"
    by (rule storeOK_open [OF Cons.prems]) (simp_all add: newKnightTableH_def alloc_def)
  have t1: "tablesOf ?h1 tabs = tablesOf h tabs" by (rule tablesOf_mods [OF Cons.prems(1) m1]) simp
  have abs1: "tablesOf ?h1 ?tabs1 = setProp tc (newKnightTable cap) (tablesOf h tabs)"
    by (simp add: tablesOf_setProp t1)
       (simp add: tableOf_def newKnightTableH_def newKnightTable_def alloc_def)
  have "base \<le> nextFree ?h1" using Cons.prems(2) by (simp add: alloc_def)
  from Cons.IH [OF ok1 this, of "Suc tc"] obtain tabs' tc' h' where
    r: "fold (\<lambda>i st. case alloc [] (snd st) of (a, h1) \<Rightarrow>
                       ((setProp (snd (fst st)) (newKnightTableH a cap) (fst (fst st)),
                         Suc (snd (fst st))), h1))
             ns ((?tabs1, Suc tc), ?h1) = ((tabs', tc'), h')"
    and a: "fold (\<lambda>i (tabs, tableCounter).
                    (setProp tableCounter (newKnightTable cap) tabs, Suc tableCounter))
                 ns (tablesOf ?h1 ?tabs1, Suc tc) = (tablesOf h' tabs', tc')"
    and ok': "storeOK base h' tabs'" and m': "mods {} ?h1 h'"
    by blast
  have "mods {} h h'" using m1 m' by (rule mods_trans) simp
  then show ?case using r a ok' by (simp add: alloc_def abs1 [simplified alloc_def, simplified])
qed

lemma createKnightTablesH_ex:
  "\<exists>tabs tc h'. createKnightTablesH kc h = ((tabs, tc), h')
                 \<and> createKnightTables kc = (tablesOf h' tabs, tc)
                 \<and> storeOK (nextFree h) h' tabs \<and> mods {} h h'"
proof -
  have "storeOK (nextFree h) h []" by (simp add: storeOK_def tabAddrs_def)
  from createKnightTablesH_fold [OF this, of "knight_capacity kc"
      "[0..<nat (knight_count kc)]" 0]
  show ?thesis
    by (auto simp: createKnightTablesH_def createKnightTables_def tablesOf_def)
qed

subsection \<open>Sorting and selecting groups\<close>

lemma insort_key_map:
  "insort_key f (g x) (map g xs) = map g (insort_key (\<lambda>x. f (g x)) x xs)"
  by (induction xs) simp_all

lemma sort_key_map: "sort_key f (map g xs) = map g (sort_key (\<lambda>x. f (g x)) xs)"
  by (induction xs) (simp_all add: insort_key_map)

lemma sortDescBy_groupOf:
  "sortDescBy group_size (map (groupOf h) gs) = map (groupOf h) (sortDescBy hg_size gs)"
  by (simp add: sortDescBy_def sort_key_map groupOf_def)

lemma knightCandidatesOf_groupOf:
  "knightCandidatesOf (map (groupOf h) gs) = map (groupOf h) (knightCandidatesH gs)"
  by (simp add: knightCandidatesOf_def knightCandidatesH_def Let_def filter_map comp_def
      groupOf_def)

lemma standardPoolOf_groupOf:
  "standardPoolOf (map (groupOf h) gs) = map (groupOf h) (standardPoolH gs)"
  by (simp add: standardPoolOf_def standardPoolH_def Let_def filter_map comp_def groupOf_def)

lemma sortDescBy_set [simp]: "set (sortDescBy f xs) = set xs"
  by (simp add: sortDescBy_def)

lemma knightCandidatesH_subset: "set (knightCandidatesH gs) \<subseteq> set gs"
  by (auto simp: knightCandidatesH_def Let_def)

lemma standardPoolH_subset: "set (standardPoolH gs) \<subseteq> set gs"
  by (auto simp: standardPoolH_def Let_def)

lemma storeOK_base: "storeOK base' h tabs \<Longrightarrow> base \<le> base' \<Longrightarrow> storeOK base h tabs"
  by (auto simp: storeOK_def list_all_iff)

text \<open>Phase A writes to no array that existed before it.\<close>

lemma knightPhaseH_ex:
  assumes base: "base \<le> nextFree h" and pgs: "apart h [] pgs"
  shows "\<exists>tabs tc pool h'.
           knightPhaseH kc pgs h = Some ((tabs, tc), pool, h')
           \<and> knightPhase kc (map (groupOf h) pgs) = ((tablesOf h' tabs, tc), map (groupOf h') pool)
           \<and> storeOK base h' tabs \<and> mods {} h h' \<and> apart h' tabs pool"
proof (cases "knight_enabled kc \<and> 0 < knight_count kc")
  case False
  then have "knightPhaseH kc pgs h = Some (([], 0), pgs, h)" by (auto simp: knightPhaseH_def)
  moreover have "knightPhase kc (map (groupOf h) pgs) = (([], 0), map (groupOf h) pgs)"
    using False by (rule knightPhase_idle)
  moreover have "storeOK base h []" by (simp add: storeOK_def tabAddrs_def)
  ultimately show ?thesis using pgs by (auto simp: tablesOf_def)
next
  case True
  let ?cands = "sortDescBy hg_size (knightCandidatesH pgs)"
  let ?pool = "standardPoolH pgs"
  from createKnightTablesH_ex [of kc h] obtain tabs0 tc h1 where
    c1: "createKnightTablesH kc h = ((tabs0, tc), h1)"
    and c2: "createKnightTables kc = (tablesOf h1 tabs0, tc)"
    and c3: "storeOK (nextFree h) h1 tabs0" and c4: "mods {} h h1"
    by blast
  have ok0: "storeOK base h1 tabs0" using c3 base by (rule storeOK_base)
  have sub: "set (?cands @ ?pool) \<subseteq> set pgs"
    using knightCandidatesH_subset [of pgs] standardPoolH_subset [of pgs] by auto
  have "apart h1 tabs0 pgs"
    unfolding apart_def list_all_iff
  proof
    fix a assume "a \<in> set (grpAddrs pgs)"
    then have "a < nextFree h" using pgs by (auto dest: apartD)
    then show "a < nextFree h1 \<and> a \<notin> set (tabAddrs tabs0)"
      using mods_next [OF c4] storeOK_addr [OF c3, of a] by auto
  qed
  then have ap: "apart h1 tabs0 (?cands @ ?pool)" using sub by (rule apart_subset)
  from knightFoldH_ex [OF ok0 ap, of "knight_count kc"] obtain tabs pool h' where
    r1: "foldOption (knightSeatGroupH (knight_count kc)) ?cands (tabs0, ?pool, h1)
         = Some (tabs, pool, h')"
    and r2: "fold (knightSeatGroup (knight_count kc)) (map (groupOf h1) ?cands)
                  (tablesOf h1 tabs0, map (groupOf h1) ?pool)
             = (tablesOf h' tabs, map (groupOf h') pool)"
    and r3: "storeOK base h' tabs" and r4: "tabAddrs tabs = tabAddrs tabs0"
    and r5: "mods (set (tabAddrs tabs0)) h1 h'" and r6: "apart h' tabs pool"
    by blast
  have g1: "map (groupOf h1) pgs = map (groupOf h) pgs"
    by (rule apart_mods [OF pgs c4]) simp
  have run: "knightPhaseH kc pgs h = Some ((tabs, tc), pool, h')"
    using True c1 r1 by (simp add: knightPhaseH_def)
  have "knightPhase kc (map (groupOf h1) pgs)
        = ((tablesOf h' tabs, tc), map (groupOf h') pool)"
    using r2 c2
    by (simp add: knightPhase_active [OF True] knightCandidatesOf_groupOf
        standardPoolOf_groupOf sortDescBy_groupOf)
  then have abs: "knightPhase kc (map (groupOf h) pgs)
                  = ((tablesOf h' tabs, tc), map (groupOf h') pool)"
    by (simp add: g1)
  have "mods {} h h'" using c4 r5
    by (rule mods_trans) (use storeOK_addr [OF c3] in auto)
  with run abs r3 r6 show ?thesis by blast
qed

subsection \<open>Standard tables: the store model against the value model\<close>

lemma isSideMatch_side:
  assumes "dominantSide g = dominantSide g'"
  shows "isSideMatch g = isSideMatch g'"
  by (intro ext) (simp add: isSideMatch_def assms)

lemma findBestFit_side:
  assumes "dominantSide g = dominantSide g'"
  shows "findBestFit g n tabs = findBestFit g' n tabs"
  unfolding findBestFit_def bestFitStep_def isSideMatch_def assms by (rule refl)

lemma findPartialTable_side:
  assumes "dominantSide g = dominantSide g'"
  shows "findPartialTable g tabs = findPartialTable g' tabs"
  unfolding findPartialTable_def isSideMatch_def assms by (rule refl)

lemma groupOf_side [simp]: "dominantSide (groupOf h g) = hg_dominantSide g"
  by (simp add: groupOf_def)

lemma tableOf_new:
  "arr h a = xs \<Longrightarrow> tableOf h (newStandardTableH grpH a cap)
                    = (newStandardTable (groupOf hx grpH) cap)\<lparr>table_guests := xs\<rparr>"
  by (simp add: tableOf_def newStandardTableH_def newStandardTable_def groupOf_def)

lemma openTableH_sim:
  assumes ok: "storeOK base h tabs" and base: "base \<le> nextFree h" and src: "src < nextFree h"
  obtains tabs' h' where "openTableH grpH cap src tc (tabs, h) = Some (tabs', h')"
    and "tablesOf h' tabs' = openTable (groupOf hx grpH) cap (arr h src) tc (tablesOf h tabs)"
    and "storeOK base h' tabs'" and "nextFree h' = Suc (nextFree h)" and "mods {} h h'"
    and "set (tabAddrs tabs') \<subseteq> insert (nextFree h) (set (tabAddrs tabs))"
proof -
  let ?a = "nextFree h"
  let ?h1 = "snd (alloc [] h)"
  let ?h2 = "pushAll ?a (arr ?h1 src) ?h1"
  let ?t = "newStandardTableH grpH ?a cap"
  let ?tabs' = "setProp tc ?t tabs"
  have ne: "?a \<noteq> src" using src by simp
  have run: "openTableH grpH cap src tc (tabs, h) = Some (?tabs', ?h2)"
    using ne by (simp add: openTableH_def alloc_def pushFrom_Some)
  have arr2: "arr ?h2 = (arr h)(?a := arr h src)" using ne by (simp add: alloc_def)
  have m: "mods {} h ?h2" by (rule modsI) (simp_all add: alloc_def)
  have t: "tablesOf ?h2 tabs = tablesOf h tabs" by (rule tablesOf_mods [OF ok m]) simp
  have "arr ?h2 ?a = arr h src" by (simp only: arr2 fun_upd_same)
  then have "tableOf ?h2 ?t = (newStandardTable (groupOf hx grpH) cap)\<lparr>table_guests := arr h src\<rparr>"
    by (rule tableOf_new)
  then have abs: "tablesOf ?h2 ?tabs'
                  = openTable (groupOf hx grpH) cap (arr h src) tc (tablesOf h tabs)"
    by (simp only: tablesOf_setProp t openTable_def)
  show ?thesis
  proof (rule that [OF run abs _ _ m])
    show "storeOK base ?h2 ?tabs'"
      by (rule storeOK_open [OF ok base]) (simp_all add: newStandardTableH_def alloc_def)
    show "nextFree ?h2 = Suc ?a" by (simp add: alloc_def)
    show "set (tabAddrs ?tabs') \<subseteq> insert ?a (set (tabAddrs tabs))"
      using tabAddrs_open [of tc ?t tabs] by (simp add: newStandardTableH_def)
  qed
qed

definition standardAbs :: "StandardStateH \<Rightarrow> StandardState" where
  "standardAbs s = (case s of (gsA, n, tabs, tc, h) \<Rightarrow> (arr h gsA, n, tablesOf h tabs, tc))"

text \<open>The addresses of the tables after a step: those before it and fresh ones.\<close>

definition grown :: "Heap \<Rightarrow> HTables \<Rightarrow> HTables \<Rightarrow> bool" where
  "grown h tabs tabs' = list_all (\<lambda>a. a \<in> set (tabAddrs tabs) \<or> nextFree h \<le> a) (tabAddrs tabs')"

lemma grownD: "grown h tabs tabs' \<Longrightarrow> a \<in> set (tabAddrs tabs')
    \<Longrightarrow> a \<in> set (tabAddrs tabs) \<or> nextFree h \<le> a"
  by (auto simp: grown_def list_all_iff)

lemma grown_refl [simp]: "grown h tabs tabs"
  by (simp add: grown_def list_all_iff)

lemma grown_same: "tabAddrs tabs' = tabAddrs tabs \<Longrightarrow> grown h tabs tabs'"
  by (simp add: grown_def list_all_iff)

lemma grown_trans:
  assumes "grown h tabs tabs1" and "grown h1 tabs1 tabs2" and "nextFree h \<le> nextFree h1"
  shows "grown h tabs tabs2"
  using assms unfolding grown_def list_all_iff by fastforce

lemma splitNewTableH_sim:
  assumes ok: "storeOK base h tabs" and base: "base \<le> nextFree h"
    and gs: "gsA < nextFree h" "gsA \<notin> set (tabAddrs tabs)"
  obtains b n' tabs' h' where
    "splitNewTableH cap grpH (gsA, n, tabs, tc, h) = Some (b, gsA, n', tabs', Suc tc, h')"
    and "splitNewTable cap (groupOf hx grpH) (standardAbs (gsA, n, tabs, tc, h))
         = (if b then Continue else Break) (standardAbs (gsA, n', tabs', Suc tc, h'))"
    and "storeOK base h' tabs'" and "mods {gsA} h h'" and "grown h tabs tabs'"
    and "gsA \<notin> set (tabAddrs tabs')"
proof -
  let ?grp = "groupOf hx grpH"
  let ?a = "nextFree h"
  let ?c = "Suc (nextFree h)"
  let ?fill = "fillNewTable cap (arr h gsA)"
  let ?h1 = "snd (alloc [] h)"
  let ?h2 = "snd (alloc (fst ?fill) ?h1)"
  let ?t = "newStandardTableH grpH ?a (snd ?fill)"
  let ?tabs' = "setProp tc ?t tabs"
  have g1: "arr ?h1 gsA = arr h gsA" using gs(1) by (simp add: alloc_def)
  have ok2: "storeOK base ?h2 ?tabs'"
    by (rule storeOK_open [OF ok base]) (simp_all add: newStandardTableH_def alloc_def)
  have gr: "grown h tabs ?tabs'"
    unfolding grown_def list_all_iff
    using tabAddrs_open [of tc ?t tabs] by (auto simp: newStandardTableH_def)
  have out: "gsA \<notin> set (tabAddrs ?tabs')"
    using tabAddrs_open [of tc ?t tabs] gs by (auto simp: newStandardTableH_def)
  have fill: "?fill = (fst ?fill, snd ?fill)" by simp
  show ?thesis
  proof (cases "fst ?fill = []")
    case True
    have run: "splitNewTableH cap grpH (gsA, n, tabs, tc, h)
               = Some (False, gsA, n, ?tabs', Suc tc, ?h2)"
      using True g1 by (simp add: splitNewTableH_def alloc_def Let_def)
    have m: "mods {} h ?h2" by (rule modsI) (simp_all add: alloc_def)
    have t: "tablesOf ?h2 tabs = tablesOf h tabs" by (rule tablesOf_mods [OF ok m]) simp
    have "arr ?h2 ?a = []" by (simp add: alloc_def)
    then have "tableOf ?h2 ?t = (newStandardTable ?grp (snd ?fill))\<lparr>table_guests := []\<rparr>"
      by (rule tableOf_new)
    then have tabs': "tablesOf ?h2 ?tabs' = openTable ?grp (snd ?fill) [] tc (tablesOf h tabs)"
      by (simp only: tablesOf_setProp t openTable_def)
    have g2: "arr ?h2 gsA = arr h gsA" using gs(1) by (simp add: alloc_def)
    have "splitNewTable cap ?grp (arr h gsA, n, tablesOf h tabs, tc)
          = Break (arr h gsA, n, openTable ?grp (snd ?fill) [] tc (tablesOf h tabs), Suc tc)"
      using True by (simp add: splitNewTable_def case_prod_beta)
    then have abs: "splitNewTable cap ?grp (standardAbs (gsA, n, tabs, tc, h))
                    = (if False then Continue else Break)
                        (standardAbs (gsA, n, ?tabs', Suc tc, ?h2))"
      by (simp add: standardAbs_def tabs' g2)
    show ?thesis
      by (rule that [OF run abs ok2 _ gr out]) (rule mods_mono [OF m], simp)
  next
    case False
    let ?h3 = "pushAll ?a (fst ?fill) (spliceChunk gsA (fst ?fill) ?h2)"
    have ne: "gsA \<noteq> ?a" "gsA \<noteq> ?c" using gs(1) by simp_all
    have c2: "arr ?h2 ?c = fst ?fill" by (simp add: alloc_def)
    have push: "pushFrom ?a ?c (spliceChunk gsA (fst ?fill) ?h2) = Some ?h3"
      using ne by (simp add: pushFrom_def alloc_def)
    have g3: "arr ?h3 gsA = removeChunk (fst ?fill) (arr h gsA)"
      using ne by (simp add: alloc_def)
    have run: "splitNewTableH cap grpH (gsA, n, tabs, tc, h)
               = Some (True, gsA, getGuestsSize (arr ?h3 gsA), ?tabs', Suc tc, ?h3)"
      using False ne ne [symmetric]
      by (simp add: splitNewTableH_def Let_def alloc_def pushFrom_def)
    have m: "mods {gsA} h ?h3" by (rule modsI) (auto simp: alloc_def)
    have t: "tablesOf ?h3 tabs = tablesOf h tabs"
      by (rule tablesOf_mods [OF ok m]) (use gs(2) in simp)
    have "arr ?h3 ?a = fst ?fill" using ne by (simp add: alloc_def)
    then have "tableOf ?h3 ?t = (newStandardTable ?grp (snd ?fill))\<lparr>table_guests := fst ?fill\<rparr>"
      by (rule tableOf_new)
    then have tabs': "tablesOf ?h3 ?tabs'
                      = openTable ?grp (snd ?fill) (fst ?fill) tc (tablesOf h tabs)"
      by (simp only: tablesOf_setProp t openTable_def)
    have "splitNewTable cap ?grp (arr h gsA, n, tablesOf h tabs, tc)
          = Continue (removeChunk (fst ?fill) (arr h gsA),
                      getGuestsSize (removeChunk (fst ?fill) (arr h gsA)),
                      openTable ?grp (snd ?fill) (fst ?fill) tc (tablesOf h tabs), Suc tc)"
      using False by (simp add: splitNewTable_def case_prod_beta)
    then have abs: "splitNewTable cap ?grp (standardAbs (gsA, n, tabs, tc, h))
                    = (if True then Continue else Break)
                        (standardAbs (gsA, getGuestsSize (arr ?h3 gsA), ?tabs', Suc tc, ?h3))"
      unfolding standardAbs_def prod.case tabs' g3 by simp
    have ok3: "storeOK base ?h3 ?tabs'" using ok2 by (rule storeOK_grow) simp
    show ?thesis by (rule that [OF run abs ok3 m gr out])
  qed
qed

lemma standardStepH_sim:
  assumes ok: "storeOK base h tabs" and base: "base \<le> nextFree h"
    and gs: "gsA < nextFree h" "gsA \<notin> set (tabAddrs tabs)"
  obtains b gsA' n' tabs' tc' h' where
    "standardStepH cap grpH (gsA, n, tabs, tc, h) = Some (b, gsA', n', tabs', tc', h')"
    and "standardStep cap (groupOf hx grpH) (standardAbs (gsA, n, tabs, tc, h))
         = (if b then Continue else Break) (standardAbs (gsA', n', tabs', tc', h'))"
    and "storeOK base h' tabs'" and "mods (insert gsA (set (tabAddrs tabs))) h h'"
    and "grown h tabs tabs'" and "gsA' < nextFree h'" and "gsA' \<notin> set (tabAddrs tabs')"
    and "gsA' = gsA \<or> nextFree h \<le> gsA'"
proof -
  note result = that
  let ?grp = "groupOf hx grpH"
  let ?T = "tablesOf h tabs"
  let ?gs = "arr h gsA"
  let ?W = "insert gsA (set (tabAddrs tabs))"
  have fb: "findBestFit (groupOf h grpH) n ?T = findBestFit ?grp n ?T"
    by (rule findBestFit_side) simp
  have fp: "findPartialTable (groupOf h grpH) ?T = findPartialTable ?grp ?T"
    by (rule findPartialTable_side) simp
  have T: "\<And>a. a \<in> set (tabAddrs tabs) \<Longrightarrow> a < nextFree h"
    using ok by (auto dest: storeOK_addr)
  show ?thesis
  proof (cases "findBestFit ?grp n ?T")
    case (Some tid)
    show ?thesis
    proof (rule seatLabelledH_sim [OF ok gs(2), where grpH = grpH and tid = tid and hx = hx])
      fix tabs' h1
      assume seat: "seatLabelledH grpH tid gsA (tabs, h) = Some (tabs', h1)"
        and tabs': "tablesOf h1 tabs' = modifyTable tid (seatLabelled ?grp ?gs) ?T"
        and ok1: "storeOK base h1 tabs'" and addrs: "tabAddrs tabs' = tabAddrs tabs"
        and next1: "nextFree h1 = nextFree h"
        and frame: "\<And>a. a \<notin> set (tabAddrs tabs) \<Longrightarrow> arr h1 a = arr h a"
      let ?g = "nextFree h1"
      let ?h2 = "snd (alloc [] h1)"
      have run: "standardStepH cap grpH (gsA, n, tabs, tc, h)
                 = Some (True, ?g, n, tabs', tc, ?h2)"
        using fb Some seat by (simp add: standardStepH_def alloc_def)
      have m12: "mods {} h1 ?h2" by (rule modsI) (simp_all add: alloc_def)
      have t2: "tablesOf ?h2 tabs' = tablesOf h1 tabs'" by (rule tablesOf_mods [OF ok1 m12]) simp
      have g2: "arr ?h2 ?g = []" by (simp add: alloc_def)
      have "standardStep cap ?grp (?gs, n, ?T, tc)
            = Continue ([], n, modifyTable tid (seatLabelled ?grp ?gs) ?T, tc)"
        using Some by (simp add: standardStep_def)
      then have abs: "standardStep cap ?grp (standardAbs (gsA, n, tabs, tc, h))
                      = (if True then Continue else Break) (standardAbs (?g, n, tabs', tc, ?h2))"
        unfolding standardAbs_def prod.case t2 g2 tabs' by simp
      show ?thesis
      proof (rule that [OF run abs])
        show "storeOK base ?h2 tabs'" using ok1 by (rule storeOK_grow) (simp add: alloc_def)
        show "mods ?W h ?h2"
        proof (rule modsI)
          show "nextFree h \<le> nextFree ?h2" using next1 by (simp add: alloc_def)
          fix a assume "a < nextFree h" "a \<notin> ?W"
          then show "arr ?h2 a = arr h a" using frame [of a] next1 by (simp add: alloc_def)
        qed
        show "grown h tabs tabs'" using addrs by (rule grown_same)
        show "?g < nextFree ?h2" by (simp add: alloc_def)
        show "?g \<notin> set (tabAddrs tabs')" using T addrs next1 by auto
        show "?g = gsA \<or> nextFree h \<le> ?g" using next1 by simp
      qed
    qed
  next
    case None
    show ?thesis
    proof (cases "n \<le> cap")
      case True
      show ?thesis
      proof (rule openTableH_sim [OF ok base gs(1), where grpH = grpH and cap = cap
            and tc = tc and hx = hx])
        fix tabs' h1
        assume opn: "openTableH grpH cap gsA tc (tabs, h) = Some (tabs', h1)"
          and tabs': "tablesOf h1 tabs' = openTable ?grp cap ?gs tc ?T"
          and ok1: "storeOK base h1 tabs'" and next1: "nextFree h1 = Suc (nextFree h)"
          and m1: "mods {} h h1"
          and sub: "set (tabAddrs tabs') \<subseteq> insert (nextFree h) (set (tabAddrs tabs))"
        let ?g = "nextFree h1"
        let ?h2 = "snd (alloc [] h1)"
        have run: "standardStepH cap grpH (gsA, n, tabs, tc, h)
                   = Some (True, ?g, n, tabs', Suc tc, ?h2)"
          using fb None True opn by (simp add: standardStepH_def alloc_def)
        have m12: "mods {} h1 ?h2" by (rule modsI) (simp_all add: alloc_def)
        have t2: "tablesOf ?h2 tabs' = tablesOf h1 tabs'"
          by (rule tablesOf_mods [OF ok1 m12]) simp
        have g2: "arr ?h2 ?g = []" by (simp add: alloc_def)
        have "standardStep cap ?grp (?gs, n, ?T, tc)
              = Continue ([], n, openTable ?grp cap ?gs tc ?T, Suc tc)"
          using None True by (simp add: standardStep_def)
        then have abs: "standardStep cap ?grp (standardAbs (gsA, n, tabs, tc, h))
                        = (if True then Continue else Break)
                            (standardAbs (?g, n, tabs', Suc tc, ?h2))"
          unfolding standardAbs_def prod.case t2 g2 tabs' by simp
        show ?thesis
        proof (rule that [OF run abs])
          show "storeOK base ?h2 tabs'" using ok1 by (rule storeOK_grow) (simp add: alloc_def)
          have "mods {} h ?h2" using m1 m12 by (rule mods_trans) simp
          then show "mods ?W h ?h2" by (rule mods_mono) simp
          show "grown h tabs tabs'" unfolding grown_def list_all_iff using sub by auto
          show "?g < nextFree ?h2" by (simp add: alloc_def)
          show "?g \<notin> set (tabAddrs tabs')" using storeOK_addr [OF ok1, of ?g] by auto
          show "?g = gsA \<or> nextFree h \<le> ?g" using next1 by simp
        qed
      qed
    next
      case False
      have split: thesis
        if eq: "standardStepH cap grpH (gsA, n, tabs, tc, h)
                = splitNewTableH cap grpH (gsA, n, tabs, tc, h1)"
          and pure: "standardStep cap ?grp (?gs, n, ?T, tc) = splitNewTable cap ?grp (?gs, n, ?T, tc)"
          and m1: "mods {} h h1" for h1
      proof -
        have ok1: "storeOK base h1 tabs" using ok mods_next [OF m1] by (rule storeOK_grow)
        have base1: "base \<le> nextFree h1" using base mods_next [OF m1] by simp
        have gs1: "gsA < nextFree h1" using gs(1) mods_next [OF m1] by simp
        have a1: "standardAbs (gsA, n, tabs, tc, h1) = standardAbs (gsA, n, tabs, tc, h)"
          using modsD [OF m1 gs(1)] tablesOf_mods [OF ok m1] by (simp add: standardAbs_def)
        show thesis
        proof (rule splitNewTableH_sim [OF ok1 base1 gs1 gs(2), where cap = cap and grpH = grpH
              and n = n and tc = tc and hx = hx])
          fix b n' tabs' h'
          assume r1: "splitNewTableH cap grpH (gsA, n, tabs, tc, h1)
                      = Some (b, gsA, n', tabs', Suc tc, h')"
            and r2: "splitNewTable cap ?grp (standardAbs (gsA, n, tabs, tc, h1))
                     = (if b then Continue else Break) (standardAbs (gsA, n', tabs', Suc tc, h'))"
            and r3: "storeOK base h' tabs'" and r4: "mods {gsA} h1 h'"
            and r5: "grown h1 tabs tabs'" and r6: "gsA \<notin> set (tabAddrs tabs')"
          have run: "standardStepH cap grpH (gsA, n, tabs, tc, h)
                     = Some (b, gsA, n', tabs', Suc tc, h')"
            using eq r1 by simp
          have abs: "standardStep cap ?grp (standardAbs (gsA, n, tabs, tc, h))
                     = (if b then Continue else Break) (standardAbs (gsA, n', tabs', Suc tc, h'))"
            using r2 pure unfolding a1 by (simp add: standardAbs_def)
          show thesis
          proof (rule result [OF run abs r3 _ _ _ r6])
            have "mods {gsA} h h'" using mods_mono [OF m1, of "{gsA}"] r4
              by (rule mods_trans) simp_all
            then show "mods ?W h h'" by (rule mods_mono) simp
            show "grown h tabs tabs'"
              using grown_refl r5 mods_next [OF m1] by (rule grown_trans)
            show "gsA < nextFree h'" using gs1 mods_next [OF r4] by simp
          qed simp
        qed
      qed
      show ?thesis
      proof (cases "findPartialTable ?grp ?T")
        case None2: None
        show ?thesis
        proof (rule split [of h])
          show "standardStepH cap grpH (gsA, n, tabs, tc, h)
                = splitNewTableH cap grpH (gsA, n, tabs, tc, h)"
            using fb fp None False None2 by (simp add: standardStepH_def)
          show "standardStep cap ?grp (?gs, n, ?T, tc) = splitNewTable cap ?grp (?gs, n, ?T, tc)"
            using None False None2 by (simp add: standardStep_def)
        qed simp
      next
        case (Some p)
        obtain pid space where p: "p = (pid, space)" by (cases p)
        let ?chunk = "greedyChunk space ?gs"
        let ?c = "nextFree h"
        let ?h1 = "snd (alloc ?chunk h)"
        have m1: "mods {} h ?h1" by (rule modsI) (simp_all add: alloc_def)
        show ?thesis
        proof (cases "?chunk = []")
          case True
          show ?thesis
          proof (rule split [of ?h1])
            have "arr ?h1 ?c = []" using True by (simp add: alloc_def)
            then show "standardStepH cap grpH (gsA, n, tabs, tc, h)
                  = splitNewTableH cap grpH (gsA, n, tabs, tc, ?h1)"
              using fb fp None False Some p
              by (simp add: standardStepH_def alloc_def)
            show "standardStep cap ?grp (?gs, n, ?T, tc) = splitNewTable cap ?grp (?gs, n, ?T, tc)"
              using None False Some p True by (simp add: standardStep_def)
          qed (rule m1)
        next
          case ne: False
          let ?h2 = "spliceChunk gsA ?chunk ?h1"
          have ok2: "storeOK base ?h2 tabs" using ok by (rule storeOK_grow) (simp add: alloc_def)
          have c: "?c \<notin> set (tabAddrs tabs)" using T by auto
          have neq: "gsA \<noteq> ?c" using gs(1) by simp
          have c2: "arr ?h2 ?c = ?chunk" using neq by (simp add: alloc_def)
          have m2: "mods {gsA} h ?h2" using neq by (intro modsI) (auto simp: alloc_def)
          have t2: "tablesOf ?h2 tabs = ?T"
            by (rule tablesOf_mods [OF ok m2]) (use gs(2) in simp)
          show ?thesis
          proof (rule pushToTableH_sim [OF ok2 c, where tid = pid])
            fix h3
            assume push: "pushToTableH pid ?c (tabs, ?h2) = Some (tabs, h3)"
              and tabs3: "tablesOf h3 tabs
                          = modifyTable pid (pushGuests (arr ?h2 ?c)) (tablesOf ?h2 tabs)"
              and next3: "nextFree h3 = nextFree ?h2"
              and frame: "\<And>a. a \<notin> set (tabAddrs tabs) \<Longrightarrow> arr h3 a = arr ?h2 a"
            have g3: "arr h3 gsA = removeChunk ?chunk ?gs"
              using frame [OF gs(2)] neq by (simp add: alloc_def)
            have tabs3': "tablesOf h3 tabs = modifyTable pid (pushGuests ?chunk) ?T"
              by (simp only: tabs3 c2 t2)
            have "arr ?h1 ?c \<noteq> []" using ne by (simp add: alloc_def)
            then have run: "standardStepH cap grpH (gsA, n, tabs, tc, h)
                       = Some (True, gsA, getGuestsSize (arr h3 gsA), tabs, tc, h3)"
              using fb fp None False Some p push
              by (simp add: standardStepH_def alloc_def)
            have "standardStep cap ?grp (?gs, n, ?T, tc)
                  = Continue (removeChunk ?chunk ?gs, getGuestsSize (removeChunk ?chunk ?gs),
                              modifyTable pid (pushGuests ?chunk) ?T, tc)"
              using None False Some p ne by (simp add: standardStep_def Let_def)
            then have abs: "standardStep cap ?grp (standardAbs (gsA, n, tabs, tc, h))
                            = (if True then Continue else Break)
                                (standardAbs (gsA, getGuestsSize (arr h3 gsA), tabs, tc, h3))"
              unfolding standardAbs_def prod.case tabs3' g3 by simp
            show ?thesis
            proof (rule that [OF run abs _ _ _ _ gs(2)])
              show "storeOK base h3 tabs" using ok by (rule storeOK_grow) (simp add: next3 alloc_def)
              show "mods ?W h h3"
              proof (rule modsI)
                show "nextFree h \<le> nextFree h3" by (simp add: next3 alloc_def)
                fix a assume "a < nextFree h" "a \<notin> ?W"
                then show "arr h3 a = arr h a" using frame [of a] by (simp add: alloc_def)
              qed
              show "grown h tabs tabs" by simp
              show "gsA < nextFree h3" using gs(1) by (simp add: next3 alloc_def)
            qed simp
          qed
        qed
      qed
    qed
  qed
qed

lemma standardWhileH_ex:
  assumes "storeOK base h tabs" and "base \<le> nextFree h"
    and "gsA < nextFree h" and "gsA \<notin> set (tabAddrs tabs)"
  shows "\<exists>tabs' tc' h'.
           standardWhileH cap grpH (gsA, n, tabs, tc, h) = Some (tabs', tc', h')
           \<and> standardWhile cap (groupOf hx grpH) (standardAbs (gsA, n, tabs, tc, h))
               = (tablesOf h' tabs', tc')
           \<and> storeOK base h' tabs' \<and> mods (insert gsA (set (tabAddrs tabs))) h h'
           \<and> grown h tabs tabs'"
  using assms
proof (induction "length (arr h gsA)" arbitrary: gsA n tabs tc h rule: less_induct)
  case less
  let ?grp = "groupOf hx grpH"
  show ?case
  proof (cases "arr h gsA = []")
    case True
    have "standardWhileH cap grpH (gsA, n, tabs, tc, h) = Some (tabs, tc, h)"
      using True by (subst standardWhileH.simps) simp
    moreover have "standardWhile cap ?grp (standardAbs (gsA, n, tabs, tc, h))
                   = (tablesOf h tabs, tc)"
      using True by (simp add: standardAbs_def standardWhile.simps)
    ultimately show ?thesis using less.prems(1) by auto
  next
    case False
    show ?thesis
    proof (rule standardStepH_sim [OF less.prems, where cap = cap and grpH = grpH and n = n
          and tc = tc and hx = hx])
      fix b gsA' n' tabs' tc' h'
      assume run: "standardStepH cap grpH (gsA, n, tabs, tc, h)
                   = Some (b, gsA', n', tabs', tc', h')"
        and abs: "standardStep cap ?grp (standardAbs (gsA, n, tabs, tc, h))
                  = (if b then Continue else Break) (standardAbs (gsA', n', tabs', tc', h'))"
        and ok': "storeOK base h' tabs'"
        and m: "mods (insert gsA (set (tabAddrs tabs))) h h'"
        and gr: "grown h tabs tabs'"
        and g1: "gsA' < nextFree h'" and g2: "gsA' \<notin> set (tabAddrs tabs')"
        and g3: "gsA' = gsA \<or> nextFree h \<le> gsA'"
      have unfoldH: "standardWhileH cap grpH (gsA, n, tabs, tc, h)
                     = (if b then standardWhileH cap grpH (gsA', n', tabs', tc', h')
                        else Some (tabs', tc', h'))"
        using False run by (subst standardWhileH.simps) simp
      have unfold: "standardWhile cap ?grp (standardAbs (gsA, n, tabs, tc, h))
                    = (if b then standardWhile cap ?grp (standardAbs (gsA', n', tabs', tc', h'))
                       else (tablesOf h' tabs', tc'))"
        using False abs by (simp add: standardAbs_def standardWhile.simps)
      show ?thesis
      proof (cases b)
        case False
        then show ?thesis using unfoldH unfold ok' m gr by auto
      next
        case True
        from abs True have "standardStep cap ?grp (arr h gsA, n, tablesOf h tabs, tc)
                            = Continue (arr h' gsA', n', tablesOf h' tabs', tc')"
          by (simp add: standardAbs_def)
        then have shorter: "length (arr h' gsA') < length (arr h gsA)"
          using False by (rule standardStep_shorter)
        have next': "nextFree h \<le> nextFree h'" using m by (rule mods_next)
        have base': "base \<le> nextFree h'" using less.prems(2) next' by simp
        from less.hyps [OF shorter ok' base' g1 g2, of n' tc'] obtain tabs'' tc'' h'' where
          r1: "standardWhileH cap grpH (gsA', n', tabs', tc', h') = Some (tabs'', tc'', h'')"
          and r2: "standardWhile cap ?grp (standardAbs (gsA', n', tabs', tc', h'))
                   = (tablesOf h'' tabs'', tc'')"
          and r3: "storeOK base h'' tabs''"
          and r4: "mods (insert gsA' (set (tabAddrs tabs'))) h' h''"
          and r5: "grown h' tabs' tabs''"
          by blast
        have "mods (insert gsA (set (tabAddrs tabs))) h h''"
          using m r4
        proof (rule mods_trans)
          fix a assume "a \<in> insert gsA' (set (tabAddrs tabs'))"
          then show "a \<in> insert gsA (set (tabAddrs tabs)) \<or> nextFree h \<le> a"
            using g3 grownD [OF gr, of a] by auto
        qed
        moreover have "grown h tabs tabs''" using gr r5 next' by (rule grown_trans)
        ultimately show ?thesis using True unfoldH unfold r1 r2 r3 by auto
      qed
    qed
  qed
qed

lemma standardSeatGroupH_ex:
  assumes ok: "storeOK base h tabs" and base: "base \<le> nextFree h"
    and ro: "hg_guests grpH < nextFree h"
  shows "\<exists>tabs' tc' h'.
           standardSeatGroupH cap grpH (tabs, tc, h) = Some (tabs', tc', h')
           \<and> standardSeatGroup cap (groupOf h grpH) (tablesOf h tabs, tc) = (tablesOf h' tabs', tc')
           \<and> storeOK base h' tabs' \<and> mods (set (tabAddrs tabs)) h h' \<and> grown h tabs tabs'"
proof -
  let ?g = "nextFree h"
  let ?h1 = "snd (alloc (arr h (hg_guests grpH)) h)"
  let ?n = "getGuestsSize (arr ?h1 ?g)"
  have m1: "mods {} h ?h1" by (rule modsI) (simp_all add: alloc_def)
  have ok1: "storeOK base ?h1 tabs" using ok by (rule storeOK_grow) (simp add: alloc_def)
  have base1: "base \<le> nextFree ?h1" using base by (simp add: alloc_def)
  have g: "?g \<notin> set (tabAddrs tabs)" using ok by (auto dest: storeOK_addr)
  have "?g < nextFree ?h1" by (simp add: alloc_def)
  from standardWhileH_ex [OF ok1 base1 this g, of cap grpH ?n tc h] obtain tabs' tc' h' where
    r1: "standardWhileH cap grpH (?g, ?n, tabs, tc, ?h1) = Some (tabs', tc', h')"
    and r2: "standardWhile cap (groupOf h grpH) (standardAbs (?g, ?n, tabs, tc, ?h1))
             = (tablesOf h' tabs', tc')"
    and r3: "storeOK base h' tabs'"
    and r4: "mods (insert ?g (set (tabAddrs tabs))) ?h1 h'"
    and r5: "grown ?h1 tabs tabs'"
    by blast
  have run: "standardSeatGroupH cap grpH (tabs, tc, h) = Some (tabs', tc', h')"
    using r1 by (simp add: standardSeatGroupH_def alloc_def)
  have t1: "tablesOf ?h1 tabs = tablesOf h tabs" by (rule tablesOf_mods [OF ok m1]) simp
  have c1: "arr ?h1 ?g = guests (groupOf h grpH)" by (simp add: alloc_def groupOf_def)
  have "standardAbs (?g, ?n, tabs, tc, ?h1)
        = (guests (groupOf h grpH), getGuestsSize (guests (groupOf h grpH)), tablesOf h tabs, tc)"
    unfolding standardAbs_def prod.case t1 c1 ..
  with r2 have abs: "standardSeatGroup cap (groupOf h grpH) (tablesOf h tabs, tc)
                     = (tablesOf h' tabs', tc')"
    by (simp add: standardSeatGroup_def)
  have "mods (insert ?g (set (tabAddrs tabs)) - {?g}) h h'" using r4 by (rule mods_alloc)
  then have m: "mods (set (tabAddrs tabs)) h h'" using g by simp
  have "grown h tabs tabs'" using grown_refl r5 mods_next [OF m1] by (rule grown_trans)
  with run abs r3 m show ?thesis by blast
qed

lemma standardFoldH_ex:
  assumes "storeOK base h tabs" and "base \<le> nextFree h" and "apart h tabs pool"
  shows "\<exists>tabs' tc' h'.
           foldOption (standardSeatGroupH cap) pool (tabs, tc, h) = Some (tabs', tc', h')
           \<and> fold (standardSeatGroup cap) (map (groupOf h) pool) (tablesOf h tabs, tc)
               = (tablesOf h' tabs', tc')
           \<and> storeOK base h' tabs' \<and> mods (set (tabAddrs tabs)) h h'"
  using assms
proof (induction pool arbitrary: tabs tc h)
  case Nil
  then show ?case by simp
next
  case (Cons g pool)
  from Cons.prems(3) have g: "hg_guests g < nextFree h" and ap: "apart h tabs pool"
    by (simp_all add: apart_def grpAddrs_def)
  from standardSeatGroupH_ex [OF Cons.prems(1,2) g, of cap tc] obtain tabs1 tc1 h1 where
    r1: "standardSeatGroupH cap g (tabs, tc, h) = Some (tabs1, tc1, h1)"
    and r2: "standardSeatGroup cap (groupOf h g) (tablesOf h tabs, tc) = (tablesOf h1 tabs1, tc1)"
    and r3: "storeOK base h1 tabs1" and r4: "mods (set (tabAddrs tabs)) h h1"
    and r5: "grown h tabs tabs1"
    by blast
  have next1: "nextFree h \<le> nextFree h1" using r4 by (rule mods_next)
  have base1: "base \<le> nextFree h1" using Cons.prems(2) next1 by simp
  have ap1: "apart h1 tabs1 pool"
    unfolding apart_def list_all_iff
  proof
    fix a assume a: "a \<in> set (grpAddrs pool)"
    from apartD [OF ap a] have "a < nextFree h" "a \<notin> set (tabAddrs tabs)" by simp_all
    then show "a < nextFree h1 \<and> a \<notin> set (tabAddrs tabs1)"
      using next1 grownD [OF r5, of a] by auto
  qed
  have c1: "map (groupOf h1) pool = map (groupOf h) pool"
    by (rule apart_mods [OF ap r4]) (rule apart_tables [OF ap])
  from Cons.IH [OF r3 base1 ap1, of tc1] obtain tabs2 tc2 h2 where
    s1: "foldOption (standardSeatGroupH cap) pool (tabs1, tc1, h1) = Some (tabs2, tc2, h2)"
    and s2: "fold (standardSeatGroup cap) (map (groupOf h1) pool) (tablesOf h1 tabs1, tc1)
             = (tablesOf h2 tabs2, tc2)"
    and s3: "storeOK base h2 tabs2" and s4: "mods (set (tabAddrs tabs1)) h1 h2"
    by blast
  have "mods (set (tabAddrs tabs)) h h2"
    using r4 s4 by (rule mods_trans) (use grownD [OF r5] in auto)
  then show ?case using r1 r2 s1 s2 s3 c1 by simp
qed

text \<open>The standard phase writes only to the arrays of the tables and to arrays of its
  own.\<close>

lemma standardPhaseH_ex:
  assumes ok: "storeOK base h tabs" and base: "base \<le> nextFree h" and ro: "apart h tabs pool"
  shows "\<exists>tabs' tc' h'.
           standardPhaseH cap pool (tabs, tc, h) = Some (tabs', tc', h')
           \<and> standardPhase cap (map (groupOf h) pool) (tablesOf h tabs, tc)
               = (tablesOf h' tabs', tc')
           \<and> storeOK base h' tabs' \<and> mods (set (tabAddrs tabs)) h h'"
proof -
  have "apart h tabs (sortDescBy hg_size pool)" using ro by (rule apart_subset) simp
  from standardFoldH_ex [OF ok base this, of cap tc] show ?thesis
    by (simp add: standardPhaseH_def standardPhase_def sortDescBy_groupOf)
qed

subsection \<open>Phase C: the store model against the value model\<close>

lemma storeOK_merge:
  assumes ok: "storeOK base h tabs" and base: "base \<le> nextFree h"
    and nxt: "nextFree h < nextFree h'"
  shows "storeOK base h' (deleteProp idB (modifyTableH idA (mergeIntoH (nextFree h)) tabs))"
proof -
  let ?n = "nextFree h"
  let ?f = "\<lambda>p :: nat \<times> HTable. ht_guests (snd p)"
  let ?f' = "\<lambda>p :: nat \<times> HTable. if fst p = idA then ?n else ht_guests (snd p)"
  let ?tabs1 = "modifyTableH idA (mergeIntoH ?n) tabs"
  from ok have dk: "distinct (map fst tabs)" and da: "distinct (map ?f tabs)"
    and bound: "\<And>p. p \<in> set tabs \<Longrightarrow> base \<le> ?f p \<and> ?f p < ?n"
    by (auto simp: storeOK_def tabAddrs_def list_all_iff)
  have addrs1: "tabAddrs ?tabs1 = map ?f' tabs"
    by (simp add: tabAddrs_def modifyTableH_def mergeIntoH_def comp_def if_distrib cong: if_cong)
  have dt: "distinct tabs" using dk by (simp add: distinct_map)
  have "inj_on ?f' (set tabs)"
  proof (rule inj_onI)
    fix p q assume p: "p \<in> set tabs" and q: "q \<in> set tabs" and eq: "?f' p = ?f' q"
    show "p = q"
    proof (cases "fst p = idA")
      case True
      then have "fst q = idA" using eq bound [OF q] by (auto split: if_splits)
      with True have "fst p = fst q" by simp
      then show ?thesis using dk p q by (metis distinct_map inj_onD)
    next
      case False
      then have nq: "fst q \<noteq> idA" using eq bound [OF p] by (auto split: if_splits)
      with False eq have "?f p = ?f q" by simp
      then show ?thesis using da p q by (metis distinct_map inj_onD)
    qed
  qed
  with dt have d1: "distinct (map ?f' tabs)" by (simp add: distinct_map)
  have b1: "\<And>a. a \<in> set (map ?f' tabs) \<Longrightarrow> base \<le> a \<and> a < nextFree h'"
    using bound base nxt by (fastforce split: if_splits)
  have "distinct (map fst (deleteProp idB ?tabs1))"
    using dk by (simp add: deleteProp_def distinct_map_filter)
  moreover have "distinct (tabAddrs (deleteProp idB ?tabs1))"
    using d1 addrs1 by (simp add: tabAddrs_def deleteProp_def distinct_map_filter)
  moreover have "set (tabAddrs (deleteProp idB ?tabs1)) \<subseteq> set (tabAddrs ?tabs1)"
    by (auto simp: tabAddrs_def deleteProp_def)
  then have "\<And>a. a \<in> set (tabAddrs (deleteProp idB ?tabs1)) \<Longrightarrow> base \<le> a \<and> a < nextFree h'"
    using b1 addrs1 by auto
  ultimately show ?thesis by (simp add: storeOK_def list_all_iff)
qed

lemma findPartnerH_ex:
  assumes ok: "storeOK base h tabs" and base: "base \<le> nextFree h"
    and look: "map_of tabs idA = Some tableA"
  shows "\<exists>tabs' merged' h'.
           findPartnerH idA tableA sizeA ids (tabs, merged, h) = (tabs', merged', h')
           \<and> findPartner idA (tableOf h tableA) sizeA ids (tablesOf h tabs, merged)
               = (tablesOf h' tabs', merged')
           \<and> storeOK base h' tabs' \<and> mods {} h h'"
proof (induction ids)
  case Nil
  then show ?case using ok by simp
next
  case (Cons idB rest)
  show ?case
  proof (cases "idB \<in> set merged")
    case True
    then show ?thesis using Cons by simp
  next
    case False
    show ?thesis
    proof (cases "map_of tabs idB")
      case None
      then show ?thesis using False Cons by (simp add: map_of_tablesOf)
    next
      case (Some tableB)
      show ?thesis
      proof (cases "sizeA + getGuestsSize (arr h (ht_guests tableB)) \<le> ht_capacity tableA")
        case no: False
        then show ?thesis using False Some Cons by (simp add: map_of_tablesOf tableOf_def)
      next
        case True
        let ?n = "nextFree h"
        let ?xs = "arr h (ht_guests tableA) @ arr h (ht_guests tableB)"
        let ?h1 = "snd (alloc ?xs h)"
        let ?tabs' = "deleteProp idB (modifyTableH idA (mergeIntoH ?n) tabs)"
        have run: "findPartnerH idA tableA sizeA (idB # rest) (tabs, merged, h)
                   = (?tabs', idB # merged, ?h1)"
          using False Some True by (simp add: alloc_def)
        have m: "mods {} h ?h1" by (rule modsI) (simp_all add: alloc_def)
        have other: "\<And>a. a \<in> set (tabAddrs tabs) \<Longrightarrow> a \<noteq> ht_guests tableA
                      \<Longrightarrow> arr ?h1 a = arr h a"
          using storeOK_addr [OF ok] by (auto simp: alloc_def)
        have upd: "tableOf ?h1 (mergeIntoH ?n tableA)
                   = mergeInto (tableOf h tableB) (tableOf h tableA)"
          by (simp add: tableOf_def mergeIntoH_def mergeInto_def alloc_def)
        have "tablesOf ?h1 (modifyTableH idA (mergeIntoH ?n) tabs)
              = modifyTable idA (mergeInto (tableOf h tableB)) (tablesOf h tabs)"
          by (rule tablesOf_modify [where f = "mergeIntoH ?n"
                and g = "mergeInto (tableOf h tableB)", OF ok look other upd])
        then have tabs': "tablesOf ?h1 ?tabs'
                          = deleteProp idB (modifyTable idA (mergeInto (tableOf h tableB))
                                              (tablesOf h tabs))"
          by (simp only: tablesOf_deleteProp)
        have abs: "findPartner idA (tableOf h tableA) sizeA (idB # rest) (tablesOf h tabs, merged)
                   = (tablesOf ?h1 ?tabs', idB # merged)"
          using False Some True unfolding tabs' by (simp add: map_of_tablesOf tableOf_def)
        have ok': "storeOK base ?h1 ?tabs'"
          by (rule storeOK_merge [OF ok base]) (simp add: alloc_def)
        from run abs ok' m show ?thesis by blast
      qed
    qed
  qed
qed

lemma mergeLoopH_ex:
  assumes "storeOK base h tabs" and "base \<le> nextFree h"
  shows "\<exists>tabs' merged' h'.
           mergeLoopH ids (tabs, merged, h) = (tabs', merged', h')
           \<and> mergeLoop ids (tablesOf h tabs, merged) = (tablesOf h' tabs', merged')
           \<and> storeOK base h' tabs' \<and> mods {} h h'"
  using assms
proof (induction ids arbitrary: tabs merged h)
  case Nil
  then show ?case by simp
next
  case (Cons idA rest)
  note IH = Cons.IH [OF Cons.prems, of merged]
  show ?case
  proof (cases "idA \<in> set merged")
    case True
    then show ?thesis using IH by simp
  next
    case False
    show ?thesis
    proof (cases "map_of tabs idA")
      case None
      then show ?thesis using False IH by (simp add: map_of_tablesOf)
    next
      case (Some tableA)
      let ?sizeA = "getGuestsSize (arr h (ht_guests tableA))"
      show ?thesis
      proof (cases "ht_capacity tableA \<le> ?sizeA")
        case True
        then show ?thesis using False Some IH by (simp add: map_of_tablesOf tableOf_def)
      next
        case no: False
        from findPartnerH_ex [OF Cons.prems Some, of ?sizeA rest merged]
        obtain tabs1 merged1 h1 where
          r1: "findPartnerH idA tableA ?sizeA rest (tabs, merged, h) = (tabs1, merged1, h1)"
          and r2: "findPartner idA (tableOf h tableA) ?sizeA rest (tablesOf h tabs, merged)
                   = (tablesOf h1 tabs1, merged1)"
          and r3: "storeOK base h1 tabs1" and r4: "mods {} h h1"
          by blast
        have base1: "base \<le> nextFree h1" using Cons.prems(2) mods_next [OF r4] by simp
        from Cons.IH [OF r3 base1, of merged1] obtain tabs2 merged2 h2 where
          s1: "mergeLoopH rest (tabs1, merged1, h1) = (tabs2, merged2, h2)"
          and s2: "mergeLoop rest (tablesOf h1 tabs1, merged1) = (tablesOf h2 tabs2, merged2)"
          and s3: "storeOK base h2 tabs2" and s4: "mods {} h1 h2"
          by blast
        have run: "mergeLoopH (idA # rest) (tabs, merged, h) = (tabs2, merged2, h2)"
          using False Some no r1 s1 by (simp add: Let_def)
        have "table_guests (tableOf h tableA) = arr h (ht_guests tableA)"
          "table_capacity (tableOf h tableA) = ht_capacity tableA"
          by (simp_all add: tableOf_def)
        then have abs: "mergeLoop (idA # rest) (tablesOf h tabs, merged)
                        = (tablesOf h2 tabs2, merged2)"
          using False Some no r2 s2 by (simp add: Let_def map_of_tablesOf)
        have "mods {} h h2" using r4 s4 by (rule mods_trans) simp
        with run abs s3 show ?thesis by blast
      qed
    qed
  qed
qed

lemma mergeSparseTablesH_ex:
  assumes "storeOK base h tabs" and "base \<le> nextFree h"
  shows "\<exists>tabs' h'. mergeSparseTablesH (tabs, h) = (tabs', h')
                     \<and> mergeSparseTables (tablesOf h tabs) = tablesOf h' tabs'
                     \<and> storeOK base h' tabs' \<and> mods {} h h'"
proof -
  from mergeLoopH_ex [OF assms, of "standardTableIds (tablesOf h tabs)" "[]"]
  obtain tabs' merged' h' where
    "mergeLoopH (standardTableIds (tablesOf h tabs)) (tabs, [], h) = (tabs', merged', h')"
    and "mergeLoop (standardTableIds (tablesOf h tabs)) (tablesOf h tabs, [])
         = (tablesOf h' tabs', merged')"
    and "storeOK base h' tabs'" and "mods {} h h'"
    by blast
  then show ?thesis by (simp add: mergeSparseTablesH_def mergeSparseTables_def Let_def)
qed

subsection \<open>Grouping: the store model against the value model\<close>

text \<open>The dictionary \<open>groups\<close> read from the store, and its well-formedness: no two keys
  share an array, and every array was allocated after \<open>ungrouped\<close>.\<close>

definition dictOf :: "Heap \<Rightarrow> (string \<times> nat) list \<Rightarrow> (string \<times> Guest list) list" where
  "dictOf h groups = map (\<lambda>p. (fst p, arr h (snd p))) groups"

definition dictOK :: "nat \<Rightarrow> Heap \<Rightarrow> (string \<times> nat) list \<Rightarrow> bool" where
  "dictOK u h groups = (distinct (map snd groups)
                        \<and> list_all (\<lambda>a. u < a \<and> a < nextFree h) (map snd groups))"

lemma dictOf_cong:
  assumes "\<And>a. a \<in> set (map snd groups) \<Longrightarrow> arr h' a = arr h a"
  shows "dictOf h' groups = dictOf h groups"
  using assms by (auto simp: dictOf_def)

lemma dictOf_setProp: "dictOf h (setProp k a groups) = setProp k (arr h a) (dictOf h groups)"
  by (induction groups) (auto simp: dictOf_def)

lemma map_of_dictOf: "map_of (dictOf h groups) k = map_option (arr h) (map_of groups k)"
  by (induction groups) (auto simp: dictOf_def)

lemma dictOK_setProp:
  assumes "dictOK u h groups" and "u < nextFree h" and "nextFree h < nextFree h'"
  shows "dictOK u h' (setProp k (nextFree h) groups)"
proof -
  from assms(1) have d: "distinct (map snd groups)"
    and b: "\<And>a. a \<in> set (map snd groups) \<Longrightarrow> u < a \<and> a < nextFree h"
    by (auto simp: dictOK_def list_all_iff)
  have fresh: "snd (k, nextFree h) \<notin> set (map snd groups)" using b by auto
  have "distinct (map snd (setProp k (nextFree h) groups))"
    using d fresh by (rule setProp_snd_distinct)
  moreover have "\<And>a. a \<in> set (map snd (setProp k (nextFree h) groups))
                  \<Longrightarrow> u < a \<and> a < nextFree h'"
    using setProp_snd_set [of snd k "nextFree h" groups] b assms(2,3) by fastforce
  ultimately show ?thesis by (simp add: dictOK_def list_all_iff)
qed

lemma dictOf_below:
  assumes "dictOK u h groups" and "\<And>a. a < nextFree h \<Longrightarrow> arr h' a = arr h a"
  shows "dictOf h' groups = dictOf h groups"
proof (rule dictOf_cong)
  fix a assume "a \<in> set (map snd groups)"
  then have "a < nextFree h" using assms(1) by (auto simp: dictOK_def list_all_iff)
  then show "arr h' a = arr h a" by (rule assms(2))
qed

lemma dictOK_grow: "dictOK u h groups \<Longrightarrow> nextFree h \<le> nextFree h' \<Longrightarrow> dictOK u h' groups"
  by (auto simp: dictOK_def list_all_iff)

text \<open>A push onto the array stored under a key updates the entry of that key.\<close>

lemma dict_update:
  assumes "distinct (map snd ps)" and "map_of ps k = Some a"
  shows "map (\<lambda>p. (fst p, (f(a := v)) (snd p))) ps = setProp k v (map (\<lambda>p. (fst p, f (snd p))) ps)"
  using assms
proof (induction ps)
  case Nil
  then show ?case by simp
next
  case (Cons p ps)
  show ?case
  proof (cases "fst p = k")
    case True
    with Cons.prems(2) have a: "a = snd p" by (cases p) simp
    from Cons.prems(1) have "snd p \<notin> snd ` set ps" by simp
    with a have "\<And>q. q \<in> set ps \<Longrightarrow> snd q \<noteq> a" by (metis imageI)
    then have "map (\<lambda>p. (fst p, (f(a := v)) (snd p))) ps = map (\<lambda>p. (fst p, f (snd p))) ps"
      by simp
    with True a show ?thesis by simp
  next
    case False
    with Cons.prems(2) have look: "map_of ps k = Some a" by (cases p) simp
    then have "(k, a) \<in> set ps" by (rule map_of_SomeD)
    then have "a \<in> set (map snd ps)" by force
    with Cons.prems(1) have "snd p \<noteq> a" by auto
    moreover from Cons.prems(1) have "distinct (map snd ps)" by simp
    ultimately show ?thesis using False Cons.IH look by simp
  qed
qed

text \<open>No key of the dictionary is inherited.\<close>

definition plainKeys :: "(string \<times> nat) list \<Rightarrow> bool" where
  "plainKeys groups = list_all (\<lambda>k. \<not> inherited k) (map fst groups)"

lemma plainKeys_lookup: "plainKeys groups \<Longrightarrow> inherited key \<Longrightarrow> map_of groups key = None"
  by (auto simp: plainKeys_def list_all_iff map_of_eq_None_iff)

lemma plainKeys_setProp:
  assumes "plainKeys groups" and "\<not> inherited key"
  shows "plainKeys (setProp key a groups)"
proof -
  have "set (map fst (setProp key a groups)) \<subseteq> insert key (set (map fst groups))"
    using setProp_snd_set [of fst key a groups] by simp
  then show ?thesis using assms unfolding plainKeys_def list_all_iff by blast
qed

lemma pushGroupedH_throws:
  assumes "plainKeys groups" and "inherited key"
  shows "pushGroupedH key guest (groups, h) = Inl (TypeError, h)"
  using plainKeys_lookup [OF assms] assms(2) by (simp add: pushGroupedH_def)

lemma pushGroupedH_ex:
  assumes ok: "dictOK u h groups" and u: "u < nextFree h"
    and plain: "plainKeys groups" and key: "\<not> inherited key"
  shows "\<exists>groups' h'. pushGroupedH key guest (groups, h) = Inr (groups', h')
                       \<and> dictOf h' groups' = pushGrouped key guest (dictOf h groups)
                       \<and> arr h' u = arr h u \<and> dictOK u h' groups' \<and> plainKeys groups'
                       \<and> mods {u..} h h'"
proof (cases "map_of groups key")
  case None
  let ?a = "nextFree h"
  let ?h' = "push ?a guest (snd (alloc [] h))"
  let ?groups' = "setProp key ?a groups"
  have run: "pushGroupedH key guest (groups, h) = Inr (?groups', ?h')"
    using None key by (simp add: pushGroupedH_def alloc_def)
  have "dictOf ?h' groups = dictOf h groups"
    by (rule dictOf_below [OF ok]) (simp add: alloc_def)
  then have abs: "dictOf ?h' ?groups' = pushGrouped key guest (dictOf h groups)"
    using None by (simp add: dictOf_setProp pushGrouped_def map_of_dictOf alloc_def)
  have "dictOK u ?h' ?groups'" by (rule dictOK_setProp [OF ok u]) (simp add: alloc_def)
  moreover have "arr ?h' u = arr h u" using u by (simp add: alloc_def)
  moreover have "mods {u..} h ?h'" by (rule modsI) (auto simp: alloc_def)
  moreover have "plainKeys ?groups'" using plain key by (rule plainKeys_setProp)
  ultimately show ?thesis using run abs by blast
next
  case (Some a)
  let ?h' = "push a guest h"
  have run: "pushGroupedH key guest (groups, h) = Inr (groups, ?h')"
    using Some by (simp add: pushGroupedH_def)
  from ok have d: "distinct (map snd groups)"
    and b: "\<And>a. a \<in> set (map snd groups) \<Longrightarrow> u < a \<and> a < nextFree h"
    by (auto simp: dictOK_def list_all_iff)
  from Some have "(key, a) \<in> set groups" by (rule map_of_SomeD)
  then have "a \<in> set (map snd groups)" by force
  then have a: "u < a" using b by simp
  have "dictOf ?h' groups = setProp key (arr h a @ [guest]) (dictOf h groups)"
    unfolding dictOf_def push_arr by (rule dict_update [OF d Some])
  then have abs: "dictOf ?h' groups = pushGrouped key guest (dictOf h groups)"
    using Some by (simp add: pushGrouped_def map_of_dictOf)
  have "dictOK u ?h' groups" using ok by (rule dictOK_grow) simp
  moreover have "arr ?h' u = arr h u" using a by simp
  moreover have "mods {u..} h ?h'" using a by (intro modsI) auto
  ultimately show ?thesis using run abs plain by blast
qed

lemma groupStepH_throws:
  assumes "plainKeys groups" and "groupKeyInherited guest"
  shows "groupStepH u guest (groups, h) = Inl (TypeError, h)"
proof -
  from assms(2) obtain s where s: "guest_groupId guest = Some s" "s \<noteq> []" "inherited (trim s)"
    by (auto simp: groupKeyInherited_def split: option.splits)
  then show ?thesis using pushGroupedH_throws [OF assms(1) s(3)] by (simp add: groupStepH_def)
qed

lemma groupStepH_ex:
  assumes ok: "dictOK u h groups" and u: "u < nextFree h"
    and plain: "plainKeys groups" and key: "\<not> groupKeyInherited guest"
  shows "\<exists>groups' h'. groupStepH u guest (groups, h) = Inr (groups', h')
                       \<and> (dictOf h' groups', arr h' u) = groupStep guest (dictOf h groups, arr h u)
                       \<and> dictOK u h' groups' \<and> plainKeys groups' \<and> mods {u..} h h'"
proof (cases "\<exists>s. guest_groupId guest = Some s \<and> s \<noteq> []")
  case True
  then obtain s where s: "guest_groupId guest = Some s" "s \<noteq> []" by blast
  with key have "\<not> inherited (trim s)" by (simp add: groupKeyInherited_def)
  from pushGroupedH_ex [OF ok u plain this, of guest] obtain groups' h' where
    "pushGroupedH (trim s) guest (groups, h) = Inr (groups', h')"
    and "dictOf h' groups' = pushGrouped (trim s) guest (dictOf h groups)"
    and "arr h' u = arr h u" and "dictOK u h' groups'" and "plainKeys groups'"
    and "mods {u..} h h'"
    by blast
  then show ?thesis using s by (simp add: groupStepH_def groupStep_def)
next
  case False
  let ?h' = "push u guest h"
  have run: "groupStepH u guest (groups, h) = Inr (groups, ?h')"
    using False by (cases "guest_groupId guest") (auto simp: groupStepH_def)
  have b: "\<And>a. a \<in> set (map snd groups) \<Longrightarrow> u < a \<and> a < nextFree h"
    using ok by (auto simp: dictOK_def list_all_iff)
  have "dictOf ?h' groups = dictOf h groups"
    by (rule dictOf_cong) (use b in auto)
  then have abs: "(dictOf ?h' groups, arr ?h' u) = groupStep guest (dictOf h groups, arr h u)"
    using False by (cases "guest_groupId guest") (auto simp: groupStep_def)
  have "dictOK u ?h' groups" using ok by (rule dictOK_grow) simp
  moreover have "mods {u..} h ?h'" by (rule modsI) auto
  ultimately show ?thesis using run abs plain by blast
qed

text \<open>The first pass throws at the first guest whose key is inherited, and handles the
  guests before it, and all guests when there is none, as the value model does.\<close>

lemma groupFoldH_throws:
  assumes "dictOK u h groups" and "u < nextFree h" and "plainKeys groups"
    and "groupingThrows xs"
  shows "\<exists>h'. forEachThrowing (groupStepH u) xs (groups, h) = Inl (TypeError, h')
              \<and> mods {u..} h h'"
  using assms
proof (induction xs arbitrary: groups h)
  case Nil
  then show ?case by (simp add: groupingThrows_def)
next
  case (Cons x xs)
  show ?case
  proof (cases "groupKeyInherited x")
    case True
    then show ?thesis using groupStepH_throws [OF Cons.prems(3) True, of u h] by simp
  next
    case False
    with Cons.prems(4) have rest: "groupingThrows xs" by (simp add: groupingThrows_def)
    from groupStepH_ex [OF Cons.prems(1,2,3) False] obtain groups1 h1 where
      r1: "groupStepH u x (groups, h) = Inr (groups1, h1)"
      and r3: "dictOK u h1 groups1" and r4: "plainKeys groups1" and r5: "mods {u..} h h1"
      by blast
    have u1: "u < nextFree h1" using Cons.prems(2) mods_next [OF r5] by simp
    from Cons.IH [OF r3 u1 r4 rest] obtain h2 where
      s1: "forEachThrowing (groupStepH u) xs (groups1, h1) = Inl (TypeError, h2)"
      and s2: "mods {u..} h1 h2"
      by blast
    have "mods {u..} h h2" using r5 s2 by (rule mods_trans) simp
    then show ?thesis using r1 s1 by simp
  qed
qed

lemma groupFoldH_ex:
  assumes "dictOK u h groups" and "u < nextFree h" and "plainKeys groups"
    and "\<not> groupingThrows xs"
  shows "\<exists>groups' h'. forEachThrowing (groupStepH u) xs (groups, h) = Inr (groups', h')
                       \<and> (dictOf h' groups', arr h' u) = fold groupStep xs (dictOf h groups, arr h u)
                       \<and> dictOK u h' groups' \<and> mods {u..} h h'"
  using assms
proof (induction xs arbitrary: groups h)
  case Nil
  then show ?case by simp
next
  case (Cons x xs)
  from Cons.prems(4) have x: "\<not> groupKeyInherited x" and rest: "\<not> groupingThrows xs"
    by (simp_all add: groupingThrows_def)
  from groupStepH_ex [OF Cons.prems(1,2,3) x] obtain groups1 h1 where
    r1: "groupStepH u x (groups, h) = Inr (groups1, h1)"
    and r2: "(dictOf h1 groups1, arr h1 u) = groupStep x (dictOf h groups, arr h u)"
    and r3: "dictOK u h1 groups1" and r4: "plainKeys groups1" and r5: "mods {u..} h h1"
    by blast
  have u1: "u < nextFree h1" using Cons.prems(2) mods_next [OF r5] by simp
  from Cons.IH [OF r3 u1 r4 rest] obtain groups2 h2 where
    s1: "forEachThrowing (groupStepH u) xs (groups1, h1) = Inr (groups2, h2)"
    and s2: "(dictOf h2 groups2, arr h2 u) = fold groupStep xs (dictOf h1 groups1, arr h1 u)"
    and s3: "dictOK u h2 groups2" and s4: "mods {u..} h1 h2"
    by blast
  have "mods {u..} h h2" using r5 s4 by (rule mods_trans) simp
  then show ?case using r1 r2 s1 s2 s3 by simp
qed

lemma individualFoldH_ex:
  assumes "dictOK u h groups" and "u < nextFree h"
  shows "\<exists>groups' h'. fold individualStepH xs (groups, h) = (groups', h')
                       \<and> dictOf h' groups' = fold individualStep xs (dictOf h groups)
                       \<and> dictOK u h' groups' \<and> mods {u..} h h'"
  using assms
proof (induction xs arbitrary: groups h)
  case Nil
  then show ?case by simp
next
  case (Cons x xs)
  let ?key = "''individual-'' @ guest_id x"
  let ?h1 = "snd (alloc [x] h)"
  let ?groups1 = "setProp ?key (nextFree h) groups"
  have r1: "individualStepH x (groups, h) = (?groups1, ?h1)"
    by (simp add: individualStepH_def alloc_def)
  have b: "\<And>a. a \<in> set (map snd groups) \<Longrightarrow> u < a \<and> a < nextFree h"
    using Cons.prems(1) by (auto simp: dictOK_def list_all_iff)
  have "dictOf ?h1 groups = dictOf h groups"
    by (rule dictOf_below [OF Cons.prems(1)]) (simp add: alloc_def)
  then have r2: "dictOf ?h1 ?groups1 = individualStep x (dictOf h groups)"
    by (simp add: dictOf_setProp individualStep_def alloc_def)
  have r3: "dictOK u ?h1 ?groups1"
    by (rule dictOK_setProp [OF Cons.prems]) (simp add: alloc_def)
  have r4: "mods {u..} h ?h1" by (rule modsI) (auto simp: alloc_def)
  have u1: "u < nextFree ?h1" using Cons.prems(2) by (simp add: alloc_def)
  from Cons.IH [OF r3 u1] obtain groups2 h2 where
    s1: "fold individualStepH xs (?groups1, ?h1) = (groups2, h2)"
    and s2: "dictOf h2 groups2 = fold individualStep xs (dictOf ?h1 ?groups1)"
    and s3: "dictOK u h2 groups2" and s4: "mods {u..} ?h1 h2"
    by blast
  have "mods {u..} h h2" using r4 s4 by (rule mods_trans) simp
  then show ?case using r1 r2 s1 s2 s3 by simp
qed

text \<open>Grouping reads the input array and writes only to arrays of its own, also when it
  throws.\<close>

lemma mods_fresh:
  assumes "mods {nextFree h..} (snd (alloc xs h)) h'"
  shows "mods {} h h'"
proof (rule modsI)
  show "nextFree h \<le> nextFree h'" using mods_next [OF assms] by (simp add: alloc_def)
  fix b assume b: "b < nextFree h"
  then have "arr h' b = arr (snd (alloc xs h)) b" using modsD [OF assms, of b] by (simp add: alloc_def)
  then show "arr h' b = arr h b" using b by (simp add: alloc_def)
qed

lemma groupDictH_throws:
  assumes a: "a < nextFree h" and throws: "groupingThrows (arr h a)"
  shows "\<exists>h'. groupDictH a h = Inl (TypeError, h') \<and> mods {} h h'"
proof -
  let ?u = "nextFree h"
  let ?h0 = "snd (alloc [] h)"
  have ok0: "dictOK ?u ?h0 []" by (simp add: dictOK_def)
  have u0: "?u < nextFree ?h0" by (simp add: alloc_def)
  have p0: "plainKeys []" by (simp add: plainKeys_def)
  have a0: "arr ?h0 a = arr h a" using a by (simp add: alloc_def)
  from groupFoldH_throws [OF ok0 u0 p0 throws] obtain h1 where
    r1: "forEachThrowing (groupStepH ?u) (arr h a) ([], ?h0) = Inl (TypeError, h1)"
    and r2: "mods {?u..} ?h0 h1"
    by blast
  have "groupDictH a h = Inl (TypeError, h1)"
    using r1 a0 by (simp add: groupDictH_def alloc_def)
  moreover have "mods {} h h1" using r2 by (rule mods_fresh)
  ultimately show ?thesis by blast
qed

lemma groupDictH_ex:
  assumes a: "a < nextFree h" and returns: "\<not> groupingThrows (arr h a)"
  shows "\<exists>groups h'. groupDictH a h = Inr (groups, h')
                      \<and> dictOf h' groups = groupDict (arr h a)
                      \<and> dictOK (nextFree h) h' groups \<and> mods {} h h'"
proof -
  let ?u = "nextFree h"
  let ?h0 = "snd (alloc [] h)"
  have ok0: "dictOK ?u ?h0 []" by (simp add: dictOK_def)
  have u0: "?u < nextFree ?h0" by (simp add: alloc_def)
  have p0: "plainKeys []" by (simp add: plainKeys_def)
  have a0: "arr ?h0 a = arr h a" using a by (simp add: alloc_def)
  from groupFoldH_ex [OF ok0 u0 p0 returns] obtain groups1 h1 where
    r1: "forEachThrowing (groupStepH ?u) (arr h a) ([], ?h0) = Inr (groups1, h1)"
    and r2: "(dictOf h1 groups1, arr h1 ?u) = fold groupStep (arr h a) (dictOf ?h0 [], arr ?h0 ?u)"
    and r3: "dictOK ?u h1 groups1" and r4: "mods {?u..} ?h0 h1"
    by blast
  have u1: "?u < nextFree h1" using u0 mods_next [OF r4] by simp
  from individualFoldH_ex [OF r3 u1, of "arr h1 ?u"] obtain groups2 h2 where
    s1: "fold individualStepH (arr h1 ?u) (groups1, h1) = (groups2, h2)"
    and s2: "dictOf h2 groups2 = fold individualStep (arr h1 ?u) (dictOf h1 groups1)"
    and s3: "dictOK ?u h2 groups2" and s4: "mods {?u..} h1 h2"
    by blast
  have run: "groupDictH a h = Inr (groups2, h2)"
    using r1 s1 a0 by (simp add: groupDictH_def alloc_def)
  have "fold groupStep (arr h a) ([], []) = (dictOf h1 groups1, arr h1 ?u)"
    using r2 by (simp add: dictOf_def alloc_def)
  then have abs: "dictOf h2 groups2 = groupDict (arr h a)"
    using s2 by (simp add: groupDict_def)
  have "mods {?u..} ?h0 h2" using r4 s4 by (rule mods_trans) simp
  then have "mods {} h h2" by (rule mods_fresh)
  with run abs s3 show ?thesis by blast
qed

lemma objectEntries_dictOf: "objectEntries (dictOf h groups) = dictOf h (objectEntries groups)"
  by (simp add: objectEntries_def dictOf_def filter_map comp_def sort_key_map)

lemma groupOf_classifyH:
  "groupOf h (classifyH h targets p) = classify targets (mkGroup (fst p, arr h (snd p)))"
  by (simp add: groupOf_def classifyH_def classify_def mkGroup_def)

lemma processedGroupsH_throws:
  assumes "a < nextFree h" and "groupingThrows (arr h a)"
  shows "\<exists>h'. processedGroupsH a config h = Inl (TypeError, h') \<and> mods {} h h'"
  using groupDictH_throws [OF assms] by (auto simp: processedGroupsH_def)

lemma processedGroupsH_ex:
  assumes a: "a < nextFree h" and returns: "\<not> groupingThrows (arr h a)"
  shows "\<exists>pgs h'. processedGroupsH a config h = Inr (pgs, h')
                   \<and> map (groupOf h') pgs = processedGroupsOf (arr h a) config
                   \<and> apart h' [] pgs \<and> mods {} h h'"
proof -
  from groupDictH_ex [OF a returns] obtain groups h' where
    r1: "groupDictH a h = Inr (groups, h')" and r2: "dictOf h' groups = groupDict (arr h a)"
    and r3: "dictOK (nextFree h) h' groups" and r4: "mods {} h h'"
    by blast
  let ?pgs = "map (classifyH h' (knightTargetGroups config)) (objectEntries groups)"
  have run: "processedGroupsH a config h = Inr (?pgs, h')"
    using r1 by (simp add: processedGroupsH_def)
  have "map (groupOf h') ?pgs
        = map (classify (knightTargetGroups config))
              (map mkGroup (dictOf h' (objectEntries groups)))"
    by (simp add: groupOf_classifyH dictOf_def comp_def)
  then have abs: "map (groupOf h') ?pgs = processedGroupsOf (arr h a) config"
    by (simp add: processedGroupsOf_def groupGuestsByRelationship_def r2 [symmetric]
        objectEntries_dictOf)
  have "set (objectEntries groups) = set groups"
    by (auto simp: objectEntries_def)
  then have "set (grpAddrs ?pgs) = set (map snd groups)"
    by (auto simp: grpAddrs_def classifyH_def image_iff)
  then have "apart h' [] ?pgs"
    using r3 by (auto simp: apart_def dictOK_def list_all_iff tabAddrs_def)
  with run abs r4 show ?thesis by blast
qed

subsection \<open>The optimizer: the store model against the value model\<close>

lemma optimizeSeatingH_throws:
  assumes "a < nextFree h" and "groupingThrows (arr h a)"
  shows "\<exists>h'. optimizeSeatingH a config h = Some (Inl TypeError, h') \<and> mods {} h h'"
  using processedGroupsH_throws [OF assms, of config] by (auto simp: optimizeSeatingH_def)

lemma optimizeSeatingH_ex:
  assumes a: "a < nextFree h" and returns: "\<not> groupingThrows (arr h a)"
  shows "\<exists>r h'. optimizeSeatingH a config h = Some (Inr r, h')
                 \<and> resultOf h' r = optimizeSeating (arr h a) config
                 \<and> mods {} h h' \<and> storeOK (nextFree h) h' (h_tables r)"
proof -
  let ?base = "nextFree h"
  let ?kc = "knightConfigOf config"
  let ?cap = "tableCapacityOf config"
  from processedGroupsH_ex [OF a returns, of config] obtain pgs h1 where
    p1: "processedGroupsH a config h = Inr (pgs, h1)"
    and p2: "map (groupOf h1) pgs = processedGroupsOf (arr h a) config"
    and p3: "apart h1 [] pgs" and p4: "mods {} h h1"
    by blast
  have base1: "?base \<le> nextFree h1" using p4 by (rule mods_next)
  from knightPhaseH_ex [OF base1 p3, of ?kc] obtain tabs tc pool h2 where
    k1: "knightPhaseH ?kc pgs h1 = Some ((tabs, tc), pool, h2)"
    and k2: "knightPhase ?kc (map (groupOf h1) pgs)
             = ((tablesOf h2 tabs, tc), map (groupOf h2) pool)"
    and k3: "storeOK ?base h2 tabs" and k4: "mods {} h1 h2" and k5: "apart h2 tabs pool"
    by blast
  have base2: "?base \<le> nextFree h2" using base1 mods_next [OF k4] by simp
  from standardPhaseH_ex [OF k3 base2 k5, of ?cap tc] obtain tabs' tc' h3 where
    s1: "standardPhaseH ?cap pool (tabs, tc, h2) = Some (tabs', tc', h3)"
    and s2: "standardPhase ?cap (map (groupOf h2) pool) (tablesOf h2 tabs, tc)
             = (tablesOf h3 tabs', tc')"
    and s3: "storeOK ?base h3 tabs'" and s4: "mods (set (tabAddrs tabs)) h2 h3"
    by blast
  have base3: "?base \<le> nextFree h3" using base2 mods_next [OF s4] by simp
  from mergeSparseTablesH_ex [OF s3 base3] obtain tabs'' h4 where
    m1: "mergeSparseTablesH (tabs', h3) = (tabs'', h4)"
    and m2: "mergeSparseTables (tablesOf h3 tabs') = tablesOf h4 tabs''"
    and m3: "storeOK ?base h4 tabs''" and m4: "mods {} h3 h4"
    by blast
  let ?r = "\<lparr> h_assignments = finalAssignment (tablesOf h4 tabs''), h_tables = tabs'' \<rparr>"
  have run: "optimizeSeatingH a config h = Some (Inr ?r, h4)"
    by (simp add: optimizeSeatingH_def p1 k1 s1 m1)
  have ak: "afterKnight (arr h a) config = ((tablesOf h2 tabs, tc), map (groupOf h2) pool)"
    by (simp add: afterKnight_def p2 [symmetric] k2)
  have "afterStandard (arr h a) config = tablesOf h3 tabs'"
    by (simp add: afterStandard_def ak s2)
  then have "afterMerge (arr h a) config = tablesOf h4 tabs''"
    by (simp add: afterMerge_def m2)
  then have abs: "resultOf h4 ?r = optimizeSeating (arr h a) config"
    by (simp add: resultOf_def optimizeSeating_def)
  have "mods {} h h2" using p4 k4 by (rule mods_trans) simp
  then have "mods {} h h3" using s4
    by (rule mods_trans) (use storeOK_addr [OF k3] in auto)
  then have "mods {} h h4" using m4 by (rule mods_trans) simp
  with run abs m3 show ?thesis by (intro exI [of _ ?r] exI [of _ h4]) simp
qed

text \<open>The value of a result depends only on the arrays of its tables.\<close>

lemma resultOf_mods:
  assumes "storeOK base h (h_tables r)" and "mods {} h h'"
  shows "resultOf h' r = resultOf h r"
  using tablesOf_mods [OF assms] by (simp add: resultOf_def)

text \<open>Every call ends: it throws in grouping when a group key is inherited, and returns the
  result of the value model otherwise. It writes to no array that the store held before,
  and nothing that leaves those of the call alone changes what the call yielded.\<close>

lemma optimizeSeatingH_outcome:
  assumes a: "a < nextFree h"
  shows "\<exists>res h'. optimizeSeatingH a config h = Some (res, h')
           \<and> outcomeOf h' res = (if groupingThrows (arr h a) then Inl TypeError
                                  else Inr (optimizeSeating (arr h a) config))
           \<and> mods {} h h'
           \<and> (\<forall>h''. mods {} h' h'' \<longrightarrow> outcomeOf h'' res = outcomeOf h' res)"
proof (cases "groupingThrows (arr h a)")
  case True
  from optimizeSeatingH_throws [OF a True, of config] obtain h' where
    r1: "optimizeSeatingH a config h = Some (Inl TypeError, h')" and r3: "mods {} h h'"
    by blast
  show ?thesis
  proof (intro exI [of _ "Inl TypeError"] exI [of _ h'] conjI allI impI)
    show "optimizeSeatingH a config h = Some (Inl TypeError, h')" by (rule r1)
    show "outcomeOf h' (Inl TypeError)
          = (if groupingThrows (arr h a) then Inl TypeError
             else Inr (optimizeSeating (arr h a) config))"
      using True by (simp add: outcomeOf_def)
    show "mods {} h h'" by (rule r3)
    show "outcomeOf h'' (Inl TypeError) = outcomeOf h' (Inl TypeError)" for h''
      by (simp add: outcomeOf_def)
  qed
next
  case False
  from optimizeSeatingH_ex [OF a False, of config] obtain r h' where
    r1: "optimizeSeatingH a config h = Some (Inr r, h')"
    and r2: "resultOf h' r = optimizeSeating (arr h a) config"
    and r3: "mods {} h h'" and r4: "storeOK (nextFree h) h' (h_tables r)"
    by blast
  show ?thesis
  proof (intro exI [of _ "Inr r"] exI [of _ h'] conjI allI impI)
    show "optimizeSeatingH a config h = Some (Inr r, h')" by (rule r1)
    show "outcomeOf h' (Inr r)
          = (if groupingThrows (arr h a) then Inl TypeError
             else Inr (optimizeSeating (arr h a) config))"
      using False r2 by (simp add: outcomeOf_def)
    show "mods {} h h'" by (rule r3)
    show "outcomeOf h'' (Inr r) = outcomeOf h' (Inr r)" if "mods {} h' h''" for h''
      unfolding outcomeOf_def using resultOf_mods [OF r4 that] by simp
  qed
qed

definition inheritedKeyGuests :: "Guest list" where
  "inheritedKeyGuests = [mkGuest ''a'' family groom (Some ''A'') (Some 1),
                         mkGuest ''b'' family groom (Some '' constructor'') (Some 1)]"

text \<open>C9. Let the input array be allocated in the store. Then the call ends, with a result or
  with the \<open>TypeError\<close> of grouping, which is thrown exactly when the trimmed group id of
  some guest names a property of \<open>Object.prototype\<close>. In both cases every array that the
  store held before the call, the input array with all the fields of its guests among them,
  holds the same guests after it; and a result returned is that of the value model on the
  contents of the input array. A second call on the same array therefore ends in the same
  way, with the same error or the same value, and leaves what the first call yielded and
  the arrays as they were.\<close>

theorem optimizeSeating_leaves_input:
  assumes "a < nextFree h"
  shows "\<exists>res h'. optimizeSeatingH a config h = Some (res, h')
           \<and> (\<forall>b<nextFree h. arr h' b = arr h b)
           \<and> outcomeOf h' res = (if groupingThrows (arr h a) then Inl TypeError
                                  else Inr (optimizeSeating (arr h a) config))
           \<and> (\<exists>res2 h2. optimizeSeatingH a config h' = Some (res2, h2)
                 \<and> outcomeOf h2 res2 = outcomeOf h' res \<and> outcomeOf h2 res = outcomeOf h' res
                 \<and> (\<forall>b<nextFree h. arr h2 b = arr h b))"
proof -
  from optimizeSeatingH_outcome [OF assms, of config] obtain res h' where
    r1: "optimizeSeatingH a config h = Some (res, h')"
    and r2: "outcomeOf h' res = (if groupingThrows (arr h a) then Inl TypeError
                                 else Inr (optimizeSeating (arr h a) config))"
    and r3: "mods {} h h'"
    and r4: "\<forall>h''. mods {} h' h'' \<longrightarrow> outcomeOf h'' res = outcomeOf h' res"
    by (elim exE conjE) (rule that)
  have frame1: "\<forall>b<nextFree h. arr h' b = arr h b" using modsD [OF r3] by simp
  have a': "a < nextFree h'" using assms mods_next [OF r3] by simp
  from optimizeSeatingH_outcome [OF a', of config] obtain res2 h2 where
    s1: "optimizeSeatingH a config h' = Some (res2, h2)"
    and s2: "outcomeOf h2 res2 = (if groupingThrows (arr h' a) then Inl TypeError
                                  else Inr (optimizeSeating (arr h' a) config))"
    and s3: "mods {} h' h2"
    by (elim exE conjE) (rule that)
  have "arr h' a = arr h a" using frame1 assms by simp
  with s2 r2 have same: "outcomeOf h2 res2 = outcomeOf h' res" by simp
  have kept: "outcomeOf h2 res = outcomeOf h' res" by (rule r4 [rule_format, OF s3])
  have "mods {} h h2" using r3 s3 by (rule mods_trans) simp
  then have frame2: "\<forall>b<nextFree h. arr h2 b = arr h b" using modsD by simp
  show ?thesis
    by (intro exI [of _ res] exI [of _ h'] exI [of _ res2] exI [of _ h2] conjI
        r1 frame1 r2 s1 same kept frame2)
qed

theorem optimizeSeating_leaves_input_witness:
  "0 < nextFree (storeOf mixedGuests)
   \<and> (\<exists>res h'. optimizeSeatingH 0 mixedConfig (storeOf mixedGuests) = Some (res, h')
          \<and> arr h' 0 = mixedGuests
          \<and> outcomeOf h' res = Inr (optimizeSeating mixedGuests mixedConfig)
          \<and> (\<exists>res2 h2. optimizeSeatingH 0 mixedConfig h' = Some (res2, h2)
                \<and> outcomeOf h2 res2 = outcomeOf h' res \<and> outcomeOf h2 res = outcomeOf h' res
                \<and> arr h2 0 = mixedGuests))
   \<and> map (\<lambda>t. (table_id t, map guest_id (table_guests t)))
          (tables (optimizeSeating mixedGuests mixedConfig))
       = [(0, [''f1'', ''f2'']), (1, [''x1'', ''s2'']), (3, [''big'']), (4, [''s1'', ''x2''])]
   \<and> 0 < nextFree (storeOf inheritedKeyGuests)
   \<and> groupingThrows inheritedKeyGuests
   \<and> (\<exists>res h'. optimizeSeatingH 0 mixedConfig (storeOf inheritedKeyGuests) = Some (res, h')
          \<and> arr h' 0 = inheritedKeyGuests
          \<and> outcomeOf h' res = Inl TypeError)"
proof -
  have a1: "0 < nextFree (storeOf mixedGuests)" by (simp add: storeOf_def)
  have c1: "arr (storeOf mixedGuests) 0 = mixedGuests" by (simp add: storeOf_def)
  have g1: "groupingThrows mixedGuests = False" by code_simp
  have a2: "0 < nextFree (storeOf inheritedKeyGuests)" by (simp add: storeOf_def)
  have c2: "arr (storeOf inheritedKeyGuests) 0 = inheritedKeyGuests" by (simp add: storeOf_def)
  have g2: "groupingThrows inheritedKeyGuests" by code_simp
  have run: "map (\<lambda>t. (table_id t, map guest_id (table_guests t)))
                 (tables (optimizeSeating mixedGuests mixedConfig))
             = [(0, [''f1'', ''f2'']), (1, [''x1'', ''s2'']), (3, [''big'']),
                (4, [''s1'', ''x2''])]"
    by code_simp
  from optimizeSeating_leaves_input [OF a1, of mixedConfig] obtain res h' res2 h2 where
    "optimizeSeatingH 0 mixedConfig (storeOf mixedGuests) = Some (res, h')"
    and "\<forall>b<nextFree (storeOf mixedGuests). arr h' b = arr (storeOf mixedGuests) b"
    and "outcomeOf h' res = (if groupingThrows (arr (storeOf mixedGuests) 0) then Inl TypeError
                             else Inr (optimizeSeating (arr (storeOf mixedGuests) 0) mixedConfig))"
    and "optimizeSeatingH 0 mixedConfig h' = Some (res2, h2)"
    and "outcomeOf h2 res2 = outcomeOf h' res" and "outcomeOf h2 res = outcomeOf h' res"
    and "\<forall>b<nextFree (storeOf mixedGuests). arr h2 b = arr (storeOf mixedGuests) b"
    by blast
  then have first: "\<exists>res h'. optimizeSeatingH 0 mixedConfig (storeOf mixedGuests) = Some (res, h')
          \<and> arr h' 0 = mixedGuests
          \<and> outcomeOf h' res = Inr (optimizeSeating mixedGuests mixedConfig)
          \<and> (\<exists>res2 h2. optimizeSeatingH 0 mixedConfig h' = Some (res2, h2)
                \<and> outcomeOf h2 res2 = outcomeOf h' res \<and> outcomeOf h2 res = outcomeOf h' res
                \<and> arr h2 0 = mixedGuests)"
    using a1 c1 g1 by auto
  from optimizeSeating_leaves_input [OF a2, of mixedConfig] obtain res h' where
    "optimizeSeatingH 0 mixedConfig (storeOf inheritedKeyGuests) = Some (res, h')"
    and "\<forall>b<nextFree (storeOf inheritedKeyGuests). arr h' b = arr (storeOf inheritedKeyGuests) b"
    and "outcomeOf h' res
         = (if groupingThrows (arr (storeOf inheritedKeyGuests) 0) then Inl TypeError
            else Inr (optimizeSeating (arr (storeOf inheritedKeyGuests) 0) mixedConfig))"
    by blast
  then have second: "\<exists>res h'. optimizeSeatingH 0 mixedConfig (storeOf inheritedKeyGuests)
                                = Some (res, h')
          \<and> arr h' 0 = inheritedKeyGuests \<and> outcomeOf h' res = Inl TypeError"
    using a2 c2 g2 by auto
  show ?thesis by (intro conjI a1 a2 g2 run first second)
qed

end
